(* ===== verification/FCGI_Prelude.thy ===== *)
theory FCGI_Prelude
  imports Main "HOL-Library.Word" "HOL-Library.Monad_Syntax"
begin

text \<open>
  Shared vocabulary of the development: bytes and fixed-width integers, the C++
  \<^verbatim>\<open>std::string\<close> operations the program uses (with \<^verbatim>\<open>size_type\<close> arithmetic modulo
  \<open>2 ^ 64\<close> and \<^verbatim>\<open>npos\<close>), and the list and option lemmas that the component
  theories use in their automation.

  A byte is a HOL \<open>char\<close>, which is exactly eight bits, so a \<^verbatim>\<open>std::string\<close> or a
  \<^verbatim>\<open>std::vector<char>\<close> is a \<open>string\<close>. A computation that can fail an
  \<^verbatim>\<open>assert\<close>, throw or touch memory out of bounds has an \<open>option\<close> result:
  \<open>None\<close> is the abort.
\<close>

section \<open>Types\<close>

type_synonym byte = char
type_synonym bytes = "char list"
type_synonym u8 = "8 word"
type_synonym u16 = "16 word"
type_synonym u32 = "32 word"
type_synonym u64 = "64 word"
type_synonym ParamMap = "bytes \<rightharpoonup> bytes"

text \<open>The byte with every bit clear, C's \<^verbatim>\<open>'\0'\<close>.\<close>

abbreviation NUL :: byte where
  "NUL \<equiv> CHR 0x00"

abbreviation CR :: byte where
  "CR \<equiv> CHR 0x0D"

abbreviation LF :: byte where
  "LF \<equiv> CHR 0x0A"

text \<open>The value of a byte as an unsigned number.\<close>

abbreviation ord :: "byte \<Rightarrow> nat" where
  "ord c \<equiv> of_char c"

named_theorems opt_iff \<open>when a computation returns: equations of the form \<open>f x = Some y \<longleftrightarrow> _\<close>\<close>
named_theorems content_simps \<open>what an operation does to the readable content of a buffer\<close>
named_theorems inv_intros \<open>every operation keeps the invariant of its component\<close>

section \<open>Options\<close>

definition assert_opt :: "bool \<Rightarrow> unit option" where
  "assert_opt P = (if P then Some () else None)"

lemma assert_opt_simps [simp]:
  "assert_opt True = Some ()" "assert_opt False = None"
  by (simp_all add: assert_opt_def)

lemma assert_opt_iff [opt_iff]: "assert_opt P = Some u \<longleftrightarrow> P"
  by (simp add: assert_opt_def)

lemma bind_Some_iff [opt_iff]:
  "Option.bind m f = Some y \<longleftrightarrow> (\<exists>x. m = Some x \<and> f x = Some y)"
  by (cases m) auto

lemma bind_cong_fundef [fundef_cong]:
  "m = n \<Longrightarrow> (\<And>x. n = Some x \<Longrightarrow> f x = g x) \<Longrightarrow> Option.bind m f = Option.bind n g"
  by (cases n) auto

section \<open>Bytes\<close>

lemma ord_less_256 [simp]: "ord c < 256"
  by (metis mod_less_divisor of_char_mod_256 zero_less_numeral)

lemma char_of_0 [simp]: "char_of (0 :: nat) = NUL"
  by (simp add: char_of_def)

lemma unat_of_char [simp]: "unat (of_char b :: u8) = ord b"
proof -
  have "unat (of_nat (ord b) :: u8) = ord b" by (simp add: unat_of_nat)
  then show ?thesis by (simp add: of_nat_of_char)
qed

text \<open>Reading the byte at an offset from a pointer; \<open>None\<close> is a read out of bounds.\<close>

definition mem_at :: "bytes \<Rightarrow> nat \<Rightarrow> byte option" where
  "mem_at p i = (if i < length p then Some (p ! i) else None)"

lemma mem_at_Some [simp]: "i < length p \<Longrightarrow> mem_at p i = Some (p ! i)"
  by (simp add: mem_at_def)

text \<open>The decimal numeral that \<^verbatim>\<open>ostream << size_t\<close> writes.\<close>

fun dec_digits :: "nat \<Rightarrow> bytes" where
  "dec_digits n =
     (if n < 10 then [char_of (48 + n)] else dec_digits (n div 10) @ [char_of (48 + n mod 10)])"

declare dec_digits.simps [simp del]

section \<open>Lists\<close>

lemma take_add_drop: "take n xs @ take m (drop n xs) = take (n + m) xs"
  by (simp add: take_add)

lemma take_drop_split: "n \<le> m \<Longrightarrow> take n xs @ drop n (take m xs) = take m xs"
  by (metis append_take_drop_id min.absorb1 take_take)

lemma drop_eq_append_drop:
  "length xs = n \<Longrightarrow> drop (n + m) (xs @ ys) = drop m ys"
  by simp

lemma nth_drop0: "i < length xs \<Longrightarrow> xs ! i = hd (drop i xs)"
  by (simp add: hd_drop_conv_nth)

text \<open>Overwriting a range of an array: C's \<^verbatim>\<open>std::copy\<close> into a destination inside the array.\<close>

definition overwrite :: "nat \<Rightarrow> 'a list \<Rightarrow> 'a list \<Rightarrow> 'a list" where
  "overwrite pos xs arr = take pos arr @ xs @ drop (pos + length xs) arr"

lemma length_overwrite [simp]:
  "pos + length xs \<le> length arr \<Longrightarrow> length (overwrite pos xs arr) = length arr"
  by (simp add: overwrite_def)

lemma take_overwrite [simp]:
  "n \<le> pos \<Longrightarrow> pos \<le> length arr \<Longrightarrow> take n (overwrite pos xs arr) = take n arr"
  by (simp add: overwrite_def min_def)

lemma drop_overwrite:
  "r \<le> pos \<Longrightarrow> pos \<le> length arr \<Longrightarrow>
     drop r (overwrite pos xs arr) = drop r (take pos arr) @ xs @ drop (pos + length xs) arr"
  by (simp add: overwrite_def)

lemma take_drop_overwrite:
  assumes "r \<le> pos" and "pos + length xs \<le> length arr"
  shows "take (pos + length xs - r) (drop r (overwrite pos xs arr)) =
         take (pos - r) (drop r arr) @ xs"
proof -
  have "drop r (overwrite pos xs arr) =
          drop r (take pos arr) @ xs @ drop (pos + length xs) arr"
    using assms by (intro drop_overwrite) auto
  moreover have "length (drop r (take pos arr) @ xs) = pos + length xs - r"
    using assms by simp
  ultimately have "take (pos + length xs - r) (drop r (overwrite pos xs arr)) =
      drop r (take pos arr) @ xs"
    by (metis append.assoc append_eq_conv_conj)
  also have "drop r (take pos arr) = take (pos - r) (drop r arr)"
    by (rule drop_take)
  finally show ?thesis .
qed

text \<open>C++ \<^verbatim>\<open>vector::resize(n)\<close>: keep the prefix, value-initialise the rest.\<close>

definition resize :: "nat \<Rightarrow> bytes \<Rightarrow> bytes" where
  "resize n xs = take n xs @ replicate (n - length xs) NUL"

lemma length_resize [simp]: "length (resize n xs) = n"
  by (simp add: resize_def)

lemma take_resize: "m \<le> n \<Longrightarrow> m \<le> length xs \<Longrightarrow> take m (resize n xs) = take m xs"
  by (simp add: resize_def min_def)

section \<open>Strings and \<^verbatim>\<open>size_type\<close>\<close>

text \<open>\<^verbatim>\<open>std::string::npos\<close> and wrap-around arithmetic on the 64-bit \<^verbatim>\<open>size_type\<close>.\<close>

definition npos :: nat where
  "npos = 2 ^ 64 - 1"

definition size_add :: "nat \<Rightarrow> nat \<Rightarrow> nat" where
  "size_add a b = (a + b) mod 2 ^ 64"

definition size_sub :: "nat \<Rightarrow> nat \<Rightarrow> nat" where
  "size_sub a b = (a + (2 ^ 64 - b mod 2 ^ 64)) mod 2 ^ 64"

lemma size_add_small: "a + b < 2 ^ 64 \<Longrightarrow> size_add a b = a + b"
  by (simp add: size_add_def)

lemma size_sub_small:
  assumes "b \<le> a" and "a < 2 ^ 64"
  shows "size_sub a b = a - b"
proof -
  obtain d where d: "a = b + d" using assms(1) le_Suc_ex by blast
  with assms have "a + (2 ^ 64 - b mod 2 ^ 64) = d + 2 ^ 64" by simp
  then have "size_sub a b = d mod 2 ^ 64"
    by (simp only: size_sub_def mod_add_self2)
  also have "\<dots> = d" using d assms by simp
  finally show ?thesis using d by simp
qed

text \<open>
  \<^verbatim>\<open>s.find(pat, pos)\<close>: the first position not before \<open>pos\<close> at which \<open>pat\<close> occurs,
  \<^verbatim>\<open>npos\<close> if there is none. \<^verbatim>\<open>s.find_first_of(c, pos)\<close> is the search for one character.
\<close>

fun find_at :: "'a list \<Rightarrow> 'a list \<Rightarrow> nat \<Rightarrow> nat option" where
  "find_at pat [] i = (if pat = [] then Some i else None)"
| "find_at pat (x # xs) i =
     (if take (length pat) (x # xs) = pat then Some i else find_at pat xs (Suc i))"

definition str_find :: "bytes \<Rightarrow> bytes \<Rightarrow> nat \<Rightarrow> nat" where
  "str_find s pat pos =
     (if length s < pos then npos
      else case find_at pat (drop pos s) pos of None \<Rightarrow> npos | Some i \<Rightarrow> i)"

text \<open>\<^verbatim>\<open>s.substr(pos, n)\<close>: throws \<^verbatim>\<open>out_of_range\<close> when \<open>pos\<close> is past the end.\<close>

definition substr :: "bytes \<Rightarrow> nat \<Rightarrow> nat \<Rightarrow> bytes option" where
  "substr s pos n = (if pos \<le> length s then Some (take n (drop pos s)) else None)"

lemma find_at_Some:
  "find_at pat xs i = Some j \<Longrightarrow>
     i \<le> j \<and> j - i + length pat \<le> length xs \<and> take (length pat) (drop (j - i) xs) = pat"
proof (induction xs arbitrary: i)
  case Nil
  then show ?case by (simp split: if_splits)
next
  case (Cons x xs)
  show ?case
  proof (cases "take (length pat) (x # xs) = pat")
    case True
    then have "length pat \<le> length (x # xs)"
      by (metis length_take min.cobounded1 min.commute)
    with True Cons.prems show ?thesis by auto
  next
    case False
    with Cons.prems have *: "find_at pat xs (Suc i) = Some j" by (simp split: if_splits)
    from Cons.IH [OF *] have "Suc i \<le> j" "j - Suc i + length pat \<le> length xs"
      "take (length pat) (drop (j - Suc i) xs) = pat" by auto
    moreover from this have "j - i = Suc (j - Suc i)" by simp
    ultimately show ?thesis by simp
  qed
qed

lemma find_at_None:
  "find_at pat xs i = None \<Longrightarrow> j + length pat \<le> length xs \<Longrightarrow> take (length pat) (drop j xs) \<noteq> pat"
proof (induction xs arbitrary: i j)
  case Nil
  then show ?case by (simp split: if_splits)
next
  case (Cons x xs)
  then show ?case by (cases j) (auto split: if_splits)
qed

lemma find_at_least:
  "find_at pat xs i = Some j \<Longrightarrow> k < j - i \<Longrightarrow> take (length pat) (drop k xs) \<noteq> pat"
proof (induction xs arbitrary: i k)
  case Nil
  then show ?case by (simp split: if_splits)
next
  case (Cons x xs)
  show ?case
  proof (cases "take (length pat) (x # xs) = pat")
    case True
    with Cons.prems show ?thesis by simp
  next
    case False
    with Cons.prems have *: "find_at pat xs (Suc i) = Some j" by (simp split: if_splits)
    show ?thesis
    proof (cases k)
      case 0
      with False show ?thesis by simp
    next
      case (Suc k')
      with Cons.prems have "k' < j - Suc i" by simp
      from Cons.IH [OF * this] Suc show ?thesis by simp
    qed
  qed
qed

lemma find_at_shift: "find_at pat xs (i + d) = map_option (\<lambda>j. j + d) (find_at pat xs i)"
proof (induction xs arbitrary: i)
  case (Cons x xs)
  from Cons.IH [of "Suc i"] show ?case by simp
qed simp

text \<open>Searching for one character is \<open>takeWhile\<close>.\<close>

lemma find_at_char:
  "find_at [c] xs i =
     (if c \<in> set xs then Some (i + length (takeWhile (\<lambda>x. x \<noteq> c) xs)) else None)"
  by (induction xs arbitrary: i) auto

lemma str_find_char:
  assumes "pos \<le> length s"
  shows "str_find s [c] pos =
     (if c \<in> set (drop pos s) then pos + length (takeWhile (\<lambda>x. x \<noteq> c) (drop pos s)) else npos)"
  using assms by (simp add: str_find_def find_at_char)

text \<open>A found position is inside the string, so it is never \<^verbatim>\<open>npos\<close> for a string that fits in memory.\<close>

lemma str_find_cases:
  assumes "length s < npos"
  obtains (none) "str_find s pat pos = npos"
  | (found) i where "str_find s pat pos = i" "i \<noteq> npos" "pos \<le> i" "i + length pat \<le> length s"
      "take (length pat) (drop i s) = pat"
proof (cases "length s < pos \<or> find_at pat (drop pos s) pos = None")
  case True
  then show ?thesis using none by (auto simp: str_find_def)
next
  case False
  then obtain i where i: "find_at pat (drop pos s) pos = Some i" and le: "pos \<le> length s" by auto
  from find_at_Some [OF i] le have "pos \<le> i" "i + length pat \<le> length s"
    "take (length pat) (drop i s) = pat" by (auto simp: algebra_simps)
  moreover from this assms have "i \<noteq> npos" by auto
  ultimately show ?thesis using found [of i] i le by (simp add: str_find_def)
qed

end
