(* ===== verification/Byte_Order.thy ===== *)
theory Byte_Order
  imports FCGI_Prelude
begin

text \<open>
  Integers in memory and on the wire. \<open>mem16\<close>, \<open>mem32\<close>, \<open>mem64\<close> are the bytes of an
  integer object on the little-endian x86 hosts the program supports (what
  \<^verbatim>\<open>memcpy\<close> from the object copies), \<open>ld16\<close>, \<open>ld32\<close>, \<open>ld64\<close> the object those bytes
  make. \<open>hton16\<close>, \<open>hton32\<close>, \<open>hton64\<close> are the macros of
  \<^verbatim>\<open>src/cocgi/cocgi_lib/type.h\<close>; \<open>hostToNetwork16\<close> and its kin are the inline
  functions of \<^verbatim>\<open>src/mucgi/muduo_net/Endian.h\<close>, whose \<^verbatim>\<open>htobe\<close> calls reverse the bytes
  of the object on such a host. The lemmas show that both put the most significant
  byte first and that reading undoes writing.
\<close>

unbundle bit_operations_syntax

section \<open>Memory images\<close>

definition byte_at :: "'a::len word \<Rightarrow> nat \<Rightarrow> byte" where
  "byte_at w i = char_of (unat (drop_bit (8 * i) w))"

definition mem_bytes :: "nat \<Rightarrow> 'a::len word \<Rightarrow> bytes" where
  "mem_bytes n w = map (byte_at w) [0..<n]"

primrec le_val :: "bytes \<Rightarrow> nat" where
  "le_val [] = 0"
| "le_val (b # bs) = ord b + 256 * le_val bs"

definition mem16 :: "u16 \<Rightarrow> bytes" where
  "mem16 w = mem_bytes 2 w"

definition mem32 :: "u32 \<Rightarrow> bytes" where
  "mem32 w = mem_bytes 4 w"

definition mem64 :: "u64 \<Rightarrow> bytes" where
  "mem64 w = mem_bytes 8 w"

definition ld16 :: "bytes \<Rightarrow> u16" where
  "ld16 bs = of_nat (le_val (take 2 bs))"

definition ld32 :: "bytes \<Rightarrow> u32" where
  "ld32 bs = of_nat (le_val (take 4 bs))"

definition ld64 :: "bytes \<Rightarrow> u64" where
  "ld64 bs = of_nat (le_val (take 8 bs))"

section \<open>The byte order conversions of the source\<close>

definition hton16 :: "u16 \<Rightarrow> u16" where
  "hton16 A = drop_bit 8 (A AND 0xff00) OR push_bit 8 (A AND 0x00ff)"

definition hton32 :: "u32 \<Rightarrow> u32" where
  "hton32 A = drop_bit 24 (A AND 0xff000000) OR drop_bit 8 (A AND 0x00ff0000)
     OR push_bit 8 (A AND 0x0000ff00) OR push_bit 24 (A AND 0x000000ff)"

definition hton64 :: "u64 \<Rightarrow> u64" where
  "hton64 A = (push_bit 56 A AND 0xFF00000000000000) OR (push_bit 40 A AND 0x00FF000000000000)
     OR (push_bit 24 A AND 0x0000FF0000000000) OR (push_bit 8 A AND 0x000000FF00000000)
     OR (drop_bit 8 A AND 0x00000000FF000000) OR (drop_bit 24 A AND 0x0000000000FF0000)
     OR (drop_bit 40 A AND 0x000000000000FF00) OR (drop_bit 56 A AND 0x00000000000000FF)"

definition hostToNetwork16 :: "u16 \<Rightarrow> u16" where
  "hostToNetwork16 host16 = ld16 (rev (mem16 host16))"

definition hostToNetwork32 :: "u32 \<Rightarrow> u32" where
  "hostToNetwork32 host32 = ld32 (rev (mem32 host32))"

definition hostToNetwork64 :: "u64 \<Rightarrow> u64" where
  "hostToNetwork64 host64 = ld64 (rev (mem64 host64))"

definition networkToHost16 :: "u16 \<Rightarrow> u16" where
  "networkToHost16 net16 = ld16 (rev (mem16 net16))"

definition networkToHost32 :: "u32 \<Rightarrow> u32" where
  "networkToHost32 net32 = ld32 (rev (mem32 net32))"

definition networkToHost64 :: "u64 \<Rightarrow> u64" where
  "networkToHost64 net64 = ld64 (rev (mem64 net64))"

section \<open>Reading back a memory image\<close>

lemma length_mem_bytes [simp]: "length (mem_bytes n w) = n"
  by (simp add: mem_bytes_def)

lemma length_mem [simp]:
  "length (mem16 a) = 2" "length (mem32 b) = 4" "length (mem64 c) = 8"
  by (simp_all add: mem16_def mem32_def mem64_def)

lemma le_val_append: "le_val (xs @ ys) = le_val xs + 256 ^ length xs * le_val ys"
  by (induction xs) (auto simp: algebra_simps)

lemma le_val_bound: "le_val bs < 256 ^ length bs"
proof (induction bs)
  case (Cons b bs)
  have "le_val (b # bs) < 256 * Suc (le_val bs)" by simp
  also from Cons have "\<dots> \<le> 256 * 256 ^ length bs"
    by (intro mult_le_mono2) simp
  finally show ?case by simp
qed simp

lemma of_char_byte_at: "ord (byte_at w i) = unat w div 256 ^ i mod 256"
proof -
  have "(2::nat) ^ (8 * i) = 256 ^ i" by (simp add: power_mult)
  moreover have "unat (drop_bit (8 * i) w) = unat w div 2 ^ (8 * i)"
    by (simp only: unat_drop_bit_eq) (simp add: drop_bit_eq_div)
  ultimately show ?thesis by (simp add: byte_at_def)
qed

lemma le_val_mem_bytes: "le_val (mem_bytes n w) = unat w mod 256 ^ n"
proof (induction n)
  case 0
  then show ?case by (simp add: mem_bytes_def)
next
  case (Suc n)
  have "mem_bytes (Suc n) w = mem_bytes n w @ [byte_at w n]"
    by (simp add: mem_bytes_def)
  then have "le_val (mem_bytes (Suc n) w) = unat w mod 256 ^ n + 256 ^ n * (unat w div 256 ^ n mod 256)"
    by (simp add: le_val_append Suc of_char_byte_at)
  also have "\<dots> = unat w mod (256 ^ n * 256)"
    by (simp only: mod_mult2_eq add.commute)
  finally show ?case by (simp add: mult.commute)
qed

lemma mem_bytes_le_val:
  assumes "length bs = n" and "256 ^ n = (2::nat) ^ LENGTH('a)"
  shows "mem_bytes n (of_nat (le_val bs) :: 'a::len word) = bs"
proof (rule nth_equalityI)
  fix i assume "i < length (mem_bytes n (of_nat (le_val bs) :: 'a word))"
  with assms have i: "i < length bs" by simp
  let ?a = "take i bs" and ?b = "bs ! i" and ?c = "drop (Suc i) bs"
  have "bs = ?a @ ?b # ?c" using i by (simp add: id_take_nth_drop)
  then have "le_val bs = le_val ?a + 256 ^ length ?a * (ord ?b + 256 * le_val ?c)"
    by (metis le_val.simps(2) le_val_append)
  moreover have "length ?a = i" using i by simp
  ultimately have split: "le_val bs = le_val ?a + 256 ^ i * (ord ?b + 256 * le_val ?c)" by simp
  have "le_val ?a < 256 ^ i" using le_val_bound [of ?a] i by simp
  with split have "le_val bs div 256 ^ i = ord ?b + 256 * le_val ?c" by simp
  then have "le_val bs div 256 ^ i mod 256 = ord ?b"
    by simp
  moreover have "unat (of_nat (le_val bs) :: 'a word) = le_val bs"
    using le_val_bound [of bs] assms by (simp add: unat_of_nat)
  ultimately have "ord (byte_at (of_nat (le_val bs) :: 'a word) i) = ord ?b"
    by (simp only: of_char_byte_at)
  then show "mem_bytes n (of_nat (le_val bs) :: 'a word) ! i = bs ! i"
    using i assms by (simp add: mem_bytes_def)
qed (use assms in simp)

lemma ld_mem [simp]: "ld16 (mem16 a) = a" "ld32 (mem32 b) = b" "ld64 (mem64 c) = c"
proof -
  have "unat a mod 256 ^ 2 = unat a" "unat b mod 256 ^ 4 = unat b" "unat c mod 256 ^ 8 = unat c"
    using unsigned_less [of a, where ?'a = nat] unsigned_less [of b, where ?'a = nat]
    unsigned_less [of c, where ?'a = nat] by simp_all
  then show "ld16 (mem16 a) = a" "ld32 (mem32 b) = b" "ld64 (mem64 c) = c"
    by (simp_all add: ld16_def ld32_def ld64_def mem16_def mem32_def mem64_def le_val_mem_bytes)
qed

lemma mem_ld [simp]:
  "length bs = 2 \<Longrightarrow> mem16 (ld16 bs) = bs"
  "length bs = 4 \<Longrightarrow> mem32 (ld32 bs) = bs"
  "length bs = 8 \<Longrightarrow> mem64 (ld64 bs) = bs"
  by (simp_all add: ld16_def ld32_def ld64_def mem16_def mem32_def mem64_def mem_bytes_le_val)

lemma ld_append [simp]:
  "ld16 (mem16 a @ xs) = a" "ld32 (mem32 b @ xs) = b" "ld64 (mem64 c @ xs) = c"
proof -
  have "take 2 (mem16 a @ xs) = take 2 (mem16 a)" "take 4 (mem32 b @ xs) = take 4 (mem32 b)"
    "take 8 (mem64 c @ xs) = take 8 (mem64 c)" by simp_all
  then show "ld16 (mem16 a @ xs) = a" "ld32 (mem32 b @ xs) = b" "ld64 (mem64 c @ xs) = c"
    by (metis ld16_def ld_mem(1), metis ld32_def ld_mem(2), metis ld64_def ld_mem(3))
qed

section \<open>Network byte order\<close>

lemma byte_at_eqI:
  assumes "\<And>n. n < 8 \<Longrightarrow> bit v (8 * i + n) = bit w (8 * j + n)"
  shows "byte_at (v::'a::len word) i = byte_at (w::'a word) j"
proof -
  have "take_bit 8 (drop_bit (8 * i) v) = take_bit 8 (drop_bit (8 * j) w)"
    by (rule bit_eqI) (use assms in \<open>auto simp: bit_take_bit_iff bit_drop_bit_eq\<close>)
  then have "unat (take_bit 8 (drop_bit (8 * i) v)) = unat (take_bit 8 (drop_bit (8 * j) w))"
    by simp
  then have "unat (drop_bit (8 * i) v) mod 256 = unat (drop_bit (8 * j) w) mod 256"
    by (simp only: unsigned_take_bit_eq) (simp add: take_bit_eq_mod)
  then show ?thesis
    by (metis byte_at_def char_of_mod_256)
qed

lemma less_8_iff:
  "(n::nat) < 8 \<longleftrightarrow> n = 0 \<or> n = 1 \<or> n = 2 \<or> n = 3 \<or> n = 4 \<or> n = 5 \<or> n = 6 \<or> n = 7"
  by auto

lemmas bit_word_ops = numeral_2_eq_2 [symmetric] bit_or_iff bit_and_iff bit_push_bit_iff bit_drop_bit_eq

lemma byte_at_hton16: "byte_at (hton16 w) 0 = byte_at w 1" "byte_at (hton16 w) 1 = byte_at w 0"
  unfolding hton16_def
  by (rule byte_at_eqI, unfold less_8_iff, elim disjE; simp add: bit_word_ops)+

lemma byte_at_hton32:
  "byte_at (hton32 w) 0 = byte_at w 3" "byte_at (hton32 w) 1 = byte_at w 2"
  "byte_at (hton32 w) 2 = byte_at w 1" "byte_at (hton32 w) 3 = byte_at w 0"
  unfolding hton32_def
  by (rule byte_at_eqI, unfold less_8_iff, elim disjE; simp add: bit_word_ops)+

lemma byte_at_hton64:
  "byte_at (hton64 w) 0 = byte_at w 7" "byte_at (hton64 w) 1 = byte_at w 6"
  "byte_at (hton64 w) 2 = byte_at w 5" "byte_at (hton64 w) 3 = byte_at w 4"
  "byte_at (hton64 w) 4 = byte_at w 3" "byte_at (hton64 w) 5 = byte_at w 2"
  "byte_at (hton64 w) 6 = byte_at w 1" "byte_at (hton64 w) 7 = byte_at w 0"
  unfolding hton64_def
  by (rule byte_at_eqI, unfold less_8_iff, elim disjE; simp add: bit_word_ops)+

lemmas mem_unfold =
  mem16_def mem32_def mem64_def mem_bytes_def upt_conv_Cons numeral_eq_Suc

text \<open>The macros of \<^verbatim>\<open>type.h\<close> put the most significant byte first in memory.\<close>

lemma mem_hton:
  "mem16 (hton16 a) = rev (mem16 a)" "mem32 (hton32 b) = rev (mem32 b)"
  "mem64 (hton64 c) = rev (mem64 c)"
  using byte_at_hton16 [of a] byte_at_hton32 [of b] byte_at_hton64 [of c]
  by (simp_all add: mem_unfold)

text \<open>So they agree with the \<^verbatim>\<open>htobe\<close>/\<^verbatim>\<open>betoh\<close> functions that \<^verbatim>\<open>Endian.h\<close> calls.\<close>

lemma hton_hostToNetwork:
  "hton16 a = hostToNetwork16 a" "hton32 b = hostToNetwork32 b" "hton64 c = hostToNetwork64 c"
  unfolding hostToNetwork16_def hostToNetwork32_def hostToNetwork64_def
  by (metis ld_mem(1) mem_hton(1), metis ld_mem(2) mem_hton(2), metis ld_mem(3) mem_hton(3))

lemma mem_hostToNetwork:
  "mem16 (hostToNetwork16 a) = rev (mem16 a)" "mem32 (hostToNetwork32 b) = rev (mem32 b)"
  "mem64 (hostToNetwork64 c) = rev (mem64 c)"
  by (simp_all add: hostToNetwork16_def hostToNetwork32_def hostToNetwork64_def)

lemma networkToHost_eq: "networkToHost16 = hostToNetwork16" "networkToHost32 = hostToNetwork32"
  "networkToHost64 = hostToNetwork64"
  by (auto simp: fun_eq_iff networkToHost16_def networkToHost32_def networkToHost64_def
      hostToNetwork16_def hostToNetwork32_def hostToNetwork64_def)

lemma networkToHost_hostToNetwork [simp]:
  "networkToHost16 (hostToNetwork16 a) = a" "networkToHost32 (hostToNetwork32 b) = b"
  "networkToHost64 (hostToNetwork64 c) = c"
  by (simp_all add: networkToHost16_def networkToHost32_def networkToHost64_def mem_hostToNetwork)

lemma hton_hton [simp]: "hton16 (hton16 a) = a" "hton32 (hton32 b) = b" "hton64 (hton64 c) = c"
  by (metis ld_mem(1) mem_hton(1) rev_rev_ident, metis ld_mem(2) mem_hton(2) rev_rev_ident,
      metis ld_mem(3) mem_hton(3) rev_rev_ident)

section \<open>Big-endian values\<close>

text \<open>What a receiver reads from the wire: the number a big-endian byte string denotes.\<close>

definition be_val :: "bytes \<Rightarrow> nat" where
  "be_val bs = le_val (rev bs)"

lemma be_val_Nil [simp]: "be_val [] = 0"
  by (simp add: be_val_def)

lemma be_val_Cons [simp]: "be_val (b # bs) = ord b * 256 ^ length bs + be_val bs"
  by (simp add: be_val_def le_val_append)

lemma be_val_bound: "be_val bs < 256 ^ length bs"
  using le_val_bound [of "rev bs"] by (simp add: be_val_def)

lemma networkToHost_ld:
  "length bs = 2 \<Longrightarrow> networkToHost16 (ld16 bs) = of_nat (be_val bs)"
  "length bs = 4 \<Longrightarrow> networkToHost32 (ld32 bs) = of_nat (be_val bs)"
  "length bs = 8 \<Longrightarrow> networkToHost64 (ld64 bs) = of_nat (be_val bs)"
  by (simp_all add: networkToHost16_def networkToHost32_def networkToHost64_def be_val_def
      ld16_def [of "rev bs"] ld32_def [of "rev bs"] ld64_def [of "rev bs"])

lemma be_val_mem:
  "be_val (rev (mem16 a)) = unat a" "be_val (rev (mem32 b)) = unat b" "be_val (rev (mem64 c)) = unat c"
  using unsigned_less [of a, where ?'a = nat] unsigned_less [of b, where ?'a = nat]
    unsigned_less [of c, where ?'a = nat]
  by (simp_all add: be_val_def mem16_def mem32_def mem64_def le_val_mem_bytes)

end
