(* ===== verification/Fcgi_Wire.thy ===== *)
theory Fcgi_Wire
  imports Byte_Order
begin

text \<open>
  The FastCGI wire format as the comments of
  \<^verbatim>\<open>src/cocgi/cocgi_lib/fastcgi.cpp\<close> and \<^verbatim>\<open>src/fastcgi/fastcgi_lib/fastcgi.h\<close>
  document it, over byte lists: the abstract specification that the two codecs are
  proved to implement. \<open>split_records\<close> cuts a byte stream into records and an
  incomplete rest, \<open>handle\<close> says what a record does to a connection, and \<open>parse_pairs\<close>
  decodes a name-value stream. The locale \<open>framing\<close> states the interface of a
  record splitter and proves once that the result does not depend on how the stream is
  cut into chunks.
\<close>

section \<open>Records\<close>

datatype frame = Frame (frame_type: nat) (frame_content: bytes)

definition rec_type :: "bytes \<Rightarrow> nat" where
  "rec_type bs = ord (bs ! 1)"

definition rec_length :: "bytes \<Rightarrow> nat" where
  "rec_length bs = be_val (take 2 (drop 4 bs))"

definition rec_padding :: "bytes \<Rightarrow> nat" where
  "rec_padding bs = ord (bs ! 6)"

definition rec_total :: "bytes \<Rightarrow> nat" where
  "rec_total bs = 8 + rec_length bs + rec_padding bs"

definition take_record :: "bytes \<Rightarrow> (frame \<times> bytes) option" where
  "take_record bs =
     (if length bs < 8 \<or> length bs < rec_total bs then None
      else Some (Frame (rec_type bs) (take (rec_length bs) (drop 8 bs)), drop (rec_total bs) bs))"

function split_records :: "bytes \<Rightarrow> frame list \<times> bytes" where
  "split_records bs =
     (case take_record bs of
        None \<Rightarrow> ([], bs)
      | Some (f, r) \<Rightarrow> let (fs, r') = split_records r in (f # fs, r'))"
  by pat_completeness auto
termination
  by (relation "measure length") (auto simp: take_record_def rec_total_def split: if_splits)

declare split_records.simps [simp del]

section \<open>Incremental splitting\<close>

text \<open>
  A splitter takes one item off the front of a byte string or reports that the string
  does not hold a whole item. It must make progress, and more input must not change an
  item that is already complete. \<open>items\<close> is the loop over it.
\<close>

locale framing =
  fixes take_item :: "bytes \<Rightarrow> ('f \<times> bytes) option"
    and items :: "bytes \<Rightarrow> 'f list \<times> bytes"
  assumes items_unfold: "items bs =
      (case take_item bs of
         None \<Rightarrow> ([], bs)
       | Some (f, r) \<Rightarrow> let (fs, r') = items r in (f # fs, r'))"
    and progress: "take_item bs = Some (f, r) \<Longrightarrow> length r < length bs"
    and monotone: "take_item bs = Some (f, r) \<Longrightarrow> take_item (bs @ more) = Some (f, r @ more)"
begin

text \<open>The rest is incomplete, so splitting it again yields nothing.\<close>

lemma items_rest: "items bs = (fs, r) \<Longrightarrow> take_item r = None"
proof (induction bs arbitrary: fs rule: length_induct)
  case (1 bs)
  show ?case
  proof (cases "take_item bs")
    case None
    with 1 items_unfold [of bs] show ?thesis by simp
  next
    case (Some p)
    then obtain f r1 where p: "take_item bs = Some (f, r1)" by (cases p) auto
    obtain gs r2 where g: "items r1 = (gs, r2)" by fastforce
    from 1(2) p g items_unfold [of bs] have "r2 = r" by simp
    with 1(1) progress [OF p] g show ?thesis by blast
  qed
qed

text \<open>Splitting a stream in two parts, with the rest of the first put before the second.\<close>

lemma items_append:
  "items bs = (fs, r) \<Longrightarrow> items (bs @ more) = (let (gs, r') = items (r @ more) in (fs @ gs, r'))"
proof (induction bs arbitrary: fs rule: length_induct)
  case (1 bs)
  show ?case
  proof (cases "take_item bs")
    case None
    with 1 items_unfold [of bs] show ?thesis by simp
  next
    case (Some p)
    then obtain f r1 where p: "take_item bs = Some (f, r1)" by (cases p) auto
    obtain gs r2 where g: "items r1 = (gs, r2)" by fastforce
    from 1(2) p g items_unfold [of bs] have eq: "fs = f # gs" "r2 = r" by simp_all
    have "items (r1 @ more) = (let (hs, r') = items (r @ more) in (gs @ hs, r'))"
      using 1(1) progress [OF p] g eq by blast
    then show ?thesis
      using items_unfold [of "bs @ more"] monotone [OF p, of more] eq
      by (simp split: prod.splits)
  qed
qed

text \<open>A receiver that splits after every chunk.\<close>

primrec feed :: "bytes list \<Rightarrow> bytes \<Rightarrow> 'f list \<times> bytes" where
  "feed [] r = ([], r)"
| "feed (c # cs) r =
     (let (fs, r') = items (r @ c); (gs, r'') = feed cs r' in (fs @ gs, r''))"

text \<open>It sees the same items and the same rest as a receiver of the whole stream.\<close>

lemma feed_concat:
  "take_item r = None \<Longrightarrow> feed chunks r = items (r @ concat chunks)"
proof (induction chunks arbitrary: r)
  case Nil
  then show ?case using items_unfold [of r] by simp
next
  case (Cons c cs)
  obtain fs r1 where c: "items (r @ c) = (fs, r1)" by fastforce
  from items_append [OF c, of "concat cs"] Cons.IH [OF items_rest [OF c]] c
  show ?case by (simp split: prod.splits)
qed

end

lemma take_record_progress: "take_record bs = Some (f, r) \<Longrightarrow> length r < length bs"
  by (auto simp: take_record_def rec_total_def split: if_splits)

lemma rec_header_append:
  assumes "8 \<le> length bs"
  shows "rec_type (bs @ more) = rec_type bs" "rec_length (bs @ more) = rec_length bs"
    "rec_padding (bs @ more) = rec_padding bs" "rec_total (bs @ more) = rec_total bs"
  using assms by (auto simp: rec_type_def rec_length_def rec_padding_def rec_total_def nth_append)

lemma take_record_monotone:
  assumes "take_record bs = Some (f, r)"
  shows "take_record (bs @ more) = Some (f, r @ more)"
proof -
  from assms have len: "8 \<le> length bs" "rec_total bs \<le> length bs"
    and fr: "f = Frame (rec_type bs) (take (rec_length bs) (drop 8 bs))" "r = drop (rec_total bs) bs"
    by (auto simp: take_record_def split: if_splits)
  from len(2) have "rec_length bs \<le> length bs - 8" by (simp add: rec_total_def)
  with len fr show ?thesis by (simp add: take_record_def rec_header_append)
qed

interpretation records: framing take_record split_records
  by unfold_locales
    (rule split_records.simps, erule take_record_progress, erule take_record_monotone)

lemma split_records_simps:
  "take_record bs = None \<Longrightarrow> split_records bs = ([], bs)"
  "take_record bs = Some (f, r) \<Longrightarrow> split_records r = (fs, r') \<Longrightarrow> split_records bs = (f # fs, r')"
  by (simp_all add: split_records.simps)

section \<open>Encoding records\<close>

text \<open>The bytes of a record of a given type, request id, content and padding length.\<close>

definition enc_record :: "nat \<Rightarrow> nat \<Rightarrow> bytes \<Rightarrow> nat \<Rightarrow> bytes" where
  "enc_record t rid c pad =
     [char_of (1::nat), char_of t, char_of (rid div 256), char_of rid,
      char_of (length c div 256), char_of (length c), char_of pad, NUL] @ c @ replicate pad NUL"

lemma length_enc_record: "length (enc_record t rid c pad) = 8 + length c + pad"
  by (simp add: enc_record_def)

lemma enc_record_header:
  assumes "t < 256" "length c < 65536" "pad < 256"
  shows "rec_type (enc_record t rid c pad @ xs) = t"
    "rec_length (enc_record t rid c pad @ xs) = length c"
    "rec_padding (enc_record t rid c pad @ xs) = pad"
proof -
  have "length c div 256 * 256 + length c mod 256 = length c" by simp
  with assms show "rec_type (enc_record t rid c pad @ xs) = t"
    "rec_length (enc_record t rid c pad @ xs) = length c"
    "rec_padding (enc_record t rid c pad @ xs) = pad"
    by (simp_all add: rec_type_def rec_length_def rec_padding_def enc_record_def)
qed

lemma take_record_enc:
  assumes "t < 256" "length c < 65536" "pad < 256"
  shows "take_record (enc_record t rid c pad @ xs) = Some (Frame t c, xs)"
proof -
  have "rec_total (enc_record t rid c pad @ xs) = 8 + length c + pad"
    using enc_record_header [OF assms] by (simp add: rec_total_def)
  moreover have "drop 8 (enc_record t rid c pad @ xs) = c @ replicate pad NUL @ xs"
    by (simp add: enc_record_def)
  ultimately show ?thesis
    using enc_record_header [OF assms, of rid xs] length_enc_record [of t rid c pad]
    by (simp add: take_record_def)
qed

lemma split_records_enc:
  assumes "t < 256" "length c < 65536" "pad < 256" and "split_records xs = (fs, r)"
  shows "split_records (enc_record t rid c pad @ xs) = (Frame t c # fs, r)"
  using split_records_simps(2) [OF take_record_enc [OF assms(1-3)] assms(4)] .

section \<open>Name-value streams\<close>

text \<open>A length: one byte below 128, or four bytes, big-endian, with the top bit set.\<close>

definition take_len :: "bytes \<Rightarrow> (nat \<times> bytes) option" where
  "take_len bs =
     (case bs of
        [] \<Rightarrow> None
      | b # bs' \<Rightarrow>
          if ord b < 128 then Some (ord b, bs')
          else if length bs < 4 then None
          else Some (be_val (take 4 bs) mod 2 ^ 31, drop 4 bs))"

definition enc_len :: "nat \<Rightarrow> bytes" where
  "enc_len n =
     (if n < 128 then [char_of n]
      else [char_of (128 + n div 2 ^ 24), char_of (n div 2 ^ 16), char_of (n div 2 ^ 8), char_of n])"

lemma take_len_length: "take_len bs = Some (n, r) \<Longrightarrow> length r < length bs"
  by (auto simp: take_len_def split: list.splits if_splits)

lemma take_len_bound: "take_len bs = Some (n, r) \<Longrightarrow> n < 2 ^ 31"
  by (auto simp: take_len_def split: list.splits if_splits)

text \<open>
  The pairs of a stream. The result holds what is left unread, the parameters, and whether
  the whole stream was well formed.
\<close>

function parse_pairs :: "bytes \<Rightarrow> ParamMap \<Rightarrow> bytes \<times> ParamMap \<times> bool" where
  "parse_pairs bs m =
     (if bs = [] then ([], m, True)
      else case take_len bs of
        None \<Rightarrow> (bs, m, False)
      | Some (nl, bs1) \<Rightarrow>
          (case take_len bs1 of
             None \<Rightarrow> (bs1, m, False)
           | Some (vl, bs2) \<Rightarrow>
               if nl + vl \<le> length bs2
               then parse_pairs (drop (nl + vl) bs2) (m(take nl bs2 \<mapsto> take vl (drop nl bs2)))
               else (bs2, m, False)))"
  by pat_completeness auto
termination
  by (relation "measure (\<lambda>(bs, m). length bs)") (auto dest!: take_len_length)

declare parse_pairs.simps [simp del]

definition enc_pair :: "bytes \<times> bytes \<Rightarrow> bytes" where
  "enc_pair kv = enc_len (length (fst kv)) @ enc_len (length (snd kv)) @ fst kv @ snd kv"

definition enc_pairs :: "(bytes \<times> bytes) list \<Rightarrow> bytes" where
  "enc_pairs kvs = concat (map enc_pair kvs)"

lemma base256_digits:
  fixes n :: nat
  shows "n div 16777216 * 256 + n div 65536 mod 256 = n div 65536"
    "n div 65536 * 256 + n div 256 mod 256 = n div 256"
    "n div 256 * 256 + n mod 256 = n"
proof -
  have "n div 16777216 = n div 65536 div 256" "n div 65536 = n div 256 div 256"
    by (simp_all add: div_mult2_eq [symmetric])
  then show "n div 16777216 * 256 + n div 65536 mod 256 = n div 65536"
    "n div 65536 * 256 + n div 256 mod 256 = n div 256"
    "n div 256 * 256 + n mod 256 = n"
    by (simp_all only: div_mult_mod_eq)
qed

lemma horner256:
  fixes a b c d x y z :: nat
  assumes "a * 256 + x = b" "b * 256 + y = c" "c * 256 + z = d"
  shows "(((128 + a) * 256 + x) * 256 + y) * 256 + z = d + 2 ^ 31"
  using assms by simp

lemma be_val_enc_len:
  assumes "128 \<le> n" "n < 2 ^ 31"
  shows "be_val (enc_len n) = n + 2 ^ 31"
proof -
  have "n div 16777216 < 128" using assms(2) by simp
  then have "be_val (enc_len n) =
      (((128 + n div 16777216) * 256 + n div 65536 mod 256) * 256 + n div 256 mod 256) * 256 + n mod 256"
    using assms(1) by (simp add: enc_len_def be_val_Cons)
  also have "\<dots> = n + 2 ^ 31"
    using horner256 [OF base256_digits] .
  finally show ?thesis .
qed

lemma take_len_enc:
  assumes "n < 2 ^ 31"
  shows "take_len (enc_len n @ xs) = Some (n, xs)"
proof (cases "n < 128")
  case True
  then show ?thesis by (simp add: take_len_def enc_len_def)
next
  case False
  then obtain b bs where e: "enc_len n = b # bs" "length bs = 3"
    and b: "b = char_of (128 + n div 16777216)"
    by (simp add: enc_len_def)
  have "n div 16777216 < 128" using assms by simp
  then have "ord b = 128 + n div 16777216" by (simp add: b)
  moreover have "be_val (b # bs) mod 2 ^ 31 = n"
    using be_val_enc_len [of n] False assms by (simp add: e(1) [symmetric] del: be_val_Cons)
  ultimately show ?thesis
    using e by (simp add: take_len_def)
qed

lemma parse_pairs_enc_pair:
  assumes "length k < 2 ^ 31" "length v < 2 ^ 31"
  shows "parse_pairs (enc_pair (k, v) @ xs) m = parse_pairs xs (m(k \<mapsto> v))"
proof -
  have ne: "enc_pair (k, v) @ xs \<noteq> []" by (simp add: enc_pair_def enc_len_def)
  have "take_len (enc_pair (k, v) @ xs) = Some (length k, enc_len (length v) @ k @ v @ xs)"
    "take_len (enc_len (length v) @ k @ v @ xs) = Some (length v, k @ v @ xs)"
    using take_len_enc [OF assms(1)] take_len_enc [OF assms(2)] by (simp_all add: enc_pair_def)
  with ne show ?thesis
    by (simp add: parse_pairs.simps [of "enc_pair (k, v) @ xs"] del: append_is_Nil_conv)
qed

lemma parse_enc_pairs:
  assumes "\<And>k v. (k, v) \<in> set kvs \<Longrightarrow> length k < 2 ^ 31 \<and> length v < 2 ^ 31"
  shows "parse_pairs (enc_pairs kvs @ xs) m = parse_pairs xs (m ++ map_of (rev kvs))"
  using assms
proof (induction kvs arbitrary: m)
  case Nil
  then show ?case by (simp add: enc_pairs_def)
next
  case (Cons kv kvs)
  obtain k v where kv: "kv = (k, v)" by fastforce
  have "length k < 2 ^ 31 \<and> length v < 2 ^ 31" using Cons.prems [of k v] by (simp add: kv)
  then have "parse_pairs (enc_pairs (kv # kvs) @ xs) m = parse_pairs (enc_pairs kvs @ xs) (m(k \<mapsto> v))"
    using parse_pairs_enc_pair [of k v "enc_pairs kvs @ xs" m] by (simp add: kv enc_pairs_def)
  also have "\<dots> = parse_pairs xs (m(k \<mapsto> v) ++ map_of (rev kvs))"
    by (intro Cons.IH Cons.prems) simp
  finally show ?case by (simp add: kv map_add_assoc [symmetric])
qed

section \<open>A connection\<close>

text \<open>What a receiver has accumulated of the request on a connection.\<close>

record connection =
  got :: bool
  keep :: bool
  input :: bytes
  pstream :: bytes
  pmap :: ParamMap

definition connection_init :: connection where
  "connection_init = \<lparr>got = False, keep = False, input = [], pstream = [], pmap = Map.empty\<rparr>"

definition handle_begin :: "bytes \<Rightarrow> connection \<Rightarrow> connection" where
  "handle_begin c k =
     (if 8 \<le> length c \<and> be_val (take 2 c) = 1 then k\<lparr>keep := ord (c ! 2) = 1\<rparr> else k)"

definition handle_params :: "bytes \<Rightarrow> connection \<Rightarrow> connection" where
  "handle_params c k =
     (if c = [] then
        (let (rest, m, ok) = parse_pairs (pstream k) (pmap k) in k\<lparr>pstream := rest, pmap := m\<rparr>)
      else k\<lparr>pstream := pstream k @ c\<rparr>)"

definition handle_stdin :: "bytes \<Rightarrow> connection \<Rightarrow> connection" where
  "handle_stdin c k = (if c = [] then k\<lparr>got := True\<rparr> else k\<lparr>input := input k @ c\<rparr>)"

definition handle :: "frame \<Rightarrow> connection \<Rightarrow> connection" where
  "handle f k =
     (if frame_type f = 1 then handle_begin (frame_content f) k
      else if frame_type f = 4 then handle_params (frame_content f) k
      else if frame_type f = 5 then handle_stdin (frame_content f) k
      else k)"

text \<open>Receiving bytes: all complete records are handled in order; the rest waits for more.\<close>

definition receive :: "bytes \<Rightarrow> connection \<Rightarrow> connection \<times> bytes" where
  "receive bs k = (let (fs, r) = split_records bs in (fold handle fs k, r))"

lemma receive_unfold:
  "receive bs k =
     (case take_record bs of None \<Rightarrow> (k, bs) | Some (f, r) \<Rightarrow> receive r (handle f k))"
  by (simp add: receive_def split_records.simps [of bs] split: option.splits prod.splits)

text \<open>
  A client's encoding of a request: a begin record, the parameter stream and the input in
  chunks, each stream ended by an empty record.
\<close>

definition enc_stream :: "nat \<Rightarrow> nat \<Rightarrow> bytes list \<Rightarrow> bytes" where
  "enc_stream t rid cs = concat (map (\<lambda>c. enc_record t rid c 0) cs) @ enc_record t rid [] 0"

definition begin_body :: "nat \<Rightarrow> nat \<Rightarrow> bytes" where
  "begin_body role flags = [char_of (role div 256), char_of role, char_of flags] @ replicate 5 NUL"

definition enc_begin :: "nat \<Rightarrow> nat \<Rightarrow> nat \<Rightarrow> bytes" where
  "enc_begin rid role flags = enc_record 1 rid (begin_body role flags) 0"

definition chunk_ok :: "bytes \<Rightarrow> bool" where
  "chunk_ok c \<longleftrightarrow> c \<noteq> [] \<and> length c < 65536"

definition enc_request ::
  "nat \<Rightarrow> nat \<Rightarrow> nat \<Rightarrow> bytes list \<Rightarrow> bytes list \<Rightarrow> bytes" where
  "enc_request rid role flags ps ins =
     enc_begin rid role flags @ enc_stream 4 rid ps @ enc_stream 5 rid ins"

lemma receive_enc_record:
  assumes "t < 256" "length c < 65536" "pad < 256"
  shows "receive (enc_record t rid c pad @ xs) k = receive xs (handle (Frame t c) k)"
  using take_record_enc [OF assms] by (simp add: receive_unfold [of "enc_record t rid c pad @ xs"])

lemma receive_enc_chunks:
  assumes "t < 256" "list_all chunk_ok cs"
  shows "receive (concat (map (\<lambda>c. enc_record t rid c 0) cs) @ xs) k
       = receive xs (fold (\<lambda>c. handle (Frame t c)) cs k)"
  using assms(2)
  by (induction cs arbitrary: k) (simp_all add: receive_enc_record assms(1) chunk_ok_def)

lemma fold_params:
  "list_all chunk_ok cs \<Longrightarrow>
   fold (\<lambda>c. handle (Frame 4 c)) cs k = k\<lparr>pstream := pstream k @ concat cs\<rparr>"
  by (induction cs arbitrary: k) (simp_all add: handle_def handle_params_def chunk_ok_def)

lemma fold_stdin:
  "list_all chunk_ok cs \<Longrightarrow>
   fold (\<lambda>c. handle (Frame 5 c)) cs k = k\<lparr>input := input k @ concat cs\<rparr>"
  by (induction cs arbitrary: k) (simp_all add: handle_def handle_stdin_def chunk_ok_def)

lemma handle_begin_body:
  assumes "role < 65536" "flags < 256"
  shows "handle_begin (begin_body role flags) k =
    (if role = 1 then k\<lparr>keep := flags = 1\<rparr> else k)"
proof -
  have "role div 256 * 256 + role mod 256 = role" by simp
  then have "be_val (take 2 (begin_body role flags)) = role"
    using assms(1) by (simp add: begin_body_def)
  with assms(2) show ?thesis by (simp add: handle_begin_def begin_body_def)
qed

lemma receive_enc_request:
  assumes "list_all chunk_ok ps" "list_all chunk_ok ins" "concat ps = enc_pairs kvs"
    and "\<And>k v. (k, v) \<in> set kvs \<Longrightarrow> length k < 2 ^ 31 \<and> length v < 2 ^ 31"
    and "role < 65536" "flags < 256"
  shows "receive (enc_request rid role flags ps ins @ xs) connection_init
       = receive xs \<lparr>got = True, keep = (role = 1 \<and> flags = 1), input = concat ins,
                     pstream = [], pmap = map_of (rev kvs)\<rparr>"
proof -
  let ?k0 = "connection_init\<lparr>keep := (role = 1 \<and> flags = 1)\<rparr>"
  have b: "handle (Frame 1 (begin_body role flags)) connection_init = ?k0"
    using handle_begin_body [OF assms(5,6)] by (simp add: handle_def connection_init_def)
  have lb: "length (begin_body role flags) < 65536" by (simp add: begin_body_def)
  have p: "parse_pairs (enc_pairs kvs) Map.empty = ([], map_of (rev kvs), True)"
    using parse_enc_pairs [OF assms(4), of kvs "[]" Map.empty] by (simp add: parse_pairs.simps)
  show ?thesis
    by (simp add: enc_request_def enc_begin_def enc_stream_def receive_enc_record lb b
        receive_enc_chunks assms(1,2) fold_params fold_stdin del: One_nat_def)
      (simp add: handle_def handle_params_def handle_stdin_def connection_init_def p assms(3))
qed

text \<open>Receiving can stop and resume at any byte.\<close>

lemma receive_append:
  assumes "receive bs k = (k', r)"
  shows "receive (bs @ xs) k = receive (r @ xs) k'"
proof -
  obtain fs r1 where s: "split_records bs = (fs, r1)" by fastforce
  with assms have "k' = fold handle fs k" "r1 = r" by (simp_all add: receive_def)
  with records.items_append [OF s, of xs] show ?thesis
    by (simp add: receive_def split: prod.splits)
qed

lemma receive_rest: "receive bs k = (k', r) \<Longrightarrow> receive r k'' = (k'', r)"
  using records.items_rest [of bs _ r]
  by (auto simp: receive_def split_records_simps(1) split: prod.splits)

lemma got_fold_handle: "got k \<Longrightarrow> got (fold handle fs k)"
  by (induction fs arbitrary: k)
    (auto simp: handle_def handle_begin_def handle_params_def handle_stdin_def split: prod.splits)

lemma receive_got: "receive bs k = (k', r) \<Longrightarrow> got k \<Longrightarrow> got k'"
  by (auto simp: receive_def got_fold_handle split: prod.splits)

text \<open>A request is not complete before its last byte.\<close>

lemma receive_incomplete:
  assumes "p @ q = enc_request rid role flags ps ins" "q \<noteq> []"
    and "list_all chunk_ok ps" "list_all chunk_ok ins"
    and "receive p connection_init = (k, r)"
  shows "\<not> got k"
proof -
  let ?xs = "enc_begin rid role flags @ enc_stream 4 rid ps @ concat (map (\<lambda>c. enc_record 5 rid c 0) ins)"
  have lb: "length (begin_body role flags) < 65536" by (simp add: begin_body_def)
  have nil: "receive [] k = (k, [])" for k by (simp add: receive_unfold take_record_def)
  obtain k0 where k0: "receive (?xs @ zs) connection_init = receive zs k0" "\<not> got k0" for zs
    by (simp add: enc_begin_def enc_stream_def receive_enc_record lb receive_enc_chunks assms(3,4)
        fold_params fold_stdin del: One_nat_def)
      (auto simp: handle_def handle_params_def handle_begin_def connection_init_def split: prod.splits)
  have eq: "p @ q = ?xs @ enc_record 5 rid [] 0" using assms(1) by (simp add: enc_request_def enc_stream_def)
  then consider zs where "p @ zs = ?xs" | zs where "p = ?xs @ zs" "zs @ q = enc_record 5 rid [] 0"
    unfolding append_eq_append_conv2 by metis
  then show ?thesis
  proof cases
    case 1
    then have "receive (p @ zs) connection_init = (k0, [])" using k0(1) [of "[]"] nil by simp
    then show ?thesis using receive_append [OF assms(5), of zs] receive_got k0(2) by metis
  next
    case 2
    have "length zs < 8" using arg_cong [OF 2(2), of length] assms(2)
      by (cases q) (simp_all add: length_enc_record)
    then have "receive p connection_init = (k0, zs)"
      using 2(1) k0(1) [of zs] by (simp add: receive_unfold [of zs] take_record_def)
    with assms(5) k0(2) show ?thesis by simp
  qed
qed

section \<open>Codecs\<close>

text \<open>
  The interface of a codec that receives a chunk at a time: \<open>recv\<close> adds a chunk to what is
  pending and handles the records that are now complete. A chunk is at most as long as one
  read delivers. Chunk by chunk, such a codec does what \<open>receive\<close> does on the whole stream.
\<close>

primrec run_chunks :: "(bytes \<Rightarrow> 's \<Rightarrow> 's option) \<Rightarrow> bytes list \<Rightarrow> 's \<Rightarrow> 's option" where
  "run_chunks recv [] s = Some s"
| "run_chunks recv (c # cs) s = do { s' \<leftarrow> recv c s; run_chunks recv cs s' }"

definition read_ok :: "bytes \<Rightarrow> bool" where
  "read_ok c \<longleftrightarrow> length c \<le> 65536"

locale wire_codec =
  fixes conn :: "'s \<Rightarrow> connection"
    and pending :: "'s \<Rightarrow> bytes"
    and inv :: "'s \<Rightarrow> bool"
    and recv :: "bytes \<Rightarrow> 's \<Rightarrow> 's option"
    and init :: 's
  assumes init_ok: "inv init" "conn init = connection_init" "pending init = []"
    and recv_ok: "inv s \<Longrightarrow> read_ok c \<Longrightarrow>
      \<exists>s'. recv c s = Some s' \<and> inv s' \<and> receive (pending s @ c) (conn s) = (conn s', pending s')"
begin

lemma run_ok:
  assumes "inv s" "receive (pending s) (conn s) = (conn s, pending s)" "list_all read_ok cs"
  shows "\<exists>s'. run_chunks recv cs s = Some s' \<and> inv s' \<and>
    receive (pending s @ concat cs) (conn s) = (conn s', pending s')"
  using assms
proof (induction cs arbitrary: s)
  case (Cons c cs)
  then have "read_ok c" by simp
  then obtain s1 where s1: "recv c s = Some s1" "inv s1"
      "receive (pending s @ c) (conn s) = (conn s1, pending s1)"
    using recv_ok [OF Cons.prems(1)] by blast
  have "receive (pending s1) (conn s1) = (conn s1, pending s1)"
    using receive_rest [OF s1(3)] .
  then obtain s2 where "run_chunks recv cs s1 = Some s2" "inv s2"
      "receive (pending s1 @ concat cs) (conn s1) = (conn s2, pending s2)"
    using Cons.IH [OF s1(2)] Cons.prems(3) by auto
  with s1(1) receive_append [OF s1(3), of "concat cs"] show ?case by simp
qed simp

lemma run_init:
  assumes "list_all read_ok cs"
  shows "\<exists>s. run_chunks recv cs init = Some s \<and> inv s \<and>
    receive (concat cs) connection_init = (conn s, pending s)"
proof -
  have "receive [] k = (k, [])" for k by (simp add: receive_unfold take_record_def)
  with run_ok [OF init_ok(1) _ assms] show ?thesis by (simp add: init_ok)
qed

text \<open>A request that a client encodes arrives unchanged, however it is cut on the way.\<close>

lemma run_request:
  assumes "list_all read_ok cs" "concat cs = enc_request rid role flags ps ins"
    and "list_all chunk_ok ps" "list_all chunk_ok ins" "concat ps = enc_pairs kvs"
    and "\<And>k v. (k, v) \<in> set kvs \<Longrightarrow> length k < 2 ^ 31 \<and> length v < 2 ^ 31"
    and "role < 65536" "flags < 256"
  shows "\<exists>s. run_chunks recv cs init = Some s \<and> inv s \<and> pending s = [] \<and>
    conn s = \<lparr>got = True, keep = (role = 1 \<and> flags = 1), input = concat ins,
              pstream = [], pmap = map_of (rev kvs)\<rparr>"
proof -
  obtain s where s: "run_chunks recv cs init = Some s" "inv s"
      "receive (concat cs) connection_init = (conn s, pending s)"
    using run_init [OF assms(1)] by blast
  have "receive [] k = (k, [])" for k by (simp add: receive_unfold take_record_def)
  with receive_enc_request [OF assms(3-8), of rid "[]"] s assms(2) show ?thesis by simp
qed

end

end
