(* ===== verification/Muduo_Buffer.thy ===== *)
theory Muduo_Buffer
  imports Byte_Order
begin

text \<open>
  The receive and send buffer \<^verbatim>\<open>muduo::net::Buffer\<close>
  (\<^verbatim>\<open>src/mucgi/muduo_net/Buffer.h\<close>, \<^verbatim>\<open>Buffer.cc\<close>; the copy under
  \<^verbatim>\<open>src/cocgi/cocgi_lib/muduo_lib\<close> differs in the names of the byte order
  conversions only). The record has the three data members of the class. An operation
  whose \<^verbatim>\<open>assert\<close> can fail returns an \<open>option\<close>. A pointer into the storage is the
  suffix of the storage that starts there (\<open>peek\<close>) or an offset from \<^verbatim>\<open>begin()\<close>
  (the \<open>find\<close> operations).

  The lemmas show that the class is a byte queue: \<open>content\<close> is the abstraction to the
  list of readable bytes, \<open>Buffer_inv\<close> the invariant of the class diagram, and every
  operation keeps the invariant, passes its assertions and acts on \<open>content\<close> as
  documented. The locale \<open>byte_queue\<close> is the interface the codecs and the connections
  use.
\<close>

section \<open>State and operations\<close>

record Buffer =
  buffer :: bytes
  readerIndex :: nat
  writerIndex :: nat

record StringPiece =
  sp_ptr :: bytes
  sp_length :: int

definition kCheapPrepend :: nat where
  "kCheapPrepend = 8"

definition kInitialSize :: nat where
  "kInitialSize = 1024"

definition kCRLF :: bytes where
  "kCRLF = [CR, LF]"

definition new_Buffer :: "nat \<Rightarrow> Buffer" where
  "new_Buffer initialSize =
     \<lparr>buffer = replicate (kCheapPrepend + initialSize) NUL,
      readerIndex = kCheapPrepend, writerIndex = kCheapPrepend\<rparr>"

definition swap_Buffer :: "Buffer \<Rightarrow> Buffer \<Rightarrow> Buffer \<times> Buffer" where
  "swap_Buffer b rhs =
     (b\<lparr>buffer := buffer rhs, readerIndex := readerIndex rhs, writerIndex := writerIndex rhs\<rparr>,
      rhs\<lparr>buffer := buffer b, readerIndex := readerIndex b, writerIndex := writerIndex b\<rparr>)"

definition readableBytes :: "Buffer \<Rightarrow> nat" where
  "readableBytes b = writerIndex b - readerIndex b"

definition writableBytes :: "Buffer \<Rightarrow> nat" where
  "writableBytes b = length (buffer b) - writerIndex b"

definition prependableBytes :: "Buffer \<Rightarrow> nat" where
  "prependableBytes b = readerIndex b"

definition peek :: "Buffer \<Rightarrow> bytes" where
  "peek b = drop (readerIndex b) (buffer b)"

text \<open>\<^verbatim>\<open>std::search\<close> over the range \<open>[start, beginWrite())\<close>: its end when nothing is found.\<close>

definition search_range :: "nat \<Rightarrow> Buffer \<Rightarrow> bytes \<Rightarrow> nat" where
  "search_range start b pat =
     (case find_at pat (take (writerIndex b - start) (drop start (buffer b))) start of
        None \<Rightarrow> writerIndex b
      | Some i \<Rightarrow> i)"

definition findCRLF :: "Buffer \<Rightarrow> nat option" where
  "findCRLF b =
     (let crlf = search_range (readerIndex b) b kCRLF
      in if crlf = writerIndex b then None else Some crlf)"

definition findCRLF_from :: "nat \<Rightarrow> Buffer \<Rightarrow> nat option option" where
  "findCRLF_from start b = do {
     assert_opt (readerIndex b \<le> start);
     assert_opt (start \<le> writerIndex b);
     let crlf = search_range start b kCRLF;
     Some (if crlf = writerIndex b then None else Some crlf)
   }"

definition findEOL :: "Buffer \<Rightarrow> nat option" where
  "findEOL b = find_at [LF] (take (readableBytes b) (peek b)) (readerIndex b)"

definition findEOL_from :: "nat \<Rightarrow> Buffer \<Rightarrow> nat option option" where
  "findEOL_from start b = do {
     assert_opt (readerIndex b \<le> start);
     assert_opt (start \<le> writerIndex b);
     Some (find_at [LF] (take (writerIndex b - start) (drop start (buffer b))) start)
   }"

definition retrieveAll :: "Buffer \<Rightarrow> Buffer" where
  "retrieveAll b = b\<lparr>readerIndex := kCheapPrepend, writerIndex := kCheapPrepend\<rparr>"

definition retrieve :: "nat \<Rightarrow> Buffer \<Rightarrow> Buffer option" where
  "retrieve len b = do {
     assert_opt (len \<le> readableBytes b);
     Some (if len < readableBytes b then b\<lparr>readerIndex := readerIndex b + len\<rparr>
           else retrieveAll b)
   }"

definition retrieveUntil :: "nat \<Rightarrow> Buffer \<Rightarrow> Buffer option" where
  "retrieveUntil endp b = do {
     assert_opt (readerIndex b \<le> endp);
     assert_opt (endp \<le> writerIndex b);
     retrieve (endp - readerIndex b) b
   }"

definition retrieveInt64 :: "Buffer \<Rightarrow> Buffer option" where
  "retrieveInt64 b = retrieve 8 b"

definition retrieveInt32 :: "Buffer \<Rightarrow> Buffer option" where
  "retrieveInt32 b = retrieve 4 b"

definition retrieveInt16 :: "Buffer \<Rightarrow> Buffer option" where
  "retrieveInt16 b = retrieve 2 b"

definition retrieveInt8 :: "Buffer \<Rightarrow> Buffer option" where
  "retrieveInt8 b = retrieve 1 b"

definition retrieveAsString :: "nat \<Rightarrow> Buffer \<Rightarrow> (bytes \<times> Buffer) option" where
  "retrieveAsString len b = do {
     assert_opt (len \<le> readableBytes b);
     let result = take len (peek b);
     b' \<leftarrow> retrieve len b;
     Some (result, b')
   }"

definition retrieveAllAsString :: "Buffer \<Rightarrow> (bytes \<times> Buffer) option" where
  "retrieveAllAsString b = retrieveAsString (readableBytes b) b"

text \<open>\<^verbatim>\<open>static_cast<int>\<close> of a \<^verbatim>\<open>size_t\<close> keeps the low 32 bits as a signed number.\<close>

definition toStringPiece :: "Buffer \<Rightarrow> StringPiece" where
  "toStringPiece b = \<lparr>sp_ptr = peek b, sp_length = sint (of_nat (readableBytes b) :: u32)\<rparr>"

definition makeSpace :: "nat \<Rightarrow> Buffer \<Rightarrow> Buffer option" where
  "makeSpace len b =
     (if writableBytes b + prependableBytes b < len + kCheapPrepend
      then Some (b\<lparr>buffer := resize (writerIndex b + len) (buffer b)\<rparr>)
      else do {
        assert_opt (kCheapPrepend < readerIndex b);
        let readable = readableBytes b;
        let b' = b\<lparr>buffer := overwrite kCheapPrepend (take readable (peek b)) (buffer b),
                   readerIndex := kCheapPrepend,
                   writerIndex := kCheapPrepend + readable\<rparr>;
        assert_opt (readable = readableBytes b');
        Some b'
      })"

definition ensureWritableBytes :: "nat \<Rightarrow> Buffer \<Rightarrow> Buffer option" where
  "ensureWritableBytes len b = do {
     b' \<leftarrow> (if writableBytes b < len then makeSpace len b else Some b);
     assert_opt (writableBytes b' \<ge> len);
     Some b'
   }"

definition hasWritten :: "nat \<Rightarrow> Buffer \<Rightarrow> Buffer option" where
  "hasWritten len b = do {
     assert_opt (len \<le> writableBytes b);
     Some (b\<lparr>writerIndex := writerIndex b + len\<rparr>)
   }"

definition unwrite :: "nat \<Rightarrow> Buffer \<Rightarrow> Buffer option" where
  "unwrite len b = do {
     assert_opt (len \<le> readableBytes b);
     Some (b\<lparr>writerIndex := writerIndex b - len\<rparr>)
   }"

text \<open>
  \<^verbatim>\<open>append(data, len)\<close>. \<open>data\<close> is the memory that starts at the pointer, so reading
  \<open>len\<close> bytes beyond it is out of bounds (\<open>None\<close>).
\<close>

definition append :: "bytes \<Rightarrow> nat \<Rightarrow> Buffer \<Rightarrow> Buffer option" where
  "append data len b = do {
     assert_opt (len \<le> length data);
     b' \<leftarrow> ensureWritableBytes len b;
     let b'' = b'\<lparr>buffer := overwrite (writerIndex b') (take len data) (buffer b')\<rparr>;
     hasWritten len b''
   }"

text \<open>The conversion of \<^verbatim>\<open>StringPiece::size()\<close>, an \<^verbatim>\<open>int\<close>, to the \<^verbatim>\<open>size_t\<close> parameter.\<close>

definition append_piece :: "StringPiece \<Rightarrow> Buffer \<Rightarrow> Buffer option" where
  "append_piece str b = append (sp_ptr str) (unat (of_int (sp_length str) :: u64)) b"

definition appendInt64 :: "u64 \<Rightarrow> Buffer \<Rightarrow> Buffer option" where
  "appendInt64 x b = append (mem64 (hostToNetwork64 x)) 8 b"

definition appendInt32 :: "u32 \<Rightarrow> Buffer \<Rightarrow> Buffer option" where
  "appendInt32 x b = append (mem32 (hostToNetwork32 x)) 4 b"

definition appendInt16 :: "u16 \<Rightarrow> Buffer \<Rightarrow> Buffer option" where
  "appendInt16 x b = append (mem16 (hostToNetwork16 x)) 2 b"

definition appendInt8 :: "u8 \<Rightarrow> Buffer \<Rightarrow> Buffer option" where
  "appendInt8 x b = append [char_of (unat x)] 1 b"

definition peekInt64 :: "Buffer \<Rightarrow> u64 option" where
  "peekInt64 b = do {
     assert_opt (readableBytes b \<ge> 8);
     Some (networkToHost64 (ld64 (take 8 (peek b))))
   }"

definition peekInt32 :: "Buffer \<Rightarrow> u32 option" where
  "peekInt32 b = do {
     assert_opt (readableBytes b \<ge> 4);
     Some (networkToHost32 (ld32 (take 4 (peek b))))
   }"

definition peekInt16 :: "Buffer \<Rightarrow> u16 option" where
  "peekInt16 b = do {
     assert_opt (readableBytes b \<ge> 2);
     Some (networkToHost16 (ld16 (take 2 (peek b))))
   }"

definition peekInt8 :: "Buffer \<Rightarrow> u8 option" where
  "peekInt8 b = do {
     assert_opt (readableBytes b \<ge> 1);
     Some (of_char (hd (peek b)))
   }"

definition readInt64 :: "Buffer \<Rightarrow> (u64 \<times> Buffer) option" where
  "readInt64 b = do { result \<leftarrow> peekInt64 b; b' \<leftarrow> retrieveInt64 b; Some (result, b') }"

definition readInt32 :: "Buffer \<Rightarrow> (u32 \<times> Buffer) option" where
  "readInt32 b = do { result \<leftarrow> peekInt32 b; b' \<leftarrow> retrieveInt32 b; Some (result, b') }"

definition readInt16 :: "Buffer \<Rightarrow> (u16 \<times> Buffer) option" where
  "readInt16 b = do { result \<leftarrow> peekInt16 b; b' \<leftarrow> retrieveInt16 b; Some (result, b') }"

definition readInt8 :: "Buffer \<Rightarrow> (u8 \<times> Buffer) option" where
  "readInt8 b = do { result \<leftarrow> peekInt8 b; b' \<leftarrow> retrieveInt8 b; Some (result, b') }"

definition prepend :: "bytes \<Rightarrow> nat \<Rightarrow> Buffer \<Rightarrow> Buffer option" where
  "prepend data len b = do {
     assert_opt (len \<le> length data);
     assert_opt (len \<le> prependableBytes b);
     let b' = b\<lparr>readerIndex := readerIndex b - len\<rparr>;
     Some (b'\<lparr>buffer := overwrite (readerIndex b') (take len data) (buffer b')\<rparr>)
   }"

definition prependInt64 :: "u64 \<Rightarrow> Buffer \<Rightarrow> Buffer option" where
  "prependInt64 x b = prepend (mem64 (hostToNetwork64 x)) 8 b"

definition prependInt32 :: "u32 \<Rightarrow> Buffer \<Rightarrow> Buffer option" where
  "prependInt32 x b = prepend (mem32 (hostToNetwork32 x)) 4 b"

definition prependInt16 :: "u16 \<Rightarrow> Buffer \<Rightarrow> Buffer option" where
  "prependInt16 x b = prepend (mem16 (hostToNetwork16 x)) 2 b"

definition prependInt8 :: "u8 \<Rightarrow> Buffer \<Rightarrow> Buffer option" where
  "prependInt8 x b = prepend [char_of (unat x)] 1 b"

definition shrink :: "nat \<Rightarrow> Buffer \<Rightarrow> Buffer option" where
  "shrink reserve b = do {
     other \<leftarrow> ensureWritableBytes (readableBytes b + reserve) (new_Buffer kInitialSize);
     other' \<leftarrow> append_piece (toStringPiece b) other;
     Some (fst (swap_Buffer b other'))
   }"

text \<open>
  \<^verbatim>\<open>readFd\<close>. The result of \<^verbatim>\<open>readv\<close> is a parameter: \<open>Inl e\<close> a failure with that
  \<^verbatim>\<open>errno\<close>, \<open>Inr data\<close> the bytes the kernel delivered, in order, into the two areas
  of the vector. \<open>iov_capacity\<close> is the room the vector offers, which bounds \<open>data\<close>.
  The result is what \<^verbatim>\<open>readFd\<close> returns, the saved \<^verbatim>\<open>errno\<close> if it was written, and the
  buffer.
\<close>

definition extrabuf_size :: nat where
  "extrabuf_size = 65536"

definition iov_capacity :: "Buffer \<Rightarrow> nat" where
  "iov_capacity b =
     (let writable = writableBytes b
      in if writable < extrabuf_size then writable + extrabuf_size else writable)"

definition readFd :: "int + bytes \<Rightarrow> Buffer \<Rightarrow> (int \<times> int option \<times> Buffer) option" where
  "readFd readv_result b =
     (let writable = writableBytes b in
      case readv_result of
        Inl e \<Rightarrow> Some (-1, Some e, b)
      | Inr data \<Rightarrow>
          let n = length data;
              b' = b\<lparr>buffer := overwrite (writerIndex b) (take writable data) (buffer b)\<rparr>
          in if n \<le> writable
             then Some (int n, None, b'\<lparr>writerIndex := writerIndex b' + n\<rparr>)
             else do {
               b'' \<leftarrow> append (drop writable data) (n - writable)
                       (b'\<lparr>writerIndex := length (buffer b')\<rparr>);
               Some (int n, None, b'')
             })"

section \<open>Abstraction and invariant\<close>

definition content :: "Buffer \<Rightarrow> bytes" where
  "content b = take (readableBytes b) (peek b)"

definition Buffer_inv :: "Buffer \<Rightarrow> bool" where
  "Buffer_inv b \<longleftrightarrow>
     readerIndex b \<le> writerIndex b \<and> writerIndex b \<le> length (buffer b) \<and>
     kCheapPrepend \<le> length (buffer b)"

lemmas sizes_defs = readableBytes_def writableBytes_def prependableBytes_def

lemma length_content [simp]: "Buffer_inv b \<Longrightarrow> length (content b) = readableBytes b"
  by (auto simp: content_def Buffer_inv_def readableBytes_def peek_def)

lemma content_eq: "content b = take (writerIndex b - readerIndex b) (drop (readerIndex b) (buffer b))"
  by (simp add: content_def peek_def readableBytes_def)

lemma take_peek: "n \<le> readableBytes b \<Longrightarrow> take n (peek b) = take n (content b)"
  by (simp add: content_def min_def)

lemma new_Buffer_inv [inv_intros]: "Buffer_inv (new_Buffer n)"
  by (simp add: Buffer_inv_def new_Buffer_def)

lemma content_new_Buffer [content_simps, simp]: "content (new_Buffer n) = []"
  by (simp add: content_def readableBytes_def new_Buffer_def)

lemma retrieveAll_inv [inv_intros]: "Buffer_inv b \<Longrightarrow> Buffer_inv (retrieveAll b)"
  by (simp add: Buffer_inv_def retrieveAll_def)

lemma content_retrieveAll [content_simps, simp]: "content (retrieveAll b) = []"
  by (simp add: content_def readableBytes_def retrieveAll_def)

section \<open>Consuming bytes\<close>

lemma retrieve_eq_None: "retrieve len b = None \<longleftrightarrow> readableBytes b < len"
  by (auto simp: retrieve_def assert_opt_def)

lemma retrieve_readable: "retrieve len b = Some b' \<Longrightarrow> readableBytes b' = readableBytes b - len"
  by (auto simp: retrieve_def retrieveAll_def readableBytes_def opt_iff split: if_splits)

lemma retrieve_inv [inv_intros]: "retrieve len b = Some b' \<Longrightarrow> Buffer_inv b \<Longrightarrow> Buffer_inv b'"
  by (auto simp: retrieve_def retrieveAll_def Buffer_inv_def readableBytes_def opt_iff split: if_splits)

lemma content_retrieve [content_simps]:
  assumes "retrieve len b = Some b'" and "Buffer_inv b"
  shows "content b' = drop len (content b)"
proof (cases "len < readableBytes b")
  case True
  with assms have "b' = b\<lparr>readerIndex := readerIndex b + len\<rparr>"
    by (simp add: retrieve_def opt_iff)
  then show ?thesis
    by (simp add: content_eq drop_take add.commute diff_diff_add)
next
  case False
  with assms have "b' = retrieveAll b" and "len = readableBytes b"
    by (auto simp: retrieve_def opt_iff)
  with assms(2) show ?thesis by simp
qed

lemma retrieve_total:
  assumes "Buffer_inv b" and "len \<le> readableBytes b"
  obtains b' where "retrieve len b = Some b'" "Buffer_inv b'" "content b' = drop len (content b)"
    "readableBytes b' = readableBytes b - len"
proof (cases "retrieve len b")
  case None
  with assms show ?thesis by (simp add: retrieve_eq_None)
next
  case (Some b')
  show ?thesis
    using that [OF Some] retrieve_inv [OF Some] content_retrieve [OF Some]
      retrieve_readable [OF Some] assms(1) by blast
qed

lemma retrieveAsString_total:
  assumes "Buffer_inv b" and "len \<le> readableBytes b"
  obtains b' where "retrieveAsString len b = Some (take len (content b), b')"
    "Buffer_inv b'" "content b' = drop len (content b)" "readableBytes b' = readableBytes b - len"
proof -
  obtain b' where "retrieve len b = Some b'" "Buffer_inv b'" "content b' = drop len (content b)"
    "readableBytes b' = readableBytes b - len"
    using retrieve_total [OF assms] .
  with assms show ?thesis by (intro that) (simp_all add: retrieveAsString_def take_peek)
qed

lemma retrieveAsString_eq_None: "retrieveAsString len b = None \<longleftrightarrow> readableBytes b < len"
  by (auto simp: retrieveAsString_def retrieve_def assert_opt_def)

section \<open>Reading integers\<close>

lemma hd_content: "readableBytes b \<ge> 1 \<Longrightarrow> hd (peek b) = hd (content b)"
  by (simp add: content_def hd_take)

lemma peekInt_content:
  "readableBytes b \<ge> 1 \<Longrightarrow> peekInt8 b = Some (of_char (hd (content b)))"
  "Buffer_inv b \<Longrightarrow> readableBytes b \<ge> 2 \<Longrightarrow> peekInt16 b = Some (of_nat (be_val (take 2 (content b))))"
  "Buffer_inv b \<Longrightarrow> readableBytes b \<ge> 4 \<Longrightarrow> peekInt32 b = Some (of_nat (be_val (take 4 (content b))))"
  "Buffer_inv b \<Longrightarrow> readableBytes b \<ge> 8 \<Longrightarrow> peekInt64 b = Some (of_nat (be_val (take 8 (content b))))"
  by (simp_all add: peekInt8_def peekInt16_def peekInt32_def peekInt64_def take_peek hd_content
      networkToHost_ld)

lemma readInt8_total:
  assumes "Buffer_inv b" and "readableBytes b \<ge> 1"
  obtains b' where "readInt8 b = Some (of_char (hd (content b)), b')"
    "Buffer_inv b'" "content b' = drop 1 (content b)" "readableBytes b' = readableBytes b - 1"
proof -
  obtain b' where "retrieve 1 b = Some b'" "Buffer_inv b'" "content b' = drop 1 (content b)"
    "readableBytes b' = readableBytes b - 1"
    using retrieve_total [OF assms] .
  with assms show ?thesis
    by (intro that) (simp_all add: readInt8_def retrieveInt8_def peekInt_content)
qed

lemma readInt32_total:
  assumes "Buffer_inv b" and "readableBytes b \<ge> 4"
  obtains b' where "readInt32 b = Some (of_nat (be_val (take 4 (content b))), b')"
    "Buffer_inv b'" "content b' = drop 4 (content b)" "readableBytes b' = readableBytes b - 4"
proof -
  obtain b' where "retrieve 4 b = Some b'" "Buffer_inv b'" "content b' = drop 4 (content b)"
    "readableBytes b' = readableBytes b - 4"
    using retrieve_total [OF assms] .
  with assms show ?thesis
    by (intro that) (simp_all add: readInt32_def retrieveInt32_def peekInt_content)
qed

section \<open>Producing bytes\<close>

lemma makeSpace_ok:
  assumes "Buffer_inv b" and "writableBytes b < len"
  obtains b' where "makeSpace len b = Some b'" "Buffer_inv b'" "content b' = content b"
    "len \<le> writableBytes b'"
proof (cases "writableBytes b + prependableBytes b < len + kCheapPrepend")
  case True
  let ?b = "b\<lparr>buffer := resize (writerIndex b + len) (buffer b)\<rparr>"
  have "makeSpace len b = Some ?b" using True by (simp add: makeSpace_def)
  moreover have "Buffer_inv ?b" using assms by (auto simp: Buffer_inv_def writableBytes_def)
  moreover have "content ?b = content b"
    using assms(1) take_resize [of "writerIndex b" "writerIndex b + len" "buffer b"]
    by (simp add: content_eq Buffer_inv_def flip: drop_take)
  moreover have "len \<le> writableBytes ?b" by (simp add: writableBytes_def)
  ultimately show ?thesis by (rule that)
next
  case False
  let ?r = "readableBytes b"
  let ?b = "b\<lparr>buffer := overwrite kCheapPrepend (take ?r (peek b)) (buffer b),
              readerIndex := kCheapPrepend, writerIndex := kCheapPrepend + ?r\<rparr>"
  have lt: "kCheapPrepend < readerIndex b"
    using False assms(2) by (simp add: prependableBytes_def)
  then have fits: "kCheapPrepend + ?r \<le> length (buffer b)"
    using assms(1) by (auto simp: Buffer_inv_def readableBytes_def)
  have len: "length (content b) = ?r" using assms(1) by simp
  have "makeSpace len b = Some ?b"
    using False lt by (simp add: makeSpace_def readableBytes_def Let_def)
  moreover have "Buffer_inv ?b"
    using fits len by (simp add: Buffer_inv_def flip: content_def)
  moreover have "content ?b = content b"
    using take_drop_overwrite [of kCheapPrepend kCheapPrepend "content b" "buffer b"] fits len
    unfolding content_eq [of ?b] by (simp add: content_def)
  moreover have "len \<le> writableBytes ?b"
  proof -
    have "length (buffer ?b) = length (buffer b)"
      using fits len by (simp flip: content_def)
    then show ?thesis
      using False assms(1) readableBytes_def [of b] unfolding writableBytes_def [of ?b]
      by (auto simp: writableBytes_def prependableBytes_def Buffer_inv_def)
  qed
  ultimately show ?thesis by (rule that)
qed

lemma ensureWritableBytes_ok:
  assumes "Buffer_inv b"
  obtains b' where "ensureWritableBytes len b = Some b'" "Buffer_inv b'" "content b' = content b"
    "len \<le> writableBytes b'"
proof (cases "writableBytes b < len")
  case True
  obtain b' where "makeSpace len b = Some b'" "Buffer_inv b'" "content b' = content b"
    "len \<le> writableBytes b'"
    using makeSpace_ok [OF assms True] .
  then show ?thesis using True by (intro that) (simp_all add: ensureWritableBytes_def)
next
  case False
  then show ?thesis
    using assms by (intro that [of b]) (simp_all add: ensureWritableBytes_def not_less)
qed

lemma write_at_end:
  assumes "Buffer_inv b" and "length xs \<le> writableBytes b"
  defines "b' \<equiv> b\<lparr>buffer := overwrite (writerIndex b) xs (buffer b),
                  writerIndex := writerIndex b + length xs\<rparr>"
  shows "Buffer_inv b'" and "content b' = content b @ xs"
proof -
  have fits: "writerIndex b + length xs \<le> length (buffer b)"
    using assms(1,2) by (auto simp: Buffer_inv_def writableBytes_def)
  then show "Buffer_inv b'" using assms(1) by (auto simp: Buffer_inv_def b'_def)
  show "content b' = content b @ xs"
    using take_drop_overwrite [of "readerIndex b" "writerIndex b" xs "buffer b"] fits assms(1)
    by (simp add: content_eq b'_def Buffer_inv_def)
qed

lemma append_total:
  assumes "Buffer_inv b" and "len \<le> length data"
  obtains b' where "append data len b = Some b'" "Buffer_inv b'"
    "content b' = content b @ take len data" "readableBytes b' = readableBytes b + len"
proof -
  obtain c where c: "ensureWritableBytes len b = Some c" "Buffer_inv c" "content c = content b"
    "len \<le> writableBytes c"
    using ensureWritableBytes_ok [OF assms(1)] .
  let ?xs = "take len data"
  let ?c = "c\<lparr>buffer := overwrite (writerIndex c) ?xs (buffer c)\<rparr>"
  let ?d = "?c\<lparr>writerIndex := writerIndex c + len\<rparr>"
  have len: "length ?xs = len" using assms(2) by simp
  have "writerIndex c + len \<le> length (buffer c)"
    using c by (auto simp: Buffer_inv_def writableBytes_def)
  then have "len \<le> writableBytes ?c" using len by (simp add: writableBytes_def)
  then have "append data len b = Some ?d"
    using c assms(2) by (simp add: append_def hasWritten_def)
  moreover have "Buffer_inv ?d" "content ?d = content b @ ?xs"
    using write_at_end [of c ?xs] c len by simp_all
  moreover from this assms(1) have "readableBytes ?d = readableBytes b + len"
    using length_content [of ?d] length_content [of b] len by simp
  ultimately show ?thesis by (rule that)
qed

lemma append_Some:
  assumes "append data len b = Some b'" and "Buffer_inv b"
  shows "Buffer_inv b'" "content b' = content b @ take len data"
    "readableBytes b' = readableBytes b + len" "len \<le> length data"
proof -
  show le: "len \<le> length data" using assms(1) by (simp add: append_def opt_iff)
  obtain c where "append data len b = Some c" "Buffer_inv c"
    "content c = content b @ take len data" "readableBytes c = readableBytes b + len"
    using append_total [OF assms(2) le] .
  with assms(1) show "Buffer_inv b'" "content b' = content b @ take len data"
    "readableBytes b' = readableBytes b + len" by simp_all
qed

text \<open>\<^verbatim>\<open>append\<close> fails only on an out-of-bounds source: its assertions always hold.\<close>

lemma append_eq_None:
  assumes "Buffer_inv b"
  shows "append data len b = None \<longleftrightarrow> length data < len"
proof
  show "append data len b = None \<Longrightarrow> length data < len"
    by (rule ccontr, rule append_total [OF assms, of len data]) auto
qed (simp add: append_def)

lemma prepend_total:
  assumes "Buffer_inv b" and "len \<le> length data" and "len \<le> prependableBytes b"
  obtains b' where "prepend data len b = Some b'" "Buffer_inv b'"
    "content b' = take len data @ content b"
proof -
  let ?i = "readerIndex b - len" and ?xs = "take len data"
  let ?b = "b\<lparr>readerIndex := ?i, buffer := overwrite ?i ?xs (buffer b)\<rparr>"
  have len: "length ?xs = len" using assms(2) by simp
  have le: "len \<le> readerIndex b" "readerIndex b \<le> length (buffer b)"
    "readerIndex b \<le> writerIndex b"
    using assms by (auto simp: prependableBytes_def Buffer_inv_def)
  have "prepend data len b = Some ?b"
    using assms by (simp add: prepend_def)
  moreover have "Buffer_inv ?b" using assms(1) le len by (auto simp: Buffer_inv_def)
  moreover have "content ?b = ?xs @ content b"
  proof -
    have "drop ?i (overwrite ?i ?xs (buffer b)) = ?xs @ drop (readerIndex b) (buffer b)"
      using le len by (simp add: overwrite_def)
    moreover have "writerIndex b - ?i = len + readableBytes b"
      using le by (simp add: readableBytes_def)
    ultimately show ?thesis using len by (simp add: content_eq readableBytes_def)
  qed
  ultimately show ?thesis by (rule that)
qed


section \<open>Receiving, shrinking and searching\<close>

lemma readFd_total:
  assumes "Buffer_inv b"
  obtains b' where "readFd (Inr data) b = Some (int (length data), None, b')" "Buffer_inv b'"
    "content b' = content b @ data"
proof (cases "length data \<le> writableBytes b")
  case True
  let ?b = "b\<lparr>buffer := overwrite (writerIndex b) data (buffer b),
              writerIndex := writerIndex b + length data\<rparr>"
  have "readFd (Inr data) b = Some (int (length data), None, ?b)"
    using True by (simp add: readFd_def Let_def)
  moreover have "Buffer_inv ?b" "content ?b = content b @ data"
    using write_at_end [OF assms True] by simp_all
  ultimately show ?thesis by (rule that)
next
  case False
  let ?w = "writableBytes b"
  let ?xs = "take ?w data"
  let ?b = "b\<lparr>buffer := overwrite (writerIndex b) ?xs (buffer b),
              writerIndex := writerIndex b + length ?xs\<rparr>"
  have len: "length ?xs = ?w" using False by simp
  then have full: "writerIndex b + length ?xs = length (buffer b)"
    using assms by (simp add: Buffer_inv_def writableBytes_def)
  have b: "Buffer_inv ?b" "content ?b = content b @ ?xs"
    using write_at_end [OF assms, of ?xs] len by simp_all
  obtain b' where b': "append (drop ?w data) (length data - ?w) ?b = Some b'" "Buffer_inv b'"
    "content b' = content ?b @ take (length data - ?w) (drop ?w data)"
    using append_total [OF b(1), of "length data - ?w" "drop ?w data"] by auto
  have "readFd (Inr data) b = Some (int (length data), None, b')"
    using False full b'(1) by (simp add: readFd_def Let_def)
  moreover have "content b' = content b @ data" using b b' by simp
  ultimately show ?thesis using b'(2) by (intro that)
qed

lemma readFd_error [simp]: "readFd (Inl e) b = Some (-1, Some e, b)"
  by (simp add: readFd_def)

text \<open>
  \<^verbatim>\<open>shrink\<close> goes through \<^verbatim>\<open>StringPiece\<close>, whose length is an \<^verbatim>\<open>int\<close>, so it keeps the
  content only below 2 GiB.
\<close>

lemma int_cast_roundtrip:
  assumes "n < 2 ^ 31"
  shows "unat (of_int (sint (of_nat n :: u32)) :: u64) = n"
proof -
  have "sint (of_nat n :: u32) = signed_take_bit 31 (int n)"
    by (simp add: signed_of_nat)
  also have "\<dots> = int n"
    using assms by (intro signed_take_bit_int_eq_self) auto
  finally have "(of_int (sint (of_nat n :: u32)) :: u64) = of_nat n" by simp
  then show ?thesis using assms by (simp add: unat_of_nat)
qed

lemma shrink_total:
  assumes "Buffer_inv b" and "readableBytes b < 2 ^ 31"
  obtains b' where "shrink reserve b = Some b'" "Buffer_inv b'" "content b' = content b"
proof -
  obtain c where c: "ensureWritableBytes (readableBytes b + reserve) (new_Buffer kInitialSize) = Some c"
    "Buffer_inv c" "content c = content (new_Buffer kInitialSize)"
    using ensureWritableBytes_ok [OF new_Buffer_inv] .
  have n: "unat (of_int (sp_length (toStringPiece b)) :: u64) = readableBytes b"
    using int_cast_roundtrip [OF assms(2)] by (simp add: toStringPiece_def)
  have "readableBytes b \<le> length (peek b)"
    using assms(1) by (auto simp: Buffer_inv_def readableBytes_def peek_def intro: diff_le_mono)
  from append_total [OF c(2) this] obtain d where d: "append (peek b) (readableBytes b) c = Some d"
    "Buffer_inv d" "content d = content c @ take (readableBytes b) (peek b)" .
  from d(1) n have "append_piece (toStringPiece b) c = Some d"
    by (simp add: append_piece_def toStringPiece_def)
  moreover from d(3) c(3) have "content d = content b" by (simp add: content_def [of b])
  ultimately have "shrink reserve b = Some (fst (swap_Buffer b d))" "content d = content b"
    using c(1) by (simp_all add: shrink_def)
  moreover have "Buffer_inv (fst (swap_Buffer b d))" "content (fst (swap_Buffer b d)) = content d"
    using d(2) by (simp_all add: swap_Buffer_def Buffer_inv_def content_eq)
  ultimately show ?thesis by (intro that [of "fst (swap_Buffer b d)"]) simp_all
qed

lemma length_kCRLF [simp]: "length kCRLF = 2"
  by (simp add: kCRLF_def)

lemma findCRLF_Some:
  assumes "findCRLF b = Some i" and "Buffer_inv b"
  shows "readerIndex b \<le> i" "i + 2 \<le> writerIndex b"
    "take 2 (drop (i - readerIndex b) (content b)) = kCRLF"
proof -
  from assms have *: "find_at kCRLF (content b) (readerIndex b) = Some i"
    by (auto simp: findCRLF_def search_range_def Let_def content_eq split: if_splits option.splits)
  from find_at_Some [OF *] assms(2) show "readerIndex b \<le> i" "i + 2 \<le> writerIndex b"
    "take 2 (drop (i - readerIndex b) (content b)) = kCRLF"
    by (auto simp: readableBytes_def Buffer_inv_def)
qed

lemma findCRLF_None:
  assumes "findCRLF b = None" and "Buffer_inv b" and "j + 2 \<le> readableBytes b"
  shows "take 2 (drop j (content b)) \<noteq> kCRLF"
proof (cases "find_at kCRLF (content b) (readerIndex b)")
  case None
  from find_at_None [OF None, of j] assms show ?thesis by simp
next
  case (Some i)
  from find_at_Some [OF Some] assms(2) have "i < writerIndex b"
    by (auto simp: readableBytes_def Buffer_inv_def)
  with Some assms(1) show ?thesis
    by (simp add: findCRLF_def search_range_def Let_def content_eq)
qed

section \<open>The byte queue interface\<close>

text \<open>
  What a client may rely on: a queue of bytes that is written at one end and consumed at
  the other. \<open>bytes_of\<close> is the abstraction, \<open>put\<close> writes a whole byte string, \<open>get\<close>
  consumes a number of bytes and fails exactly when there are fewer.
\<close>

locale byte_queue =
  fixes bytes_of :: "'q \<Rightarrow> bytes"
    and inv :: "'q \<Rightarrow> bool"
    and put :: "bytes \<Rightarrow> 'q \<Rightarrow> 'q option"
    and get :: "nat \<Rightarrow> 'q \<Rightarrow> 'q option"
  assumes put_ok: "inv q \<Longrightarrow> \<exists>q'. put xs q = Some q' \<and> inv q' \<and> bytes_of q' = bytes_of q @ xs"
    and get_ok: "inv q \<Longrightarrow> n \<le> length (bytes_of q) \<Longrightarrow>
      \<exists>q'. get n q = Some q' \<and> inv q' \<and> bytes_of q' = drop n (bytes_of q)"
    and get_fail: "inv q \<Longrightarrow> length (bytes_of q) < n \<Longrightarrow> get n q = None"
begin

lemma put_SomeD: "put xs q = Some q' \<Longrightarrow> inv q \<Longrightarrow> inv q' \<and> bytes_of q' = bytes_of q @ xs"
  using put_ok [of q xs] by auto

lemma get_SomeD:
  "get n q = Some q' \<Longrightarrow> inv q \<Longrightarrow>
     inv q' \<and> n \<le> length (bytes_of q) \<and> bytes_of q' = drop n (bytes_of q)"
  using get_ok [of q n] get_fail [of q n] by (cases "n \<le> length (bytes_of q)") auto

text \<open>Writing a list of chunks, one after the other.\<close>

primrec put_all :: "bytes list \<Rightarrow> 'q \<Rightarrow> 'q option" where
  "put_all [] q = Some q"
| "put_all (x # xs) q = Option.bind (put x q) (put_all xs)"

lemma put_all_ok:
  "inv q \<Longrightarrow> \<exists>q'. put_all chunks q = Some q' \<and> inv q' \<and> bytes_of q' = bytes_of q @ concat chunks"
proof (induction chunks arbitrary: q)
  case (Cons x xs)
  obtain q1 where q1: "put x q = Some q1" "inv q1" "bytes_of q1 = bytes_of q @ x"
    using put_ok [OF Cons.prems] by blast
  from Cons.IH [OF q1(2)] q1 show ?case by auto
qed simp

text \<open>The bytes come out in the order they went in, however they were split.\<close>

lemma fifo:
  assumes "inv q" and "bytes_of q = []" and "put_all chunks q = Some q'"
    and "n \<le> length (concat chunks)"
  shows "\<exists>q''. get n q' = Some q'' \<and> bytes_of q'' = drop n (concat chunks)"
  using put_all_ok [OF assms(1), of chunks] get_ok [of q' n] assms by auto

lemma get_get:
  "inv q \<Longrightarrow> n + m \<le> length (bytes_of q) \<Longrightarrow>
     \<exists>q1 q2 q3. get n q = Some q1 \<and> get m q1 = Some q2 \<and> get (n + m) q = Some q3
       \<and> bytes_of q2 = bytes_of q3"
proof -
  assume q: "inv q" and le: "n + m \<le> length (bytes_of q)"
  obtain q1 where q1: "get n q = Some q1" "inv q1" "bytes_of q1 = drop n (bytes_of q)"
    using get_ok [OF q, of n] le by auto
  have "m \<le> length (bytes_of q1)" using q1(3) le by simp
  then obtain q2 where q2: "get m q1 = Some q2" "bytes_of q2 = drop m (bytes_of q1)"
    using get_ok [OF q1(2), of m] by auto
  obtain q3 where "get (n + m) q = Some q3" "bytes_of q3 = drop (n + m) (bytes_of q)"
    using get_ok [OF q le] by auto
  with q1 q2 show ?thesis by (auto simp: add.commute)
qed

end

definition put_string :: "bytes \<Rightarrow> Buffer \<Rightarrow> Buffer option" where
  "put_string xs b = append xs (length xs) b"

interpretation buf: byte_queue content Buffer_inv put_string retrieve
proof unfold_locales
  fix b :: Buffer and xs :: bytes and n :: nat
  assume b: "Buffer_inv b"
  show "\<exists>q'. put_string xs b = Some q' \<and> Buffer_inv q' \<and> content q' = content b @ xs"
    using append_total [OF b, of "length xs" xs] by (auto simp: put_string_def)
  show "n \<le> length (content b) \<Longrightarrow>
      \<exists>q'. retrieve n b = Some q' \<and> Buffer_inv q' \<and> content q' = drop n (content b)"
    using retrieve_total [OF b, of n] b by auto
  show "length (content b) < n \<Longrightarrow> retrieve n b = None"
    using b by (simp add: retrieve_eq_None)
qed

end
