(* ===== verification/Mucgi_Codec.thy ===== *)
theory Mucgi_Codec
  imports Fcgi_Wire Muduo_Buffer
begin

unbundle bit_operations_syntax

text \<open>
  The FastCGI codec of the event-driven server: \<^verbatim>\<open>src/mucgi/fastcgi.h\<close> and
  \<^verbatim>\<open>src/mucgi/fastcgi.cpp\<close>. One \<open>FastCgiCodec\<close> belongs to one connection. A failed
  \<^verbatim>\<open>assert\<close> or a read out of bounds is \<open>None\<close>. The lemmas show that neither happens, that
  \<open>parseRequest\<close> implements \<open>Fcgi_Wire.receive\<close> and that what \<open>respond\<close> writes is a
  well-formed record stream that carries the whole output.
\<close>

section \<open>Records and constants\<close>

record RecordHeader =
  h_version :: u8
  h_type :: u8
  h_id :: u16
  h_length :: u16
  h_padding :: u8
  h_unused :: u8

definition kRecordHeader :: nat where
  "kRecordHeader = 8"

definition FCGI_MAX_LENGTH :: nat where
  "FCGI_MAX_LENGTH = 65535"

definition kFcgiBeginRequest :: u8 where "kFcgiBeginRequest = 1"
definition kFcgiEndRequest :: u8 where "kFcgiEndRequest = 3"
definition kFcgiParams :: u8 where "kFcgiParams = 4"
definition kFcgiStdin :: u8 where "kFcgiStdin = 5"
definition kFcgiStdout :: u8 where "kFcgiStdout = 6"
definition kFcgiData :: u8 where "kFcgiData = 8"
definition kFcgiGetValues :: u8 where "kFcgiGetValues = 9"
definition kFcgiResponder :: u16 where "kFcgiResponder = 1"
definition kFcgiKeepConn :: u8 where "kFcgiKeepConn = 1"

lemmas fcgi_constants = kRecordHeader_def FCGI_MAX_LENGTH_def kFcgiBeginRequest_def
  kFcgiEndRequest_def kFcgiParams_def kFcgiStdin_def kFcgiStdout_def kFcgiData_def
  kFcgiGetValues_def kFcgiResponder_def kFcgiKeepConn_def

text \<open>The object representation of a header, and \<^verbatim>\<open>memcpy\<close> into a header.\<close>

definition header_bytes :: "RecordHeader \<Rightarrow> bytes" where
  "header_bytes h =
     [char_of (unat (h_version h)), char_of (unat (h_type h))] @ mem16 (h_id h) @
     mem16 (h_length h) @ [char_of (unat (h_padding h)), char_of (unat (h_unused h))]"

definition header_at :: "bytes \<Rightarrow> RecordHeader option" where
  "header_at p =
     (if 8 \<le> length p then
        Some \<lparr>h_version = of_char (p ! 0), h_type = of_char (p ! 1), h_id = ld16 (take 2 (drop 2 p)),
              h_length = ld16 (take 2 (drop 4 p)), h_padding = of_char (p ! 6),
              h_unused = of_char (p ! 7)\<rparr>
      else None)"

section \<open>The codec\<close>

record FastCgiCodec =
  gotRequest :: bool
  keepConn :: bool
  stdin :: Buffer
  paramsStream :: Buffer
  params :: ParamMap

definition new_FastCgiCodec :: FastCgiCodec where
  "new_FastCgiCodec =
     \<lparr>gotRequest = False, keepConn = False, stdin = new_Buffer kInitialSize,
      paramsStream = new_Buffer kInitialSize, params = Map.empty\<rparr>"

definition readLen :: "FastCgiCodec \<Rightarrow> (u32 \<times> FastCgiCodec) option" where
  "readLen c =
     (if 1 \<le> readableBytes (paramsStream c) then do {
        byte \<leftarrow> peekInt8 (paramsStream c);
        if byte AND 0x80 \<noteq> 0 then
          (if 4 \<le> readableBytes (paramsStream c) then do {
             (x, ps) \<leftarrow> readInt32 (paramsStream c);
             Some (x AND 0x7fffffff, c\<lparr>paramsStream := ps\<rparr>)
           }
           else Some (- 1, c))
        else do {
          (x, ps) \<leftarrow> readInt8 (paramsStream c);
          Some (scast x, c\<lparr>paramsStream := ps\<rparr>)
        }
      }
      else Some (- 1, c))"

lemma readLen_decreases:
  assumes "readLen c = Some (l, c')" "l \<noteq> - 1"
  shows "readableBytes (paramsStream c') < readableBytes (paramsStream c)"
  using assms
  by (auto simp: readLen_def opt_iff readInt32_def readInt8_def retrieveInt32_def retrieveInt8_def
      dest!: retrieve_readable split: if_splits)

lemma retrieveAsString_readable:
  "retrieveAsString n b = Some (s, b') \<Longrightarrow> readableBytes b' = readableBytes b - n"
  by (auto simp: retrieveAsString_def opt_iff Let_def dest!: retrieve_readable)

function parseAllParams :: "FastCgiCodec \<Rightarrow> (bool \<times> FastCgiCodec) option" where
  "parseAllParams c =
     (if 0 < readableBytes (paramsStream c) then do {
        (nameLen, c1) \<leftarrow> readLen c;
        if nameLen = - 1 then Some (False, c1)
        else do {
          (valueLen, c2) \<leftarrow> readLen c1;
          if valueLen = - 1 then Some (False, c2)
          else if unat (nameLen + valueLen) \<le> readableBytes (paramsStream c2) then do {
            (name, ps1) \<leftarrow> retrieveAsString (unat nameLen) (paramsStream c2);
            (value, ps2) \<leftarrow> retrieveAsString (unat valueLen) ps1;
            parseAllParams (c2\<lparr>paramsStream := ps2, params := (params c2)(name \<mapsto> value)\<rparr>)
          }
          else Some (False, c2)
        }
      }
      else Some (True, c))"
  by pat_completeness auto
termination
proof (relation "measure (\<lambda>c. readableBytes (paramsStream c))", goal_cases)
  case (2 c x1 nameLen c1 x2 valueLen c2 x3 n ps1 x4 v ps2)
  then show ?case
    using readLen_decreases [of c nameLen c1] readLen_decreases [of c1 valueLen c2]
      retrieveAsString_readable [of "unat nameLen" "paramsStream c2" n ps1]
      retrieveAsString_readable [of "unat valueLen" ps1 v ps2]
    by simp
qed simp

declare parseAllParams.simps [simp del]

definition onParams :: "bytes \<Rightarrow> u16 \<Rightarrow> FastCgiCodec \<Rightarrow> (bool \<times> FastCgiCodec) option" where
  "onParams cont len c =
     (if 0 < len then do {
        ps \<leftarrow> append cont (unat len) (paramsStream c);
        Some (True, c\<lparr>paramsStream := ps\<rparr>)
      }
      else do {
        (ok, c') \<leftarrow> parseAllParams c;
        if \<not> ok then Some (False, c') else Some (True, c')
      })"

definition onStdin :: "bytes \<Rightarrow> u16 \<Rightarrow> FastCgiCodec \<Rightarrow> FastCgiCodec option" where
  "onStdin cont len c =
     (if 0 < len then do {
        s \<leftarrow> append cont (unat len) (stdin c);
        Some (c\<lparr>stdin := s\<rparr>)
      }
      else Some (c\<lparr>gotRequest := True\<rparr>))"

definition fcgi_readInt16 :: "bytes \<Rightarrow> u16 option" where
  "fcgi_readInt16 p =
     (if 2 \<le> length p then Some (networkToHost16 (ld16 (take 2 p))) else None)"

definition onBeginRequest ::
  "RecordHeader \<Rightarrow> Buffer \<Rightarrow> FastCgiCodec \<Rightarrow> (bool \<times> FastCgiCodec) option" where
  "onBeginRequest header buf c = do {
     assert_opt (unat (h_length header) \<le> readableBytes buf);
     assert_opt (h_type header = kFcgiBeginRequest);
     if kRecordHeader \<le> unat (h_length header) then do {
       role \<leftarrow> fcgi_readInt16 (drop kRecordHeader (peek buf));
       flags \<leftarrow> mem_at (peek buf) (kRecordHeader + 2);
       if role = kFcgiResponder
       then Some (True, c\<lparr>keepConn := ((of_char flags :: u8) = kFcgiKeepConn)\<rparr>)
       else Some (False, c)
     }
     else Some (False, c)
   }"

text \<open>The \<^verbatim>\<open>switch\<close> on the record type; the results of the handlers are not used.\<close>

definition dispatch :: "RecordHeader \<Rightarrow> Buffer \<Rightarrow> FastCgiCodec \<Rightarrow> FastCgiCodec option" where
  "dispatch header buf c =
     (if h_type header = kFcgiBeginRequest then map_option snd (onBeginRequest header buf c)
      else if h_type header = kFcgiParams
      then map_option snd (onParams (drop kRecordHeader (peek buf)) (h_length header) c)
      else if h_type header = kFcgiStdin
      then onStdin (drop kRecordHeader (peek buf)) (h_length header) c
      else if h_type header = kFcgiData then Some c
      else if h_type header = kFcgiGetValues then Some c
      else Some c)"

function parseRequest :: "Buffer \<Rightarrow> FastCgiCodec \<Rightarrow> (bool \<times> Buffer \<times> FastCgiCodec) option" where
  "parseRequest buf c =
     (if kRecordHeader \<le> readableBytes buf then do {
        raw \<leftarrow> header_at (peek buf);
        let header = raw\<lparr>h_id := networkToHost16 (h_id raw), h_length := networkToHost16 (h_length raw)\<rparr>;
        let total = kRecordHeader + unat (h_length header) + unat (h_padding header);
        if total \<le> readableBytes buf then do {
          c' \<leftarrow> dispatch header buf c;
          buf' \<leftarrow> retrieve total buf;
          parseRequest buf' c'
        }
        else Some (True, buf, c)
      }
      else Some (True, buf, c))"
  by pat_completeness auto
termination
  by (relation "measure (\<lambda>(buf, c). readableBytes buf)")
    (auto dest!: retrieve_readable simp: kRecordHeader_def)

declare parseRequest.simps [simp del]

section \<open>Output\<close>

definition endStdout :: "Buffer \<Rightarrow> Buffer option" where
  "endStdout buf =
     append (header_bytes \<lparr>h_version = 1, h_type = kFcgiStdout, h_id = hostToNetwork16 1,
                           h_length = 0, h_padding = 0, h_unused = 0\<rparr>) kRecordHeader buf"

definition endRequest :: "Buffer \<Rightarrow> Buffer option" where
  "endRequest buf = do {
     b1 \<leftarrow> append (header_bytes \<lparr>h_version = 1, h_type = kFcgiEndRequest, h_id = hostToNetwork16 1,
                                h_length = hostToNetwork16 (of_nat kRecordHeader), h_padding = 0,
                                h_unused = 0\<rparr>) kRecordHeader buf;
     b2 \<leftarrow> appendInt32 0 b1;
     appendInt32 0 b2
   }"

definition empty_result :: bytes where
  "empty_result =
     (let cont = ''Empty Result!'' in
      ''Content-Type: text/html; charset=UTF-8'' @ [CR, LF] @
      ''Content-Length: '' @ dec_digits (length cont) @ [CR, LF, CR, LF] @ cont)"

text \<open>\<^verbatim>\<open>StringPiece(const string&)\<close>: the length is cut to an \<^verbatim>\<open>int\<close>.\<close>

definition piece_of :: "bytes \<Rightarrow> StringPiece" where
  "piece_of s = \<lparr>sp_ptr = s, sp_length = sint (of_nat (length s) :: u32)\<rparr>"

text \<open>One \<^verbatim>\<open>FCGI_STDOUT\<close> record: the header, the text and the padding.\<close>

definition stdout_header :: "u16 \<Rightarrow> u8 \<Rightarrow> RecordHeader" where
  "stdout_header len pad =
     \<lparr>h_version = 1, h_type = kFcgiStdout, h_id = hostToNetwork16 1,
      h_length = hostToNetwork16 len, h_padding = pad, h_unused = 0\<rparr>"

definition put_stdout :: "RecordHeader \<Rightarrow> bytes \<Rightarrow> Buffer \<Rightarrow> Buffer option" where
  "put_stdout header s response = do {
     r1 \<leftarrow> append (header_bytes header) kRecordHeader response;
     r2 \<leftarrow> append_piece (piece_of s) r1;
     append (replicate 9 NUL) (unat (h_padding header)) r2
   }"

text \<open>The unsigned negation \<^verbatim>\<open>-len & 7\<close> of a \<^verbatim>\<open>size_t\<close>, cut to a byte.\<close>

definition pad_of :: "nat \<Rightarrow> u8" where
  "pad_of n = ucast ((- (of_nat n :: u64)) AND 7)"

function respond_loop :: "nat \<Rightarrow> nat \<Rightarrow> bytes \<Rightarrow> Buffer \<Rightarrow> Buffer option" where
  "respond_loop i n out response =
     (if i < n then do {
        outSubString \<leftarrow> substr out (i * FCGI_MAX_LENGTH) FCGI_MAX_LENGTH;
        response' \<leftarrow> put_stdout
          (stdout_header (of_nat FCGI_MAX_LENGTH) (ucast ((- (of_nat FCGI_MAX_LENGTH :: u32)) AND 7)))
          outSubString response;
        respond_loop (Suc i) n out response'
      }
      else Some response)"
  by pat_completeness auto
termination
  by (relation "measure (\<lambda>(i, n, out, response). n - i)") auto

declare respond_loop.simps [simp del]

text \<open>The output records: one for a short text, the loop and a last record for a long one.\<close>

definition respond_records :: "bytes \<Rightarrow> Buffer \<Rightarrow> Buffer option" where
  "respond_records out response =
     (if length out \<le> FCGI_MAX_LENGTH
      then put_stdout (stdout_header (of_nat (length out)) (pad_of (length out))) out response
      else do {
        let numSubstrings = length out div FCGI_MAX_LENGTH;
        r \<leftarrow> respond_loop 0 numSubstrings out response;
        if length out mod FCGI_MAX_LENGTH \<noteq> 0 then do {
          outSubString \<leftarrow> substr out (FCGI_MAX_LENGTH * numSubstrings) npos;
          put_stdout (stdout_header (of_nat (length outSubString)) (pad_of (length outSubString)))
            outSubString r
        }
        else Some r
      })"

text \<open>The result is the output string, which the function may have replaced, and the response.\<close>

definition respond :: "bytes \<Rightarrow> Buffer \<Rightarrow> (bytes \<times> Buffer) option" where
  "respond out0 response = do {
     let out = (if out0 = [] then empty_result else out0);
     r1 \<leftarrow> respond_records out response;
     r2 \<leftarrow> endStdout r1;
     r3 \<leftarrow> endRequest r2;
     Some (out, r3)
   }"

section \<open>Messages\<close>

text \<open>
  \<^verbatim>\<open>onMessage\<close>. The callback is a parameter; it may read the parameters and consume the
  input, and what it does is returned as a list of effects, to which a shutdown is added
  when the connection is not kept.
\<close>

datatype 'e conn_effect = Cb 'e | Shutdown

definition onMessage ::
  "(ParamMap \<Rightarrow> Buffer \<Rightarrow> ('e list \<times> Buffer) option) \<Rightarrow> Buffer \<Rightarrow> FastCgiCodec
   \<Rightarrow> ('e conn_effect list \<times> Buffer \<times> FastCgiCodec) option" where
  "onMessage cb buf c = do {
     (_, buf', c1) \<leftarrow> parseRequest buf c;
     if gotRequest c1 then do {
       (es, stdin') \<leftarrow> cb (params c1) (stdin c1);
       let c2 = c1\<lparr>stdin := retrieveAll stdin', paramsStream := retrieveAll (paramsStream c1),
                   params := Map.empty, gotRequest := False\<rparr>;
       Some (map Cb es @ (if \<not> keepConn c2 then [Shutdown] else []), buf', c2)
     }
     else Some ([], buf', c1)
   }"

section \<open>Lengths and parameters\<close>

lemma byte_bit7: "(of_char b :: u8) AND 0x80 \<noteq> 0 \<longleftrightarrow> 128 \<le> ord b"
proof -
  have "((of_nat n :: u8) AND 0x80 \<noteq> 0) = (128 \<le> n)" if "n < 256" for n
  proof -
    have "((of_nat n :: u8) AND 0x80 \<noteq> 0) = bit (of_nat n :: u8) 7"
      using and_exp_eq_0_iff_not_bit [of "of_nat n :: u8" 7] by simp
    also have "\<dots> = odd (n div 128)"
      using bit_iff_odd [of n 7] by (simp add: bit_of_nat_iff)
    also have "\<dots> = (128 \<le> n)"
    proof (cases "128 \<le> n")
      case True
      with that have "n div 128 = 1" by (intro div_nat_eqI) simp_all
      with True show ?thesis by simp
    qed simp
    finally show ?thesis .
  qed
  from this [of "ord b"] show ?thesis by (simp add: of_nat_of_char)
qed

lemma scast_small_byte:
  assumes "ord b < 128"
  shows "(scast (of_char b :: u8) :: u32) = of_nat (ord b)"
proof -
  have "(scast (of_nat n :: u8) :: u32) = of_nat n" if "n < 128" for n
  proof -
    have "sint (of_nat n :: u8) = int n"
      using that by (simp add: signed_of_nat signed_take_bit_int_eq_self)
    then show ?thesis by (metis of_int_sint of_int_of_nat_eq)
  qed
  from this [OF assms] show ?thesis by (simp add: of_nat_of_char)
qed

lemma mask31: "(of_nat n :: u32) AND 0x7fffffff = of_nat (n mod 2 ^ 31)"
proof -
  have "(0x7fffffff :: u32) = mask 31" by (simp add: mask_eq_exp_minus_1)
  then have "(of_nat n :: u32) AND 0x7fffffff = take_bit 31 (of_nat n)"
    by (simp only: take_bit_eq_mask)
  also have "\<dots> = of_nat (take_bit 31 n)"
    by (simp add: take_bit_of_nat)
  finally show ?thesis by (simp only: take_bit_eq_mod)
qed

text \<open>\<^verbatim>\<open>readLen\<close> implements \<open>take_len\<close>; its failure value is \<^verbatim>\<open>(uint32_t)-1\<close>.\<close>

lemma readLen_fail:
  assumes "Buffer_inv (paramsStream c)" "take_len (content (paramsStream c)) = None"
  shows "readLen c = Some (- 1, c)"
proof (cases "content (paramsStream c)")
  case Nil
  with assms(1) have "readableBytes (paramsStream c) = 0" using length_content by fastforce
  then show ?thesis by (simp add: readLen_def)
next
  case (Cons b bs)
  with assms(1) have r: "readableBytes (paramsStream c) = Suc (length bs)"
    using length_content by fastforce
  with Cons assms(2) have "\<not> ord b < 128" "Suc (length bs) < 4"
    by (auto simp: take_len_def split: if_splits)
  with r Cons show ?thesis
    using byte_bit7 [of b] by (simp add: readLen_def peekInt_content)
qed

lemma readLen_ok:
  assumes "Buffer_inv (paramsStream c)" "take_len (content (paramsStream c)) = Some (n, r)"
  obtains ps where "readLen c = Some (of_nat n, c\<lparr>paramsStream := ps\<rparr>)" "Buffer_inv ps"
    "content ps = r"
proof -
  let ?b = "paramsStream c"
  from assms(2) obtain b bs where e: "content ?b = b # bs"
    by (auto simp: take_len_def split: list.splits)
  with assms(1) have rb: "readableBytes ?b = Suc (length bs)" using length_content by fastforce
  have pk: "peekInt8 ?b = Some (of_char b)" using peekInt_content(1) [of ?b] e rb by simp
  show ?thesis
  proof (cases "ord b < 128")
    case True
    with assms(2) e have nr: "n = ord b" "r = bs" by (simp_all add: take_len_def)
    obtain ps where ps: "readInt8 ?b = Some (of_char b, ps)" "Buffer_inv ps" "content ps = bs"
      using readInt8_total [OF assms(1)] rb e by auto
    have "readLen c = Some (of_nat n, c\<lparr>paramsStream := ps\<rparr>)"
      using True rb pk ps(1) byte_bit7 [of b] scast_small_byte [OF True] nr
      by (simp add: readLen_def)
    with ps nr show ?thesis by (intro that) simp_all
  next
    case False
    with assms(2) e have nr: "4 \<le> Suc (length bs)" "n = be_val (take 4 (content ?b)) mod 2 ^ 31"
        "r = drop 4 (content ?b)"
      by (auto simp: take_len_def split: if_splits)
    obtain ps where ps: "readInt32 ?b = Some (of_nat (be_val (take 4 (content ?b))), ps)"
        "Buffer_inv ps" "content ps = drop 4 (content ?b)"
      using readInt32_total [OF assms(1)] rb nr(1) by auto
    have "readLen c = Some (of_nat n, c\<lparr>paramsStream := ps\<rparr>)"
      using False rb pk nr(1) ps(1) byte_bit7 [of b] mask31 nr(2) by (simp add: readLen_def)
    with ps nr show ?thesis by (intro that) simp_all
  qed
qed

text \<open>Both lengths are below \<open>2 ^ 31\<close>: the failure value is not a length, and the sum fits.\<close>

lemma len_not_fail: "n < 2 ^ 31 \<Longrightarrow> (of_nat n :: u32) \<noteq> - 1"
proof
  assume "n < 2 ^ 31" "(of_nat n :: u32) = - 1"
  then have "unat (of_nat n :: u32) = unat (- 1 :: u32)" by simp
  with \<open>n < 2 ^ 31\<close> show False by (simp add: unat_of_nat unsigned_minus_1_eq_mask mask_eq_exp_minus_1)
qed

lemma unat_len_sum:
  assumes "n < 2 ^ 31" "m < 2 ^ 31"
  shows "unat (of_nat n + of_nat m :: u32) = n + m" "unat (of_nat n :: u32) = n"
  using assms by (simp_all add: unat_of_nat flip: of_nat_add)

lemma stream_nonempty:
  "Buffer_inv b \<Longrightarrow> 0 < readableBytes b \<longleftrightarrow> content b \<noteq> []"
  by (metis length_content length_greater_0_conv)

text \<open>One round of the loop whose two lengths are readable.\<close>

lemma parseAllParams_lens:
  assumes inv: "Buffer_inv (paramsStream c)" and l1: "take_len (content (paramsStream c)) = Some (nl, bs1)"
    and l2: "take_len bs1 = Some (vl, bs2)"
  obtains p2 where "Buffer_inv p2" "content p2 = bs2"
    "parseAllParams c =
      (if nl + vl \<le> length bs2 then do {
         (name, ps1) \<leftarrow> retrieveAsString nl p2;
         (value, ps2) \<leftarrow> retrieveAsString vl ps1;
         parseAllParams (c\<lparr>paramsStream := ps2, params := (params c)(name \<mapsto> value)\<rparr>)
       }
       else Some (False, c\<lparr>paramsStream := p2\<rparr>))"
proof -
  obtain p1 where p1: "readLen c = Some (of_nat nl, c\<lparr>paramsStream := p1\<rparr>)" "Buffer_inv p1" "content p1 = bs1"
    using readLen_ok [OF inv l1] .
  obtain p2 where p2: "readLen (c\<lparr>paramsStream := p1\<rparr>) = Some (of_nat vl, c\<lparr>paramsStream := p2\<rparr>)"
      "Buffer_inv p2" "content p2 = bs2"
    using readLen_ok [of "c\<lparr>paramsStream := p1\<rparr>" vl bs2] p1 l2 by auto
  have bnd: "nl < 2 ^ 31" "vl < 2 ^ 31" using take_len_bound l1 l2 by auto
  have un: "unat (of_nat nl + of_nat vl :: u32) = nl + vl" "unat (of_nat nl :: u32) = nl"
    "unat (of_nat vl :: u32) = vl"
    using unat_len_sum [OF bnd] unat_len_sum(2) [OF bnd(2) bnd(2)] by simp_all
  have "content (paramsStream c) \<noteq> []" using l1 by (auto simp: take_len_def)
  moreover have "readableBytes p2 = length bs2" using p2(2,3) length_content by fastforce
  ultimately show ?thesis
    using p2(2,3) p1(1) p2(1) un stream_nonempty [OF inv]
    by (intro that [of p2])
      (simp_all add: parseAllParams.simps [of c] len_not_fail [OF bnd(1)] len_not_fail [OF bnd(2)])
qed

lemma parseAllParams_pair:
  assumes "Buffer_inv (paramsStream c)" "take_len (content (paramsStream c)) = Some (nl, bs1)"
    "take_len bs1 = Some (vl, bs2)" "nl + vl \<le> length bs2"
  obtains ps where "Buffer_inv ps" "content ps = drop (nl + vl) bs2"
    "parseAllParams c = parseAllParams
       (c\<lparr>paramsStream := ps, params := (params c)(take nl bs2 \<mapsto> take vl (drop nl bs2))\<rparr>)"
proof -
  obtain p2 where p2: "Buffer_inv p2" "content p2 = bs2"
    "parseAllParams c = do {
         (name, ps1) \<leftarrow> retrieveAsString nl p2;
         (value, ps2) \<leftarrow> retrieveAsString vl ps1;
         parseAllParams (c\<lparr>paramsStream := ps2, params := (params c)(name \<mapsto> value)\<rparr>)
       }"
    using parseAllParams_lens [OF assms(1-3)] assms(4) by auto
  have le2: "nl \<le> readableBytes p2" using length_content [OF p2(1)] p2(2) assms(4) by simp
  obtain p3 where p3: "retrieveAsString nl p2 = Some (take nl bs2, p3)" "Buffer_inv p3"
      "content p3 = drop nl bs2"
    using retrieveAsString_total [OF p2(1) le2] p2(2) by auto
  have le3: "vl \<le> readableBytes p3" using length_content [OF p3(2)] p3(3) assms(4) by simp
  obtain p4 where p4: "retrieveAsString vl p3 = Some (take vl (drop nl bs2), p4)" "Buffer_inv p4"
      "content p4 = drop vl (drop nl bs2)"
    using retrieveAsString_total [OF p3(2) le3] p3(3) by auto
  show ?thesis
    using p2(3) p3(1) p4 by (intro that [of p4]) (simp_all add: add.commute)
qed

lemma parseAllParams_refines:
  assumes "Buffer_inv (paramsStream c)"
    "parse_pairs (content (paramsStream c)) (params c) = (rest, m, ok)"
  shows "\<exists>ps. parseAllParams c = Some (ok, c\<lparr>paramsStream := ps, params := m\<rparr>) \<and>
      Buffer_inv ps \<and> content ps = rest"
  using assms
proof (induction "content (paramsStream c)" "params c" arbitrary: c rule: parse_pairs.induct)
  case 1
  let ?bs = "content (paramsStream c)"
  note inv = "1.prems"(1) and pp = "1.prems"(2) [unfolded parse_pairs.simps [of ?bs]]
    and pos = stream_nonempty [OF "1.prems"(1)]
  consider (nil) "?bs = []" | (l1) "?bs \<noteq> []" "take_len ?bs = None"
    | (l2) nl bs1 where "?bs \<noteq> []" "take_len ?bs = Some (nl, bs1)" "take_len bs1 = None"
    | (ok) nl bs1 vl bs2 where "?bs \<noteq> []" "take_len ?bs = Some (nl, bs1)" "take_len bs1 = Some (vl, bs2)"
    by (metis not_None_eq surj_pair)
  then show ?case
  proof cases
    case l2
    obtain p1 where p1: "readLen c = Some (of_nat nl, c\<lparr>paramsStream := p1\<rparr>)" "Buffer_inv p1" "content p1 = bs1"
      using readLen_ok [OF inv l2(2)] .
    have "readLen (c\<lparr>paramsStream := p1\<rparr>) = Some (- 1, c\<lparr>paramsStream := p1\<rparr>)"
      using readLen_fail [of "c\<lparr>paramsStream := p1\<rparr>"] p1 l2(3) by simp
    with l2 pp pos p1 len_not_fail [OF take_len_bound [OF l2(2)]] show ?thesis
      by (intro exI [of _ p1]) (auto simp: parseAllParams.simps [of c])
  next
    case ok
    show ?thesis
    proof (cases "nl + vl \<le> length bs2")
      case True
      obtain ps where ps: "Buffer_inv ps" "content ps = drop (nl + vl) bs2"
        "parseAllParams c = parseAllParams
           (c\<lparr>paramsStream := ps, params := (params c)(take nl bs2 \<mapsto> take vl (drop nl bs2))\<rparr>)"
        (is "_ = parseAllParams ?c")
        using parseAllParams_pair [OF inv ok(2,3) True] .
      then show ?thesis
        using "1.hyps" [OF ok(1,2) refl ok(3) refl True, of ?c] pp ok True by simp
    next
      case False
      obtain p2 where "Buffer_inv p2" "content p2 = bs2"
          "parseAllParams c = Some (False, c\<lparr>paramsStream := p2\<rparr>)"
        using parseAllParams_lens [OF inv ok(2,3)] False by auto
      with pp ok False show ?thesis by auto
    qed
  qed (use pp pos inv in \<open>auto intro!: exI [of _ "paramsStream c"]
        simp: parseAllParams.simps [of c] readLen_fail\<close>)
qed

section \<open>Records\<close>

text \<open>The abstraction of a codec, and its invariant.\<close>

definition conn_of :: "FastCgiCodec \<Rightarrow> connection" where
  "conn_of c = \<lparr>got = gotRequest c, keep = keepConn c, input = content (stdin c),
                pstream = content (paramsStream c), pmap = params c\<rparr>"

definition codec_inv :: "FastCgiCodec \<Rightarrow> bool" where
  "codec_inv c \<longleftrightarrow> Buffer_inv (stdin c) \<and> Buffer_inv (paramsStream c)"

lemma new_codec [simp]: "codec_inv new_FastCgiCodec" "conn_of new_FastCgiCodec = connection_init"
  by (simp_all add: codec_inv_def new_FastCgiCodec_def conn_of_def connection_init_def inv_intros)

lemma take_drop_peek:
  assumes "k + n \<le> readableBytes buf"
  shows "take n (drop k (peek buf)) = take n (drop k (content buf))"
  using assms by (simp add: content_def drop_take min_def)

lemma nth_peek: "i < readableBytes buf \<Longrightarrow> peek buf ! i = content buf ! i"
  by (simp add: content_def)

lemma readable_le_peek: "Buffer_inv b \<Longrightarrow> readableBytes b \<le> length (peek b)"
  by (auto simp: Buffer_inv_def readableBytes_def peek_def)

lemma be_val_2_bound: "be_val (take 2 bs) < 65536"
  using be_val_bound [of "take 2 bs"] power_increasing [of "length (take 2 bs)" 2 "256 :: nat"] by simp

text \<open>The header the loop works with, once its multi-byte fields are in host order.\<close>

definition host_header :: "bytes \<Rightarrow> RecordHeader" where
  "host_header bs =
     \<lparr>h_version = of_char (bs ! 0), h_type = of_char (bs ! 1),
      h_id = of_nat (be_val (take 2 (drop 2 bs))), h_length = of_nat (rec_length bs),
      h_padding = of_char (bs ! 6), h_unused = of_char (bs ! 7)\<rparr>"

lemma header_at_peek:
  assumes "Buffer_inv buf" "8 \<le> readableBytes buf"
  obtains raw where "header_at (peek buf) = Some raw"
    "raw\<lparr>h_id := networkToHost16 (h_id raw), h_length := networkToHost16 (h_length raw)\<rparr>
     = host_header (content buf)"
proof -
  have "8 \<le> length (peek buf)" using readable_le_peek [OF assms(1)] assms(2) by simp
  then obtain raw where raw: "header_at (peek buf) = Some raw" by (simp add: header_at_def)
  moreover from raw have "raw\<lparr>h_id := networkToHost16 (h_id raw), h_length := networkToHost16 (h_length raw)\<rparr>
      = host_header (content buf)"
    using assms by (auto simp: header_at_def host_header_def rec_length_def networkToHost_ld
        take_drop_peek nth_peek split: if_splits)
  ultimately show ?thesis by (rule that)
qed

lemma host_header_unat [simp]:
  "unat (h_type (host_header bs)) = rec_type bs"
  "unat (h_length (host_header bs)) = rec_length bs"
  "unat (h_padding (host_header bs)) = rec_padding bs"
  using be_val_2_bound [of "drop 4 bs"]
  by (simp_all add: host_header_def rec_type_def rec_length_def rec_padding_def unat_of_nat)

lemma u8_eq_iff: "(w :: u8) = v \<longleftrightarrow> unat w = unat v"
  by (simp add: word_eq_iff_unsigned)

lemma u16_eq_iff: "(w :: u16) = v \<longleftrightarrow> unat w = unat v"
  by (simp add: word_eq_iff_unsigned)

text \<open>The handlers on a complete record do what \<open>handle\<close> says.\<close>

lemma onBeginRequest_refines:
  assumes "Buffer_inv buf" "rec_total (content buf) \<le> readableBytes buf"
    and "rec_type (content buf) = 1"
  shows "\<exists>ok c'. onBeginRequest (host_header (content buf)) buf c = Some (ok, c') \<and>
      (codec_inv c \<longrightarrow> codec_inv c') \<and>
      conn_of c' = handle_begin (take (rec_length (content buf)) (drop 8 (content buf))) (conn_of c)"
proof -
  let ?bs = "content buf"
  have ty: "h_type (host_header ?bs) = kFcgiBeginRequest"
    using assms(3) by (simp add: u8_eq_iff kFcgiBeginRequest_def)
  have le: "rec_length ?bs + 8 \<le> readableBytes buf" using assms(2) by (simp add: rec_total_def)
  show ?thesis
  proof (cases "8 \<le> rec_length ?bs")
    case True
    with le have "fcgi_readInt16 (drop kRecordHeader (peek buf)) = Some (of_nat (be_val (take 2 (drop 8 ?bs))))"
      "mem_at (peek buf) 10 = Some (?bs ! 10)"
      using readable_le_peek [OF assms(1)]
      by (simp_all add: fcgi_readInt16_def kRecordHeader_def take_drop_peek networkToHost_ld nth_peek
          length_content [OF assms(1)])
    with True ty le show ?thesis
      using be_val_2_bound [of "drop 8 ?bs"]
      by (auto simp: onBeginRequest_def kRecordHeader_def handle_begin_def conn_of_def codec_inv_def
          u16_eq_iff u8_eq_iff kFcgiResponder_def kFcgiKeepConn_def unat_of_nat
          length_content [OF assms(1)] min_def)
  next
    case False
    with ty le show ?thesis
      by (auto simp: onBeginRequest_def kRecordHeader_def handle_begin_def)
  qed
qed

lemma onParams_refines:
  assumes "codec_inv c" "unat len \<le> length cont"
  shows "\<exists>ok c'. onParams cont len c = Some (ok, c') \<and> codec_inv c' \<and>
      conn_of c' = handle_params (take (unat len) cont) (conn_of c)"
proof (cases "len = 0")
  case True
  obtain rest m ok where p: "parse_pairs (content (paramsStream c)) (params c) = (rest, m, ok)"
    by (metis prod_cases3)
  have "Buffer_inv (paramsStream c)" using assms(1) by (simp add: codec_inv_def)
  from parseAllParams_refines [OF this p] True p assms(1) show ?thesis
    by (cases ok) (auto simp: onParams_def handle_params_def conn_of_def codec_inv_def)
next
  case False
  then have "0 < len" "take (unat len) cont \<noteq> []"
    using assms(2) by (auto simp: word_less_nat_alt u16_eq_iff)
  moreover obtain ps where "append cont (unat len) (paramsStream c) = Some ps" "Buffer_inv ps"
      "content ps = content (paramsStream c) @ take (unat len) cont"
    using append_total [of "paramsStream c" "unat len" cont] assms by (auto simp: codec_inv_def)
  ultimately show ?thesis
    using assms(1) by (auto simp: onParams_def handle_params_def conn_of_def codec_inv_def)
qed

lemma onStdin_refines:
  assumes "codec_inv c" "unat len \<le> length cont"
  shows "\<exists>c'. onStdin cont len c = Some c' \<and> codec_inv c' \<and>
      conn_of c' = handle_stdin (take (unat len) cont) (conn_of c)"
proof (cases "len = 0")
  case True
  with assms(1) show ?thesis
    by (auto simp: onStdin_def handle_stdin_def conn_of_def codec_inv_def)
next
  case False
  then have "0 < len" "take (unat len) cont \<noteq> []"
    using assms(2) by (auto simp: word_less_nat_alt u16_eq_iff)
  moreover obtain s where "append cont (unat len) (stdin c) = Some s" "Buffer_inv s"
      "content s = content (stdin c) @ take (unat len) cont"
    using append_total [of "stdin c" "unat len" cont] assms by (auto simp: codec_inv_def)
  ultimately show ?thesis
    using assms(1) by (auto simp: onStdin_def handle_stdin_def conn_of_def codec_inv_def)
qed

lemma dispatch_refines:
  assumes "codec_inv c" "Buffer_inv buf" "rec_total (content buf) \<le> readableBytes buf"
  shows "\<exists>c'. dispatch (host_header (content buf)) buf c = Some c' \<and> codec_inv c' \<and>
      conn_of c' = handle (Frame (rec_type (content buf))
                     (take (rec_length (content buf)) (drop 8 (content buf)))) (conn_of c)"
proof -
  let ?bs = "content buf" and ?h = "host_header (content buf)"
  have le: "8 + rec_length ?bs \<le> readableBytes buf" using assms(3) by (simp add: rec_total_def)
  then have "rec_length ?bs \<le> length (drop 8 (peek buf))"
    using readable_le_peek [OF assms(2)] by simp
  moreover have "take (rec_length ?bs) (drop 8 (peek buf)) = take (rec_length ?bs) (drop 8 ?bs)"
    using le by (rule take_drop_peek)
  ultimately have p: "\<exists>ok c'. onParams (drop 8 (peek buf)) (h_length ?h) c = Some (ok, c') \<and> codec_inv c' \<and>
      conn_of c' = handle_params (take (rec_length ?bs) (drop 8 ?bs)) (conn_of c)"
    and s: "\<exists>c'. onStdin (drop 8 (peek buf)) (h_length ?h) c = Some c' \<and> codec_inv c' \<and>
      conn_of c' = handle_stdin (take (rec_length ?bs) (drop 8 ?bs)) (conn_of c)"
    using onParams_refines [OF assms(1), of "h_length ?h" "drop 8 (peek buf)"]
      onStdin_refines [OF assms(1), of "h_length ?h" "drop 8 (peek buf)"] by simp_all
  show ?thesis
    using onBeginRequest_refines [OF assms(2,3), of c] p s assms(1)
    by (auto simp: dispatch_def handle_def u8_eq_iff fcgi_constants)
qed

text \<open>One round of the loop, in terms of the bytes in the buffer.\<close>

lemma parseRequest_unfold:
  assumes "Buffer_inv buf"
  shows "parseRequest buf c =
    (if 8 \<le> readableBytes buf \<and> rec_total (content buf) \<le> readableBytes buf then do {
       c' \<leftarrow> dispatch (host_header (content buf)) buf c;
       buf' \<leftarrow> retrieve (rec_total (content buf)) buf;
       parseRequest buf' c'
     }
     else Some (True, buf, c))"
proof (cases "8 \<le> readableBytes buf")
  case True
  obtain raw where raw: "header_at (peek buf) = Some raw"
    "raw\<lparr>h_id := networkToHost16 (h_id raw), h_length := networkToHost16 (h_length raw)\<rparr>
     = host_header (content buf)"
    using header_at_peek [OF assms True] .
  have "unat (networkToHost16 (h_length raw)) = rec_length (content buf)"
    "unat (h_padding raw) = rec_padding (content buf)"
    using arg_cong [OF raw(2), of h_length] arg_cong [OF raw(2), of h_padding]
    by (simp_all del: host_header_unat add: host_header_unat [symmetric])
  with True raw show ?thesis
    by (simp add: parseRequest.simps [of buf] kRecordHeader_def rec_total_def Let_def)
qed (simp add: parseRequest.simps [of buf] kRecordHeader_def)

text \<open>
  \<^verbatim>\<open>parseRequest\<close> consumes the complete records of the input buffer and does with them what
  the specification says. It never fails an assertion, and it returns.
\<close>

lemma parseRequest_refines:
  assumes "codec_inv c" "Buffer_inv buf"
  shows "\<exists>buf' c'. parseRequest buf c = Some (True, buf', c') \<and> codec_inv c' \<and> Buffer_inv buf' \<and>
      receive (content buf) (conn_of c) = (conn_of c', content buf')"
  using assms
proof (induction "readableBytes buf" arbitrary: buf c rule: less_induct)
  case less
  let ?bs = "content buf"
  note len = length_content [OF less.prems(2)] and unfold = parseRequest_unfold [OF less.prems(2)]
  show ?case
  proof (cases "8 \<le> readableBytes buf \<and> rec_total ?bs \<le> readableBytes buf")
    case False
    then have "take_record ?bs = None" using len by (auto simp: take_record_def)
    with False less.prems show ?thesis by (auto simp: unfold receive_unfold)
  next
    case True
    let ?f = "Frame (rec_type ?bs) (take (rec_length ?bs) (drop 8 ?bs))"
    have tr: "take_record ?bs = Some (?f, drop (rec_total ?bs) ?bs)"
      using True len by (auto simp: take_record_def)
    obtain c1 where c1: "dispatch (host_header ?bs) buf c = Some c1" "codec_inv c1"
      "conn_of c1 = handle ?f (conn_of c)"
      using dispatch_refines [OF less.prems] True by auto
    obtain b1 where b1: "retrieve (rec_total ?bs) buf = Some b1" "Buffer_inv b1"
      "content b1 = drop (rec_total ?bs) ?bs" "readableBytes b1 = readableBytes buf - rec_total ?bs"
      using retrieve_total [OF less.prems(2)] True by metis
    have "parseRequest buf c = parseRequest b1 c1"
      using True c1(1) b1(1) by (simp add: unfold)
    moreover have "receive ?bs (conn_of c) = receive (content b1) (conn_of c1)"
      using tr b1(3) c1(3) by (simp add: receive_unfold [of ?bs])
    moreover have "readableBytes b1 < readableBytes buf"
      using b1(4) True by (simp add: rec_total_def)
    ultimately show ?thesis
      using less.hyps [of b1 c1] b1(2) c1(2) by simp
  qed
qed

section \<open>Responses\<close>

text \<open>
  What \<^verbatim>\<open>respond\<close> must write: the output cut into contents of at most 65535 bytes, one
  record each, padded to a multiple of eight bytes, then an empty output record and the
  end-of-request record.
\<close>

function chunks :: "nat \<Rightarrow> bytes \<Rightarrow> bytes list" where
  "chunks n xs = (if xs = [] \<or> n = 0 then [] else take n xs # chunks n (drop n xs))"
  by pat_completeness auto
termination
  by (relation "measure (\<lambda>(n, xs). length xs)") auto

declare chunks.simps [simp del]

definition pad8 :: "nat \<Rightarrow> nat" where
  "pad8 n = (8 - n mod 8) mod 8"

definition stdout_record :: "bytes \<Rightarrow> bytes" where
  "stdout_record s = enc_record 6 1 s (pad8 (length s))"

definition response_bytes :: "bytes \<Rightarrow> bytes" where
  "response_bytes out =
     concat (map stdout_record (chunks 65535 out)) @ enc_record 6 1 [] 0 @
     enc_record 3 1 (replicate 8 NUL) 0"

lemma concat_chunks: "0 < n \<Longrightarrow> concat (chunks n xs) = xs"
  by (induction n xs rule: chunks.induct) (subst chunks.simps, simp)

lemma chunks_ok: "0 < n \<Longrightarrow> n < 65536 \<Longrightarrow> list_all chunk_ok (chunks n xs)"
  by (induction n xs rule: chunks.induct) (subst chunks.simps, auto simp: chunk_ok_def)

lemma chunks_single: "xs \<noteq> [] \<Longrightarrow> length xs \<le> n \<Longrightarrow> chunks n xs = [xs]"
  using chunks.simps [of n xs] chunks.simps [of n "[]"] by (cases n) auto

lemma chunks_indexed:
  assumes "0 < n" "i \<le> length xs div n"
  shows "chunks n (drop (i * n) xs) =
    map (\<lambda>j. take n (drop (j * n) xs)) [i..<length xs div n] @
    (if length xs mod n = 0 then [] else [drop (n * (length xs div n)) xs])"
  using assms(2)
proof (induction "length xs div n - i" arbitrary: i)
  case 0
  then have i: "i = length xs div n" by simp
  then have len: "length (drop (i * n) xs) = length xs mod n"
    by (simp add: minus_div_mult_eq_mod)
  show ?case
  proof (cases "length xs mod n = 0")
    case True
    with len have "drop (i * n) xs = []" by (metis length_0_conv)
    with True show ?thesis by (simp add: i chunks.simps [of n "[]"])
  next
    case False
    have "length (drop (i * n) xs) \<le> n" using len assms(1) by (simp add: less_imp_le)
    with False len chunks_single [of "drop (i * n) xs" n] show ?thesis
      by (simp add: i mult.commute)
  qed
next
  case (Suc k)
  then have lt: "i < length xs div n" by simp
  then have "i * n < length xs div n * n" using assms(1) by simp
  also have "\<dots> \<le> length xs" by simp
  finally have "i * n < length xs" .
  with assms(1) have "chunks n (drop (i * n) xs)
      = take n (drop (i * n) xs) # chunks n (drop (Suc i * n) xs)"
    by (simp add: chunks.simps [of n "drop (i * n) xs"] add.commute)
  with Suc.hyps(1) [of "Suc i"] Suc.hyps(2) lt show ?case by (simp add: upt_conv_Cons)
qed

lemma neg_mod_8: "(- int n) mod 8 = int (pad8 n)"
  by (simp add: pad8_def zmod_zminus1_eq_if zmod_int)

lemma unat_pad_of: "unat (pad_of n) = pad8 n"
proof -
  let ?w = "of_int (- int n) :: u64"
  have w: "- (of_nat n :: u64) = ?w" by simp
  have "(7 :: u64) = mask 3" by (simp add: mask_eq_exp_minus_1)
  then have m: "?w AND 7 = take_bit 3 ?w" by (simp only: take_bit_eq_mask)
  have "uint (take_bit 3 ?w) = take_bit 3 (- int n)"
    by (simp only: unsigned_take_bit_eq uint_word_of_int_eq take_bit_take_bit) simp
  then have "uint (?w AND 7) = int (pad8 n)"
    using neg_mod_8 [of n] by (simp only: m take_bit_eq_mod) simp
  then have "unat (?w AND 7) = pad8 n" by (metis nat_int unat_eq_nat_uint)
  then have "unat (ucast (?w AND 7) :: u8) = pad8 n"
    by (simp add: unsigned_ucast_eq take_bit_eq_mod pad8_def)
  then show ?thesis by (simp only: pad_of_def w)
qed

lemma pad_of_max: "ucast ((- (of_nat FCGI_MAX_LENGTH :: u32)) AND 7) = pad_of FCGI_MAX_LENGTH"
  by (simp add: FCGI_MAX_LENGTH_def pad_of_def)

lemma pad8_less: "pad8 n < 8"
  by (simp add: pad8_def)

lemma rev_mem16:
  assumes "n < 65536"
  shows "rev (mem16 (of_nat n)) = [char_of (n div 256), char_of n]"
proof -
  have "byte_at w i = char_of (unat w div 256 ^ i)" for w :: u16 and i
    by (rule of_char_eqI [where ?'a = nat]) (simp add: of_char_byte_at)
  with assms show ?thesis
    by (simp add: mem16_def mem_bytes_def unat_of_nat upt_rec)
qed

lemma hostToNetwork_0 [simp]: "hostToNetwork16 0 = 0" "hostToNetwork32 0 = 0"
  by (simp_all add: hton_hostToNetwork [symmetric] hton16_def hton32_def)

lemma enc_record_header_bytes:
  assumes "rid < 65536" "length c < 65536"
  shows "header_bytes \<lparr>h_version = 1, h_type = t, h_id = hostToNetwork16 (of_nat rid),
      h_length = hostToNetwork16 (of_nat (length c)), h_padding = p, h_unused = 0\<rparr>
      @ c @ replicate (unat p) NUL = enc_record (unat t) rid c (unat p)"
  using rev_mem16 [OF assms(1)] rev_mem16 [OF assms(2)]
  by (simp add: header_bytes_def enc_record_def mem_hostToNetwork)

lemma length_header_bytes [simp]: "length (header_bytes h) = 8"
  by (simp add: header_bytes_def length_mem)

lemma append_header_total:
  assumes "Buffer_inv b"
  obtains b' where "append (header_bytes h) kRecordHeader b = Some b'" "Buffer_inv b'"
    "content b' = content b @ header_bytes h"
  using append_total [OF assms, of kRecordHeader "header_bytes h"] by (auto simp: kRecordHeader_def)

lemma append_piece_total:
  assumes "Buffer_inv b" "length s < 2 ^ 31"
  obtains b' where "append_piece (piece_of s) b = Some b'" "Buffer_inv b'"
    "content b' = content b @ s"
proof -
  have "unat (of_int (sp_length (piece_of s)) :: u64) = length s"
    using int_cast_roundtrip [OF assms(2)] by (simp add: piece_of_def)
  then show ?thesis
    using append_total [OF assms(1), of "length s" s] that
    by (auto simp: append_piece_def piece_of_def)
qed

lemma put_stdout_total:
  assumes "Buffer_inv b" "length s < 65536"
  obtains b' where "put_stdout (stdout_header (of_nat (length s)) (pad_of (length s))) s b = Some b'"
    "Buffer_inv b'" "content b' = content b @ stdout_record s"
proof -
  let ?h = "stdout_header (of_nat (length s)) (pad_of (length s))"
  obtain b1 where b1: "append (header_bytes ?h) kRecordHeader b = Some b1" "Buffer_inv b1"
    "content b1 = content b @ header_bytes ?h"
    using append_header_total [OF assms(1)] .
  obtain b2 where b2: "append_piece (piece_of s) b1 = Some b2" "Buffer_inv b2" "content b2 = content b1 @ s"
    using append_piece_total [OF b1(2), of s] assms(2) by auto
  have p: "unat (h_padding ?h) = pad8 (length s)" by (simp add: stdout_header_def unat_pad_of)
  with pad8_less [of "length s"] have "unat (h_padding ?h) \<le> length (replicate 9 NUL)" by simp
  then obtain b3 where b3: "append (replicate 9 NUL) (unat (h_padding ?h)) b2 = Some b3" "Buffer_inv b3"
    "content b3 = content b2 @ replicate (pad8 (length s)) NUL"
    using append_total [OF b2(2), of "unat (h_padding ?h)" "replicate 9 NUL"] p by auto
  have "header_bytes ?h @ s @ replicate (pad8 (length s)) NUL = stdout_record s"
    using enc_record_header_bytes [of 1 s kFcgiStdout "pad_of (length s)"] assms(2)
    by (simp add: stdout_header_def unat_pad_of stdout_record_def kFcgiStdout_def)
  with b1 b2 b3 show ?thesis
    by (intro that [of b3]) (simp_all add: put_stdout_def)
qed

lemma respond_loop_total:
  assumes "Buffer_inv r" "n * FCGI_MAX_LENGTH \<le> length out"
  obtains r' where "respond_loop i n out r = Some r'" "Buffer_inv r'"
    "content r' = content r @
       concat (map (\<lambda>j. stdout_record (take FCGI_MAX_LENGTH (drop (j * FCGI_MAX_LENGTH) out))) [i..<n])"
  using assms(1)
proof (induction "n - i" arbitrary: i r thesis)
  case 0
  then show ?case by (simp add: respond_loop.simps [of i])
next
  case (Suc k)
  let ?M = FCGI_MAX_LENGTH and ?s = "take FCGI_MAX_LENGTH (drop (i * FCGI_MAX_LENGTH) out)"
  have lt: "i < n" and k: "k = n - Suc i" using Suc.hyps(2) by simp_all
  then have "Suc i * ?M \<le> n * ?M" by (intro mult_le_mono1) simp
  with assms(2) have le: "i * ?M + ?M \<le> length out" by simp
  then have s: "substr out (i * ?M) ?M = Some ?s" "length ?s = ?M" by (simp_all add: substr_def)
  then have small: "length ?s < 65536" by (simp add: FCGI_MAX_LENGTH_def)
  obtain r1 where r1: "put_stdout (stdout_header (of_nat ?M) (pad_of ?M)) ?s r = Some r1" "Buffer_inv r1"
    "content r1 = content r @ stdout_record ?s"
    using put_stdout_total [OF Suc.prems(2) small] s(2) by auto
  obtain r' where "respond_loop (Suc i) n out r1 = Some r'" "Buffer_inv r'"
    "content r' = content r1 @ concat (map (\<lambda>j. stdout_record (take ?M (drop (j * ?M) out))) [Suc i..<n])"
    using Suc.hyps(1) [OF k _ r1(2)] .
  with r1 lt s(1) show ?case
    by (intro Suc.prems(1) [of r'])
      (simp_all add: respond_loop.simps [of i] pad_of_max upt_conv_Cons)
qed

lemma endStdout_total:
  assumes "Buffer_inv b"
  obtains b' where "endStdout b = Some b'" "Buffer_inv b'" "content b' = content b @ enc_record 6 1 [] 0"
proof -
  have "header_bytes \<lparr>h_version = 1, h_type = kFcgiStdout, h_id = hostToNetwork16 1, h_length = 0,
      h_padding = 0, h_unused = 0\<rparr> = enc_record 6 1 [] 0"
    using enc_record_header_bytes [of 1 "[]" kFcgiStdout 0] by (simp add: kFcgiStdout_def)
  then show ?thesis
    using append_header_total [OF assms] that by (metis endStdout_def)
qed

lemma appendInt32_0_total:
  assumes "Buffer_inv b"
  obtains b' where "appendInt32 0 b = Some b'" "Buffer_inv b'" "content b' = content b @ replicate 4 NUL"
proof -
  have "mem32 (hostToNetwork32 0) = replicate 4 NUL"
    by (simp add: mem32_def mem_bytes_def byte_at_def upt_rec numeral_eq_Suc)
  then show ?thesis
    using append_total [OF assms, of 4 "mem32 (hostToNetwork32 0)"] that
    by (auto simp: appendInt32_def)
qed

lemma endRequest_total:
  assumes "Buffer_inv b"
  obtains b' where "endRequest b = Some b'" "Buffer_inv b'"
    "content b' = content b @ enc_record 3 1 (replicate 8 NUL) 0"
proof -
  let ?h = "\<lparr>h_version = 1, h_type = kFcgiEndRequest, h_id = hostToNetwork16 1,
    h_length = hostToNetwork16 (of_nat kRecordHeader), h_padding = 0, h_unused = 0\<rparr>"
  obtain b1 where b1: "append (header_bytes ?h) kRecordHeader b = Some b1" "Buffer_inv b1"
    "content b1 = content b @ header_bytes ?h"
    using append_header_total [OF assms] .
  obtain b2 where b2: "appendInt32 0 b1 = Some b2" "Buffer_inv b2" "content b2 = content b1 @ replicate 4 NUL"
    using appendInt32_0_total [OF b1(2)] .
  obtain b3 where b3: "appendInt32 0 b2 = Some b3" "Buffer_inv b3" "content b3 = content b2 @ replicate 4 NUL"
    using appendInt32_0_total [OF b2(2)] .
  have "header_bytes ?h @ replicate 8 NUL = enc_record 3 1 (replicate 8 NUL) 0"
    using enc_record_header_bytes [of 1 "replicate 8 NUL" kFcgiEndRequest 0]
    by (simp add: kFcgiEndRequest_def kRecordHeader_def)
  moreover have "replicate 4 NUL @ replicate 4 NUL = replicate 8 NUL"
    by (simp flip: replicate_add)
  ultimately show ?thesis
    using b1 b2 b3 by (intro that [of b3]) (simp_all add: endRequest_def)
qed

lemma respond_records_total:
  assumes "Buffer_inv r" "out \<noteq> []" "length out \<le> npos"
  obtains r' where "respond_records out r = Some r'" "Buffer_inv r'"
    "content r' = content r @ concat (map stdout_record (chunks FCGI_MAX_LENGTH out))"
proof (cases "length out \<le> FCGI_MAX_LENGTH")
  case True
  then have "length out < 65536" by (simp add: FCGI_MAX_LENGTH_def)
  then obtain r' where "put_stdout (stdout_header (of_nat (length out)) (pad_of (length out))) out r = Some r'"
    "Buffer_inv r'" "content r' = content r @ stdout_record out"
    using put_stdout_total [OF assms(1)] by metis
  with True show ?thesis
    by (intro that [of r']) (simp_all add: respond_records_def chunks_single [OF assms(2)])
next
  case False
  let ?M = FCGI_MAX_LENGTH and ?n = "length out div FCGI_MAX_LENGTH"
  obtain r1 where r1: "respond_loop 0 ?n out r = Some r1" "Buffer_inv r1"
    "content r1 = content r @ concat (map (\<lambda>j. stdout_record (take ?M (drop (j * ?M) out))) [0..<?n])"
    using respond_loop_total [OF assms(1), of ?n out 0] by auto
  have M: "0 < ?M" by (simp add: FCGI_MAX_LENGTH_def)
  have ch: "chunks ?M out = map (\<lambda>j. take ?M (drop (j * ?M) out)) [0..<?n] @
      (if length out mod ?M = 0 then [] else [drop (?M * ?n) out])"
    using chunks_indexed [OF M, of 0 out] by simp
  show ?thesis
  proof (cases "length out mod ?M = 0")
    case True
    with False r1 show ?thesis
      by (intro that [of r1]) (simp_all add: respond_records_def ch comp_def)
  next
    case rem: False
    let ?s = "drop (?M * ?n) out"
    have "length ?s = length out mod ?M" by (simp add: minus_mult_div_eq_mod)
    also have "\<dots> < ?M" using M by simp
    finally have small: "length ?s < 65536" by (simp add: FCGI_MAX_LENGTH_def)
    obtain r2 where r2: "put_stdout (stdout_header (of_nat (length ?s)) (pad_of (length ?s))) ?s r1 = Some r2"
      "Buffer_inv r2" "content r2 = content r1 @ stdout_record ?s"
      using put_stdout_total [OF r1(2) small] .
    have "substr out (?M * ?n) npos = Some ?s"
      using assms(3) by (simp add: substr_def)
    with False rem r1 r2 show ?thesis
      by (intro that [of r2]) (simp_all add: respond_records_def ch comp_def)
  qed
qed

lemma length_empty_result: "length empty_result = 75"
  by code_simp

lemma respond_total:
  assumes "Buffer_inv r" "length out \<le> npos"
  obtains r' where "respond out r = Some (if out = [] then empty_result else out, r')" "Buffer_inv r'"
    "content r' = content r @ response_bytes (if out = [] then empty_result else out)"
proof -
  let ?text = "if out = [] then empty_result else out"
  have "length empty_result \<le> npos" by (simp add: length_empty_result npos_def)
  with assms(2) have ne: "?text \<noteq> []" and len: "length ?text \<le> npos"
    by (simp_all add: empty_result_def)
  obtain r1 where r1: "respond_records ?text r = Some r1" "Buffer_inv r1"
    "content r1 = content r @ concat (map stdout_record (chunks 65535 ?text))"
    using respond_records_total [OF assms(1) ne len] unfolding FCGI_MAX_LENGTH_def .
  obtain r2 where r2: "endStdout r1 = Some r2" "Buffer_inv r2" "content r2 = content r1 @ enc_record 6 1 [] 0"
    using endStdout_total [OF r1(2)] .
  obtain r3 where r3: "endRequest r2 = Some r3" "Buffer_inv r3"
    "content r3 = content r2 @ enc_record 3 1 (replicate 8 NUL) 0"
    using endRequest_total [OF r2(2)] .
  show ?thesis
    using r1 r2 r3 by (intro that [of r3]) (simp_all add: respond_def response_bytes_def Let_def)
qed

text \<open>A response splits into the output records and the two closing records.\<close>

lemma split_stdout_records:
  assumes "list_all chunk_ok cs" "split_records xs = (fs, r)"
  shows "split_records (concat (map stdout_record cs) @ xs) = (map (Frame 6) cs @ fs, r)"
  using assms(1)
proof (induction cs)
  case (Cons c cs)
  have "pad8 (length c) < 256" using pad8_less [of "length c"] by simp
  with Cons show ?case
    by (simp add: stdout_record_def chunk_ok_def split_records_enc)
qed (simp add: assms(2))

lemma split_response:
  "split_records (response_bytes out) =
     (map (Frame 6) (chunks 65535 out) @ [Frame 6 [], Frame 3 (replicate 8 NUL)], [])"
proof -
  have "split_records (enc_record 6 1 [] 0 @ enc_record 3 1 (replicate 8 NUL) 0 @ [])
      = ([Frame 6 [], Frame 3 (replicate 8 NUL)], [])"
    by (intro split_records_enc) (simp_all add: split_records_simps take_record_def)
  then show ?thesis
    using split_stdout_records [OF chunks_ok] by (simp add: response_bytes_def)
qed

lemma length_stdout_record: "8 dvd length (stdout_record s)"
proof -
  have "int (length s + pad8 (length s)) mod 8 = 0"
    using neg_mod_8 [of "length s"] mod_add_right_eq [of "int (length s)" "- int (length s)" 8]
    by simp
  then have "8 dvd length s + pad8 (length s)" by presburger
  then show ?thesis by (simp add: stdout_record_def length_enc_record add.assoc)
qed

lemma length_response: "8 dvd length (response_bytes out)"
proof -
  have "8 dvd length (concat (map stdout_record cs))" for cs
    by (induction cs) (simp_all add: length_stdout_record)
  then show ?thesis by (simp add: response_bytes_def length_enc_record)
qed

section \<open>Receiving\<close>

text \<open>
  What the server does when a chunk arrives (\<^verbatim>\<open>TcpConnection::handleRead\<close>): read it into
  the connection's input buffer and parse.
\<close>

definition mu_recv :: "bytes \<Rightarrow> Buffer \<times> FastCgiCodec \<Rightarrow> (Buffer \<times> FastCgiCodec) option" where
  "mu_recv chunk s = do {
     (n, e, buf) \<leftarrow> readFd (Inr chunk) (fst s);
     (ok, buf', c) \<leftarrow> parseRequest buf (snd s);
     Some (buf', c)
   }"

definition mu_init :: "Buffer \<times> FastCgiCodec" where
  "mu_init = (new_Buffer kInitialSize, new_FastCgiCodec)"

definition mu_inv :: "Buffer \<times> FastCgiCodec \<Rightarrow> bool" where
  "mu_inv s \<longleftrightarrow> Buffer_inv (fst s) \<and> codec_inv (snd s)"

lemma mu_recv_ok:
  assumes "mu_inv s"
  shows "\<exists>s'. mu_recv chunk s = Some s' \<and> mu_inv s' \<and>
    receive (content (fst s) @ chunk) (conn_of (snd s)) = (conn_of (snd s'), content (fst s'))"
proof -
  from assms have inv: "Buffer_inv (fst s)" "codec_inv (snd s)" by (simp_all add: mu_inv_def)
  obtain b where b: "readFd (Inr chunk) (fst s) = Some (int (length chunk), None, b)" "Buffer_inv b"
      "content b = content (fst s) @ chunk"
    using readFd_total [OF inv(1)] .
  from parseRequest_refines [OF inv(2) b(2)] b show ?thesis
    by (auto simp: mu_recv_def mu_inv_def)
qed

lemma mu_init_ok: "mu_inv mu_init" "conn_of (snd mu_init) = connection_init" "content (fst mu_init) = []"
  by (simp_all add: mu_inv_def mu_init_def new_Buffer_inv)

interpretation mu: wire_codec "\<lambda>s. conn_of (snd s)" "\<lambda>s. content (fst s)" mu_inv mu_recv mu_init
  by unfold_locales (simp_all add: mu_init_ok mu_recv_ok del: split_paired_Ex)

section \<open>Messages\<close>

text \<open>A callback that keeps the input buffer well formed and does not fail on a request.\<close>

definition callback_ok ::
  "(ParamMap \<Rightarrow> Buffer \<Rightarrow> ('e list \<times> Buffer) option) \<Rightarrow> ParamMap \<Rightarrow> bytes \<Rightarrow> bool" where
  "callback_ok cb m inp \<longleftrightarrow>
     (\<forall>b. Buffer_inv b \<and> content b = inp \<longrightarrow> (\<exists>es b'. cb m b = Some (es, b') \<and> Buffer_inv b'))"

lemma onMessage_cases:
  assumes "codec_inv c" "Buffer_inv buf" "got k \<Longrightarrow> callback_ok cb (pmap k) (input k)"
    and "receive (content buf) (conn_of c) = (k, rest)"
  shows "\<exists>es buf' c'. onMessage cb buf c = Some (es, buf', c') \<and> codec_inv c' \<and> Buffer_inv buf' \<and>
    content buf' = rest \<and>
    (if got k then conn_of c' = connection_init\<lparr>keep := keep k\<rparr> \<and>
       (\<exists>b r b'. content b = input k \<and> Buffer_inv b \<and> cb (pmap k) b = Some (r, b') \<and>
          es = map Cb r @ (if keep k then [] else [Shutdown]))
     else conn_of c' = k \<and> es = [])"
proof -
  obtain buf' c1 where p: "parseRequest buf c = Some (True, buf', c1)" "codec_inv c1" "Buffer_inv buf'"
      "k = conn_of c1" "rest = content buf'"
    using parseRequest_refines [OF assms(1,2)] assms(4) by auto
  show ?thesis
  proof (cases "gotRequest c1")
    case True
    have inv: "Buffer_inv (stdin c1)" "Buffer_inv (paramsStream c1)"
      using p(2) by (simp_all add: codec_inv_def)
    obtain r b' where cb: "cb (params c1) (stdin c1) = Some (r, b')" "Buffer_inv b'"
      using assms(3) inv(1) True p(4) unfolding callback_ok_def by (auto simp: conn_of_def)
    let ?c = "c1\<lparr>stdin := retrieveAll b', paramsStream := retrieveAll (paramsStream c1),
      params := Map.empty, gotRequest := False\<rparr>"
    have "onMessage cb buf c = Some (map Cb r @ (if keepConn c1 then [] else [Shutdown]), buf', ?c)"
      using True p(1) cb(1) by (simp add: onMessage_def Let_def)
    moreover have "codec_inv ?c" using inv cb(2) by (simp add: codec_inv_def retrieveAll_inv)
    moreover have "conn_of ?c = connection_init\<lparr>keep := keep k\<rparr>"
      by (simp add: conn_of_def connection_init_def p(4))
    ultimately show ?thesis
      using True p cb(1) inv(1) by (auto simp: conn_of_def)
  next
    case False
    with p show ?thesis by (auto simp: onMessage_def conn_of_def)
  qed
qed

text \<open>A length is below \<open>2 ^ 31\<close> unless it is the failure value.\<close>

lemma readLen_small:
  assumes "Buffer_inv (paramsStream c)" "readLen c = Some (l, c')" "l \<noteq> - 1"
  shows "\<exists>m ps. l = of_nat m \<and> m < 2 ^ 31 \<and> c' = c\<lparr>paramsStream := ps\<rparr> \<and> Buffer_inv ps"
proof (cases "take_len (content (paramsStream c))")
  case None
  with readLen_fail [OF assms(1)] assms show ?thesis by simp
next
  case (Some p)
  obtain m rest where p: "p = (m, rest)" by fastforce
  with Some obtain ps where "readLen c = Some (of_nat m, c\<lparr>paramsStream := ps\<rparr>)" "Buffer_inv ps"
    using readLen_ok [OF assms(1)] by metis
  moreover have "m < 2 ^ 31" using Some p by (blast dest: take_len_bound)
  ultimately show ?thesis using assms(2) by auto
qed

section \<open>Properties\<close>







text \<open>
  C37: For every output string that fits in memory, \<^verbatim>\<open>respond\<close> succeeds, and the bytes it
  writes are a sequence of well-formed records: output records whose contents, each non-empty
  and at most 65535 bytes, concatenate to the output (or to the built-in reply if the output
  is empty), then the empty output record and the end-of-request record. The total length is
  a multiple of eight.
\<close>

theorem mucgi_respond_roundtrip:
  assumes "Buffer_inv r" "content r = []" "length out \<le> npos"
  shows "\<exists>r' cs. respond out r = Some (if out = [] then empty_result else out, r') \<and> Buffer_inv r' \<and>
    split_records (content r') = (map (Frame 6) cs @ [Frame 6 [], Frame 3 (replicate 8 NUL)], []) \<and>
    concat cs = (if out = [] then empty_result else out) \<and> list_all chunk_ok cs \<and>
    8 dvd length (content r')"
proof -
  let ?text = "if out = [] then empty_result else out"
  obtain r' where "respond out r = Some (?text, r')" "Buffer_inv r'" "content r' = response_bytes ?text"
    using respond_total [OF assms(1,3)] assms(2) by auto
  then show ?thesis
    using split_response [of ?text] concat_chunks [of 65535 ?text] chunks_ok [of 65535 ?text]
      length_response [of ?text]
    by (intro exI [of _ r'] exI [of _ "chunks 65535 ?text"]) simp
qed

theorem mucgi_respond_roundtrip_witness:
  "\<exists>r' cs. respond ''hello'' (new_Buffer kInitialSize) = Some (''hello'', r') \<and> Buffer_inv r' \<and>
    split_records (content r') = (map (Frame 6) cs @ [Frame 6 [], Frame 3 (replicate 8 NUL)], []) \<and>
    concat cs = ''hello'' \<and> list_all chunk_ok cs \<and> 8 dvd length (content r')"
  using mucgi_respond_roundtrip [of "new_Buffer kInitialSize" "''hello''"]
  by (simp add: new_Buffer_inv npos_def)

text \<open>
  C39: The two lengths of a name-value pair never overflow the 32-bit sum that
  \<^verbatim>\<open>parseAllParams\<close> compares with the bytes available: a length read from a well-formed
  buffer is below \<open>2 ^ 31\<close> or is the failure value.
\<close>

theorem mucgi_readLen_sum_exact:
  assumes "codec_inv c" "readLen c = Some (n, c1)" "n \<noteq> - 1" "readLen c1 = Some (v, c2)" "v \<noteq> - 1"
  shows "unat (n + v) = unat n + unat v \<and> unat n < 2 ^ 31 \<and> unat v < 2 ^ 31 \<and>
    readableBytes (paramsStream c2) < readableBytes (paramsStream c1)"
proof -
  obtain m ps where m: "n = of_nat m" "m < 2 ^ 31" "c1 = c\<lparr>paramsStream := ps\<rparr>" "Buffer_inv ps"
    using readLen_small [OF _ assms(2,3)] assms(1) by (auto simp: codec_inv_def)
  obtain k where k: "v = of_nat k" "k < 2 ^ 31"
    using readLen_small [OF _ assms(4,5)] m(3,4) by auto
  show ?thesis
    using m k unat_len_sum [OF m(2) k(2)] unat_len_sum(2) [OF k(2) k(2)]
      readLen_decreases [OF assms(4,5)] by simp
qed

theorem mucgi_readLen_sum_exact_witness:
  defines "c \<equiv> new_FastCgiCodec\<lparr>paramsStream :=
      \<lparr>buffer = replicate 8 NUL @ [CHR 0x03, CHR 0x81, NUL, NUL, CHR 0x02, NUL],
       readerIndex = 8, writerIndex = 14\<rparr>\<rparr>"
  defines "c1 \<equiv> c\<lparr>paramsStream := (paramsStream c)\<lparr>readerIndex := 9\<rparr>\<rparr>"
  defines "c2 \<equiv> c\<lparr>paramsStream := (paramsStream c)\<lparr>readerIndex := 13\<rparr>\<rparr>"
  shows "codec_inv c \<and> readLen c = Some (3, c1) \<and> readLen c1 = Some (0x01000002, c2) \<and>
    unat (3 + 0x01000002 :: u32) = unat (3 :: u32) + unat (0x01000002 :: u32)"
proof -
  have "codec_inv c" "readLen c = Some (3, c1)" "readLen c1 = Some (0x01000002, c2)"
    by (simp_all add: c_def c1_def c2_def new_FastCgiCodec_def codec_inv_def new_Buffer_def Buffer_inv_def
        kCheapPrepend_def readLen_def readableBytes_def peekInt8_def peekInt32_def peek_def readInt8_def
        readInt32_def retrieveInt8_def retrieveInt32_def retrieve_def networkToHost_ld)
  then show ?thesis using mucgi_readLen_sum_exact [of c 3 c1 "0x01000002" c2] by simp
qed

end
