(* ===== verification/Cgicc_Utils.thy ===== *)
theory Cgicc_Utils
  imports FCGI_Prelude
begin

unbundle bit_operations_syntax

text \<open>
  The string utilities of the form library: \<^verbatim>\<open>src/mucgi/cgicc_lib/CgiUtils.cpp\<close> (the copy
  under \<^verbatim>\<open>src/cocgi/cocgi_lib/cgicc_lib\<close> is the same file). A string is a byte list, an
  input stream the bytes not yet read and its failure flag. The character classes are those
  of the C locale, which the programs do not change. The lemmas give each loop its closed
  form, and the round trips of the URL encoding and of the stream format.
\<close>

section \<open>Character classes\<close>

definition schar :: "byte \<Rightarrow> int" where
  "schar c = (if ord c < 128 then int (ord c) else int (ord c) - 256)"

definition toupper :: "byte \<Rightarrow> byte" where
  "toupper c = (if 97 \<le> ord c \<and> ord c \<le> 122 then char_of (ord c - 32) else c)"

definition tolower :: "byte \<Rightarrow> byte" where
  "tolower c = (if 65 \<le> ord c \<and> ord c \<le> 90 then char_of (ord c + 32) else c)"

definition isdigit :: "byte \<Rightarrow> bool" where
  "isdigit c \<longleftrightarrow> 48 \<le> ord c \<and> ord c \<le> 57"

definition isxdigit :: "byte \<Rightarrow> bool" where
  "isxdigit c \<longleftrightarrow> isdigit c \<or> (65 \<le> ord c \<and> ord c \<le> 70) \<or> (97 \<le> ord c \<and> ord c \<le> 102)"

definition isspace :: "byte \<Rightarrow> bool" where
  "isspace c \<longleftrightarrow> (9 \<le> ord c \<and> ord c \<le> 13) \<or> ord c = 32"

section \<open>Comparison\<close>

text \<open>The loop over two ranges: whether it reaches the end of one without a mismatch.\<close>

fun equal_range :: "bytes \<Rightarrow> bytes \<Rightarrow> bool" where
  "equal_range (a # as) (b # bs) = (if toupper a \<noteq> toupper b then False else equal_range as bs)"
| "equal_range as bs = True"

definition stringsAreEqual :: "bytes \<Rightarrow> bytes \<Rightarrow> bool" where
  "stringsAreEqual s1 s2 = (if \<not> equal_range s1 s2 then False else length s2 = length s1)"

definition stringsAreEqual_n :: "bytes \<Rightarrow> bytes \<Rightarrow> nat \<Rightarrow> bool" where
  "stringsAreEqual_n s1 s2 n =
     (let good = (n \<le> length s1 \<and> n \<le> length s2);
          r1 = (if good then take n s1 else s1);
          r2 = (if good then take n s2 else s2)
      in if \<not> equal_range r1 r2 then False else good)"

section \<open>URL encoding\<close>

text \<open>Arithmetic on \<^verbatim>\<open>char\<close> is on \<^verbatim>\<open>int\<close>; storing the result keeps its low byte.\<close>

definition charToHex :: "byte \<Rightarrow> bytes" where
  "charToHex c =
     (let first = (schar c AND 0xF0) div 16;
          first' = first + (if 9 < first then 65 - 10 else 48);
          second = schar c AND 0x0F;
          second' = second + (if 9 < second then 65 - 10 else 48)
      in [char_of first', char_of second'])"

definition hexToChar :: "byte \<Rightarrow> byte \<Rightarrow> byte" where
  "hexToChar first second =
     (let d1 = (if 65 \<le> schar first then (schar first AND 0xDF) - 65 + 10 else schar first - 48);
          d2 = d1 * 16;
          d3 = d2 + (if 65 \<le> schar second then (schar second AND 0xDF) - 65 + 10
                     else schar second - 48)
      in char_of d3)"

definition unreserved :: bytes where
  "unreserved =
     ''ABCDEFGHIJKLMNOPQRSTUVWXYZabcdefghijklmnopqrstuvwxyz0123456789-_.!~*()'' @ [CHR 0x27]"

primrec form_urlencode :: "bytes \<Rightarrow> bytes" where
  "form_urlencode [] = []"
| "form_urlencode (c # cs) =
     (if c = CHR '' '' then ''+''
      else if c \<in> set unreserved then [c]
      else CHR ''%'' # charToHex c) @ form_urlencode cs"

text \<open>
  The decoder's loop at an iterator: the string from there on. Its test allows the iterator
  two before the end and then reads the character at \<^verbatim>\<open>end()\<close>, which \<^verbatim>\<open>std::string\<close> stores
  as NUL; \<open>char_or_nul\<close> is that read.
\<close>

definition char_or_nul :: "bytes \<Rightarrow> nat \<Rightarrow> byte" where
  "char_or_nul cs i = (if i < length cs then cs ! i else NUL)"

function form_urldecode :: "bytes \<Rightarrow> bytes" where
  "form_urldecode [] = []"
| "form_urldecode (c # cs) =
     (if c = CHR ''+'' then CHR '' '' # form_urldecode cs
      else if c = CHR ''%'' then
        (if 2 \<le> length (c # cs) \<and> isxdigit (char_or_nul cs 0) \<and> isxdigit (char_or_nul cs 1)
         then hexToChar (char_or_nul cs 0) (char_or_nul cs 1) # form_urldecode (drop 2 cs)
         else CHR ''%'' # form_urldecode cs)
      else c # form_urldecode cs)"
  by pat_completeness auto
termination
  by (relation "measure length") (auto simp: less_Suc_eq_le)

section \<open>Substrings\<close>

definition extractBetween :: "bytes \<Rightarrow> bytes \<Rightarrow> bytes \<Rightarrow> bytes option" where
  "extractBetween data separator1 separator2 =
     (let start = str_find data separator1 0 in
      if npos \<noteq> start then
        (let start' = size_add start (length separator1);
             limit = str_find data separator2 start'
         in if npos \<noteq> limit then substr data start' (size_sub limit start') else Some [])
      else Some [])"

section \<open>Streams\<close>

definition writeString :: "bytes \<Rightarrow> bytes" where
  "writeString s = dec_digits (length s) @ '' '' @ s"

definition writeLong :: "nat \<Rightarrow> bytes" where
  "writeLong l = dec_digits l @ '' ''"

record istream =
  rest :: bytes
  failbit :: bool

text \<open>\<^verbatim>\<open>in >> n\<close> for an unsigned 64-bit \<open>n\<close>: skip white space, an optional sign, digits.
  A stream that has already failed leaves the variable, whose value is \<open>old\<close>, alone.\<close>

definition dec_value :: "bytes \<Rightarrow> nat" where
  "dec_value ds = fold (\<lambda>d n. 10 * n + (ord d - 48)) ds 0"

definition read_unsigned :: "nat \<Rightarrow> istream \<Rightarrow> nat \<times> istream" where
  "read_unsigned old i =
     (if failbit i then (old, i)
      else
        (let r = dropWhile isspace (rest i);
             (neg, r1) = (case r of
                            c # cs \<Rightarrow> if c = CHR ''-'' then (True, cs)
                                      else if c = CHR ''+'' then (False, cs) else (False, r)
                          | [] \<Rightarrow> (False, r));
             ds = takeWhile isdigit r1;
             r2 = dropWhile isdigit r1;
             n = dec_value ds
         in if ds = [] then (0, \<lparr>rest = r2, failbit = True\<rparr>)
            else if 2 ^ 64 \<le> n then (2 ^ 64 - 1, \<lparr>rest = r2, failbit = True\<rparr>)
            else ((if neg then (2 ^ 64 - n) mod 2 ^ 64 else n), \<lparr>rest = r2, failbit = False\<rparr>)))"

definition stream_get :: "istream \<Rightarrow> istream" where
  "stream_get i =
     (if failbit i then i
      else case rest i of [] \<Rightarrow> i\<lparr>failbit := True\<rparr> | c # cs \<Rightarrow> i\<lparr>rest := cs\<rparr>)"

text \<open>\<^verbatim>\<open>in.read(p, n)\<close>: the bytes read (\<^verbatim>\<open>gcount\<close> of them) and the stream.\<close>

definition stream_read :: "nat \<Rightarrow> istream \<Rightarrow> bytes \<times> istream" where
  "stream_read n i =
     (if failbit i then ([], i)
      else (take n (rest i), \<lparr>rest = drop n (rest i), failbit = length (rest i) < n\<rparr>))"

text \<open>\<open>None\<close> is the \<^verbatim>\<open>runtime_error\<close>.\<close>

definition readString :: "istream \<Rightarrow> (bytes \<times> istream) option" where
  "readString i =
     (let (dataSize, i1) = read_unsigned 0 i;
          i2 = stream_get i1
      in if dataSize = 0 then Some ([], i2)
         else let (temp, i3) = stream_read dataSize i2
              in if length temp \<noteq> dataSize then None else Some (temp, i3))"

text \<open>\<open>junk\<close> is what the uninitialised variable of the source holds.\<close>

definition readLong :: "nat \<Rightarrow> istream \<Rightarrow> nat \<times> istream" where
  "readLong junk i = (let (l, i1) = read_unsigned junk i in (l, stream_get i1))"

section \<open>Comparison is equality up to case\<close>

lemma equal_range_iff:
  "equal_range as bs \<longleftrightarrow>
     map toupper (take (length bs) as) = map toupper (take (length as) bs)"
  by (induction as bs rule: equal_range.induct) auto

lemma stringsAreEqual_iff: "stringsAreEqual s1 s2 \<longleftrightarrow> map toupper s1 = map toupper s2"
proof (cases "length s1 = length s2")
  case True
  then show ?thesis by (simp add: stringsAreEqual_def equal_range_iff)
next
  case False
  then have "map toupper s1 \<noteq> map toupper s2" using map_eq_imp_length_eq by blast
  with False show ?thesis by (simp add: stringsAreEqual_def)
qed

lemma stringsAreEqual_n_iff:
  "stringsAreEqual_n s1 s2 n \<longleftrightarrow>
     n \<le> length s1 \<and> n \<le> length s2 \<and> map toupper (take n s1) = map toupper (take n s2)"
  by (auto simp: stringsAreEqual_n_def equal_range_iff Let_def min_def)

section \<open>The URL encoding\<close>

text \<open>A nibble as a hexadecimal digit, the form both conversions have.\<close>

definition hexdigit :: "nat \<Rightarrow> byte" where
  "hexdigit n = char_of (if 9 < n then n + 55 else n + 48)"

definition nibble :: "byte \<Rightarrow> int" where
  "nibble c = (if 65 \<le> schar c then (schar c AND 0xDF) - 65 + 10 else schar c - 48)"

lemma hexdigit_table:
  "map hexdigit [0..<16] = ''0123456789ABCDEF''"
  "map nibble ''0123456789ABCDEF'' = map int [0..<16]"
  "list_all isxdigit ''0123456789ABCDEF''"
  "list_all (\<lambda>c. c \<in> set unreserved) ''0123456789ABCDEF''"
  by (simp_all add: hexdigit_def nibble_def schar_def upt_rec char_of_def bit_simps isxdigit_def
      isdigit_def unreserved_def)

lemma hexdigit_facts:
  assumes "n < 16"
  shows "nibble (hexdigit n) = int n" "isxdigit (hexdigit n)" "hexdigit n \<in> set unreserved"
proof -
  have h: "hexdigit n = map hexdigit [0..<16] ! n" using assms by simp
  have "map nibble (map hexdigit [0..<16]) ! n = map int [0..<16] ! n"
    using hexdigit_table(2) by (simp only: hexdigit_table(1))
  then show "nibble (hexdigit n) = int n" using assms by simp
  show "isxdigit (hexdigit n)" "hexdigit n \<in> set unreserved"
    using hexdigit_table(3,4) assms unfolding h hexdigit_table(1) list_all_length by auto
qed

lemma low_nibble: "schar c AND 0x0F = int (ord c mod 16)"
proof -
  have "schar c AND 0x0F = take_bit 4 (schar c)"
    by (simp add: take_bit_eq_mask mask_eq_exp_minus_1)
  also have "\<dots> = schar c mod 16" by (simp add: take_bit_eq_mod)
  also have "\<dots> = int (ord c) mod 16"
    by (cases "ord c < 128") (simp_all add: schar_def mod_diff_right_eq [symmetric] mod_diff_eq)
  finally show ?thesis by (simp add: zmod_int)
qed

lemma high_nibble: "(schar c AND 0xF0) div 16 = int (ord c div 16)"
proof -
  have "(schar c AND 0xF0) div 16 = drop_bit 4 (schar c AND 0xF0)"
    by (simp add: drop_bit_eq_div)
  also have "\<dots> = take_bit 4 (drop_bit 4 (schar c))"
    by (simp add: take_bit_eq_mask mask_eq_exp_minus_1)
  also have "\<dots> = (schar c div 16) mod 16" by (simp add: take_bit_eq_mod drop_bit_eq_div)
  also have "\<dots> = int (ord c div 16)"
  proof -
    have q: "int (ord c) div 16 < 16" using ord_less_256 [of c] by linarith
    have "(int (ord c) - 256) div 16 = int (ord c) div 16 - 16"
      using div_mult_self1 [of 16 "int (ord c)" "- 16"] by simp
    then have "(schar c div 16) mod 16 = int (ord c) div 16 mod 16"
      by (simp add: schar_def)
    also have "\<dots> = int (ord c) div 16" using q by (simp add: mod_pos_pos_trivial)
    finally show ?thesis by (simp add: zdiv_int)
  qed
  finally show ?thesis .
qed

lemma charToHex_eq: "charToHex c = [hexdigit (ord c div 16), hexdigit (ord c mod 16)]"
proof -
  have "char_of (int n + (if 9 < int n then 65 - 10 else 48)) = hexdigit n" for n
  proof -
    have "char_of (int m) = char_of m" for m
      by (simp add: char_of_def bit_of_nat_iff_bit)
    from this [of "n + 55"] this [of "n + 48"] show ?thesis by (simp add: hexdigit_def)
  qed
  then show ?thesis by (simp only: charToHex_def low_nibble high_nibble Let_def)
qed

lemma hexToChar_eq: "hexToChar a b = char_of (nibble a * 16 + nibble b)"
  by (simp add: hexToChar_def nibble_def Let_def)

lemma hex_roundtrip: "\<exists>a b. charToHex c = [a, b] \<and> isxdigit a \<and> isxdigit b \<and> hexToChar a b = c"
proof -
  have h: "ord c div 16 < 16" "ord c mod 16 < 16"
    using ord_less_256 [of c] by (simp_all only: less_mult_imp_div_less mod_less_divisor)
  have "hexToChar (hexdigit (ord c div 16)) (hexdigit (ord c mod 16))
      = char_of (int (ord c div 16) * 16 + int (ord c mod 16))"
    using hexdigit_facts(1) h by (simp add: hexToChar_eq)
  also have "int (ord c div 16) * 16 + int (ord c mod 16) = int (ord c)"
    by (metis div_mult_mod_eq of_nat_add of_nat_mult of_nat_numeral)
  also have "char_of (int (ord c)) = c" by (simp add: of_nat_of_char)
  finally show ?thesis
    using hexdigit_facts(2) h by (simp add: charToHex_eq)
qed

lemma urldecode_urlencode_append:
  "form_urldecode (form_urlencode s @ t) = s @ form_urldecode t"
proof (induction s)
  case (Cons c s)
  obtain a b where hex: "charToHex c = [a, b]" "isxdigit a" "isxdigit b" "hexToChar a b = c"
    using hex_roundtrip by blast
  have "CHR ''+'' \<notin> set unreserved" "CHR ''%'' \<notin> set unreserved"
    by (simp_all add: unreserved_def)
  with Cons hex show ?case by (auto simp: char_or_nul_def)
qed simp

lemma form_urlencode_chars:
  "c \<in> set (form_urlencode s) \<Longrightarrow> c \<in> set unreserved \<or> c = CHR ''+'' \<or> c = CHR ''%''"
proof (induction s)
  case (Cons d s)
  have h: "ord d div 16 < 16" "ord d mod 16 < 16"
    using ord_less_256 [of d] by (simp_all only: less_mult_imp_div_less mod_less_divisor)
  with Cons show ?case
    using hexdigit_facts(3) [OF h(1)] hexdigit_facts(3) [OF h(2)]
    by (auto simp: charToHex_eq split: if_splits)
qed simp

lemma urldecode_length: "length (form_urldecode s) \<le> length s"
  by (induction s rule: form_urldecode.induct) (auto simp: less_Suc_eq_le intro: le_trans)

section \<open>Substrings between separators\<close>

lemma extractBetween_eq:
  assumes "length data < npos"
  shows "extractBetween data sep1 sep2 =
    Some (case find_at sep1 data 0 of
            None \<Rightarrow> []
          | Some i \<Rightarrow> (case find_at sep2 (drop (i + length sep1) data) 0 of
                        None \<Rightarrow> []
                      | Some j \<Rightarrow> take j (drop (i + length sep1) data)))"
proof (cases "find_at sep1 data 0")
  case None
  then show ?thesis by (simp add: extractBetween_def str_find_def)
next
  case (Some i)
  let ?st = "i + length sep1"
  from find_at_Some [OF Some] have st: "?st \<le> length data" by auto
  then have small: "size_add i (length sep1) = ?st" "i \<noteq> npos"
    using assms by (auto simp: size_add_def npos_def)
  have sh: "find_at sep2 (drop ?st data) ?st = map_option (\<lambda>j. j + ?st) (find_at sep2 (drop ?st data) 0)"
    using find_at_shift [of sep2 "drop ?st data" 0 ?st] by simp
  show ?thesis
  proof (cases "find_at sep2 (drop ?st data) 0")
    case None
    with Some st small sh show ?thesis by (simp add: extractBetween_def str_find_def)
  next
    case j: (Some j)
    from find_at_Some [OF j] st have "j + ?st \<le> length data" by auto
    then have "size_sub (j + ?st) ?st = j" "j + ?st \<noteq> npos"
      using assms by (auto simp: size_sub_def npos_def)
    with Some st small sh j show ?thesis by (simp add: extractBetween_def str_find_def substr_def)
  qed
qed

section \<open>The stream format\<close>

lemma dec_value_snoc: "dec_value (ds @ [d]) = 10 * dec_value ds + (ord d - 48)"
  by (simp add: dec_value_def)

lemma dec_digits_facts: "dec_value (dec_digits n) = n \<and> list_all isdigit (dec_digits n) \<and> dec_digits n \<noteq> []"
proof (induction n rule: dec_digits.induct)
  case (1 n)
  have digit: "isdigit (char_of (48 + k)) \<and> ord (char_of (48 + k)) - 48 = k" if "k < 10" for k :: nat
    using that by (simp add: isdigit_def)
  show ?case
  proof (cases "n < 10")
    case True
    with digit [of n] show ?thesis
      by (simp add: dec_digits.simps [of n] dec_value_def)
  next
    case False
    with 1 digit [of "n mod 10"] show ?thesis
      by (simp add: dec_digits.simps [of n] dec_value_snoc)
  qed
qed

lemma span_digits:
  assumes "list_all isdigit ds" "\<not> isdigit x"
  shows "takeWhile isdigit (ds @ x # xs) = ds" "dropWhile isdigit (ds @ x # xs) = x # xs"
  using assms by (induction ds) auto

lemma read_digits:
  assumes "n < 2 ^ 64" "\<not> failbit i" "rest i = dec_digits n @ CHR '' '' # xs"
  shows "read_unsigned old i = (n, \<lparr>rest = CHR '' '' # xs, failbit = False\<rparr>)"
proof -
  note f = dec_digits_facts [of n]
  have sp: "\<not> isdigit (CHR '' '')" by (simp add: isdigit_def)
  obtain d ds where d: "dec_digits n = d # ds" "isdigit d"
    using f by (cases "dec_digits n") auto
  then have d': "\<not> isspace d" "d \<noteq> CHR ''-''" "d \<noteq> CHR ''+''"
    by (auto simp: isdigit_def isspace_def)
  have "rest i = d # ds @ CHR '' '' # xs" using assms(3) d(1) by simp
  moreover have "takeWhile isdigit (d # ds @ CHR '' '' # xs) = d # ds"
    "dropWhile isdigit (d # ds @ CHR '' '' # xs) = CHR '' '' # xs"
    using span_digits [of "d # ds" "CHR '' ''" xs] f sp by (simp_all add: d(1))
  moreover have "dec_value (d # ds) = n" using f d(1) by simp
  ultimately show ?thesis
    using assms(1,2) d' d(2) by (simp add: read_unsigned_def Let_def)
qed

lemma readString_writeString:
  assumes "length s < 2 ^ 64" "\<not> failbit i" "rest i = writeString s @ xs"
  shows "readString i = Some (s, \<lparr>rest = xs, failbit = False\<rparr>)"
proof -
  have "read_unsigned 0 i = (length s, \<lparr>rest = CHR '' '' # s @ xs, failbit = False\<rparr>)"
    using read_digits [OF assms(1,2), of "s @ xs"] assms(3) by (simp add: writeString_def)
  then show ?thesis by (simp add: readString_def stream_get_def stream_read_def Let_def)
qed

lemma readLong_writeLong:
  assumes "l < 2 ^ 64" "\<not> failbit i" "rest i = writeLong l @ xs"
  shows "readLong junk i = (l, \<lparr>rest = xs, failbit = False\<rparr>)"
  using read_digits [OF assms(1,2), of xs] assms(3)
  by (simp add: readLong_def writeLong_def stream_get_def)

section \<open>Properties\<close>

text \<open>
  C19: Decoding an encoded string gives the string back, for every byte string, and the
  encoding only uses unreserved characters, \<^verbatim>\<open>+\<close> and \<^verbatim>\<open>%\<close>, so it never contains a
  separator of a form.
\<close>

theorem urlencode_roundtrip:
  "form_urldecode (form_urlencode s) = s \<and>
   set (form_urlencode s) \<subseteq> set unreserved \<union> {CHR ''+'', CHR ''%''}"
  using urldecode_urlencode_append [of s "[]"] form_urlencode_chars [of _ s] by auto

text \<open>
  The form library's case-insensitive comparisons: two strings are equal exactly when
  they agree up to the case of letters, and the bounded comparison holds exactly when both
  strings have that many characters and those agree up to case.
\<close>

theorem stringsAreEqual_correct:
  "stringsAreEqual s1 s2 = (map toupper s1 = map toupper s2) \<and>
   stringsAreEqual_n s1 s2 n =
     (n \<le> length s1 \<and> n \<le> length s2 \<and> map toupper (take n s1) = map toupper (take n s2))"
  by (simp add: stringsAreEqual_iff stringsAreEqual_n_iff)

end
