(* ===== verification/Cgicc_Form.thy ===== *)
theory Cgicc_Form
  imports Cgicc_Utils
begin

text \<open>
  The form library: \<^verbatim>\<open>FormEntry\<close>, \<^verbatim>\<open>FormFile\<close>, \<^verbatim>\<open>HTTPCookie\<close> and \<^verbatim>\<open>Cgicc\<close> of
  \<^verbatim>\<open>src/mucgi/cgicc_lib\<close>. The parsers work on positions in a string as the source does;
  \<open>None\<close> is an exception (\<^verbatim>\<open>runtime_error\<close> or \<^verbatim>\<open>out_of_range\<close>). The lemmas show that they
  compute the obvious splits, that the two parsers of URL-encoded forms and of cookies never
  throw, and the round trips with an encoder.
\<close>

section \<open>Form elements\<close>

record FormEntry =
  fe_name :: bytes
  fe_value :: bytes

definition new_FormEntry :: "bytes \<Rightarrow> bytes \<Rightarrow> FormEntry" where
  "new_FormEntry name value = \<lparr>fe_name = name, fe_value = value\<rparr>"

definition FormEntry_eq :: "FormEntry \<Rightarrow> FormEntry \<Rightarrow> bool" where
  "FormEntry_eq a b = stringsAreEqual (fe_name a) (fe_name b)"

definition fe_isEmpty :: "FormEntry \<Rightarrow> bool" where
  "fe_isEmpty e \<longleftrightarrow> 0 = length (fe_value e)"

text \<open>\<^verbatim>\<open>atol\<close> of a C string on a 64-bit \<^verbatim>\<open>long\<close>: out-of-range values saturate.\<close>

definition LONG_MAX :: int where "LONG_MAX = 2 ^ 63 - 1"
definition LONG_MIN :: int where "LONG_MIN = - (2 ^ 63)"

definition atol :: "bytes \<Rightarrow> int" where
  "atol s =
     (let r = dropWhile isspace (takeWhile (\<lambda>c. c \<noteq> NUL) s);
          (neg, ds) = (case r of
                         c # cs \<Rightarrow> if c = CHR ''-'' then (True, cs)
                                   else if c = CHR ''+'' then (False, cs) else (False, r)
                       | [] \<Rightarrow> (False, r));
          n = int (dec_value (takeWhile isdigit ds));
          v = (if neg then - n else n)
      in if LONG_MAX < v then LONG_MAX else if v < LONG_MIN then LONG_MIN else v)"

definition getIntegerValue :: "int \<Rightarrow> int \<Rightarrow> FormEntry \<Rightarrow> int" where
  "getIntegerValue mn mx e =
     (let value = atol (fe_value e)
      in if mx < value then mx else if value < mn then mn else value)"

definition getIntegerValue_bounded :: "int \<Rightarrow> int \<Rightarrow> FormEntry \<Rightarrow> int \<times> bool" where
  "getIntegerValue_bounded mn mx e =
     (let value = atol (fe_value e)
      in if mx < value then (mx, True) else if value < mn then (mn, True) else (value, False))"

text \<open>
  \<^verbatim>\<open>makeString\<close>: the inner loop counts a run of line breaks (it reads \<^verbatim>\<open>*end()\<close>, which is
  NUL, before it tests for the end), the outer loop copies until \<open>avail\<close> characters are out.
\<close>

definition is_newline :: "byte \<Rightarrow> bool" where
  "is_newline c \<longleftrightarrow> c = CR \<or> c = LF"

fun newline_run :: "bytes \<Rightarrow> nat \<Rightarrow> nat \<Rightarrow> nat \<times> nat \<times> bytes" where
  "newline_run [] crCount lfCount = (crCount, lfCount, [])"
| "newline_run (c # cs) crCount lfCount =
     (if is_newline c then
        (if c = CR then newline_run cs (Suc crCount) lfCount else newline_run cs crCount (Suc lfCount))
      else (crCount, lfCount, c # cs))"

lemma newline_run_length: "newline_run cs i j = (cr, lf, r) \<Longrightarrow> length r \<le> length cs"
  by (induction cs i j arbitrary: cr lf r rule: newline_run.induct) (auto split: if_splits)

lemma newline_run_less:
  assumes "(cr, lf, r) = newline_run src 0 0" "src \<noteq> []" "is_newline (hd src)"
  shows "length r < length src"
  using assms newline_run_length [of "tl src" _ _ cr lf r]
  by (cases src) (auto simp: less_Suc_eq_le split: if_splits)

function makeString_loop :: "bytes \<Rightarrow> nat \<Rightarrow> nat \<Rightarrow> bool \<Rightarrow> bytes \<Rightarrow> bytes" where
  "makeString_loop src len avail allowNewlines dst =
     (if src \<noteq> [] \<and> len < avail then
        (if is_newline (hd src) then
           (case newline_run src 0 0 of (crCount, lfCount, src') \<Rightarrow>
              (if allowNewlines then
                 (let lfsAdd = max crCount lfCount
                  in makeString_loop src' (len + lfsAdd) avail allowNewlines (dst @ replicate lfsAdd LF))
               else makeString_loop src' len avail allowNewlines dst))
         else makeString_loop (tl src) (Suc len) avail allowNewlines (dst @ [hd src]))
      else dst)"
  by pat_completeness auto
termination
  by (relation "measure (\<lambda>(src, _). length src)") (auto dest: newline_run_less)

declare makeString_loop.simps [simp del]

definition makeString :: "nat \<Rightarrow> bool \<Rightarrow> FormEntry \<Rightarrow> bytes" where
  "makeString maxLen allowNewlines e = makeString_loop (fe_value e) 0 maxLen allowNewlines []"

definition getValue_max :: "nat \<Rightarrow> FormEntry \<Rightarrow> bytes" where
  "getValue_max maxChars e = makeString maxChars True e"

definition getStrippedValue_max :: "nat \<Rightarrow> FormEntry \<Rightarrow> bytes" where
  "getStrippedValue_max maxChars e = makeString maxChars False e"

definition getStrippedValue :: "FormEntry \<Rightarrow> bytes" where
  "getStrippedValue e = getStrippedValue_max (2 ^ 31 - 1) e"

record FormFile =
  ff_name :: bytes
  ff_filename :: bytes
  ff_dataType :: bytes
  ff_data :: bytes

definition new_FormFile :: "bytes \<Rightarrow> bytes \<Rightarrow> bytes \<Rightarrow> bytes \<Rightarrow> FormFile" where
  "new_FormFile name filename dataType data =
     \<lparr>ff_name = name, ff_filename = filename,
      ff_dataType = (if dataType = [] then ''text/plain'' else dataType), ff_data = data\<rparr>"

definition FormFile_eq :: "FormFile \<Rightarrow> FormFile \<Rightarrow> bool" where
  "FormFile_eq a b \<longleftrightarrow>
     stringsAreEqual (ff_name a) (ff_name b) \<and> stringsAreEqual (ff_filename a) (ff_filename b) \<and>
     stringsAreEqual (ff_dataType a) (ff_dataType b)"

section \<open>Cookies\<close>

record HTTPCookie =
  hc_name :: bytes
  hc_value :: bytes
  hc_comment :: bytes
  hc_domain :: bytes
  hc_maxAge :: u64
  hc_path :: bytes
  hc_secure :: bool
  hc_removed :: bool

definition new_HTTPCookie :: "bytes \<Rightarrow> bytes \<Rightarrow> HTTPCookie" where
  "new_HTTPCookie name value =
     \<lparr>hc_name = name, hc_value = value, hc_comment = [], hc_domain = [], hc_maxAge = 0,
      hc_path = [], hc_secure = False, hc_removed = False\<rparr>"

definition new_HTTPCookie_full ::
  "bytes \<Rightarrow> bytes \<Rightarrow> bytes \<Rightarrow> bytes \<Rightarrow> u64 \<Rightarrow> bytes \<Rightarrow> bool \<Rightarrow> HTTPCookie" where
  "new_HTTPCookie_full name value comment domain maxAge path secure =
     \<lparr>hc_name = name, hc_value = value, hc_comment = comment, hc_domain = domain, hc_maxAge = maxAge,
      hc_path = path, hc_secure = secure, hc_removed = False\<rparr>"

definition HTTPCookie_eq :: "HTTPCookie \<Rightarrow> HTTPCookie \<Rightarrow> bool" where
  "HTTPCookie_eq a b \<longleftrightarrow>
     stringsAreEqual (hc_name a) (hc_name b) \<and> stringsAreEqual (hc_value a) (hc_value b) \<and>
     stringsAreEqual (hc_comment a) (hc_comment b) \<and> stringsAreEqual (hc_domain a) (hc_domain b) \<and>
     hc_maxAge a = hc_maxAge b \<and> stringsAreEqual (hc_path a) (hc_path b) \<and>
     hc_secure a = hc_secure b \<and> hc_removed a = hc_removed b"

definition render_cookie :: "HTTPCookie \<Rightarrow> bytes" where
  "render_cookie c =
     ''Set-Cookie:'' @ hc_name c @ ''='' @ hc_value c @
     (if hc_comment c \<noteq> [] then ''; Comment='' @ hc_comment c else []) @
     (if hc_domain c \<noteq> [] then ''; Domain='' @ hc_domain c else []) @
     (if hc_removed c then ''; Expires=Fri, 01-Jan-1971 01:00:00 GMT;''
      else if hc_maxAge c \<noteq> 0 then ''; Max-Age='' @ dec_digits (unat (hc_maxAge c)) else []) @
     (if hc_path c \<noteq> [] then ''; Path='' @ hc_path c else []) @
     (if hc_secure c then ''; Secure'' else []) @
     ''; Version=1''"

section \<open>The parser object\<close>

record Cgicc =
  fFormData :: "FormEntry list"
  fFormFiles :: "FormFile list"
  fCookies :: "HTTPCookie list"

record MultipartHeader =
  mh_disposition :: bytes
  mh_name :: bytes
  mh_filename :: bytes
  mh_contentType :: bytes

definition parseHeader :: "bytes \<Rightarrow> MultipartHeader option" where
  "parseHeader data = do {
     disposition \<leftarrow> extractBetween data ''Content-Disposition: '' '';'';
     name \<leftarrow> extractBetween data (''name='' @ [CHR 0x22]) [CHR 0x22];
     filename \<leftarrow> extractBetween data (''filename='' @ [CHR 0x22]) [CHR 0x22];
     cType \<leftarrow> extractBetween data ''Content-Type: '' [CR, LF, CR, LF];
     Some \<lparr>mh_disposition = disposition, mh_name = name, mh_filename = form_urldecode filename,
           mh_contentType = cType\<rparr>
   }"

definition parseMIME :: "bytes \<Rightarrow> Cgicc \<Rightarrow> Cgicc option" where
  "parseMIME data cgi = do {
     let headLimit = str_find data [CR, LF, CR, LF] 0;
     assert_opt (headLimit \<noteq> npos);
     let valueStart = size_add headLimit 4;
     value \<leftarrow> substr data valueStart (size_sub (size_sub (length data) valueStart) 2);
     h \<leftarrow> substr data 0 valueStart;
     head \<leftarrow> parseHeader h;
     Some (if mh_filename head = [] then
             cgi\<lparr>fFormData := fFormData cgi @ [new_FormEntry (mh_name head) value]\<rparr>
           else cgi\<lparr>fFormFiles := fFormFiles cgi @
                     [new_FormFile (mh_name head) (mh_filename head) (mh_contentType head) value]\<rparr>)
   }"

lemma str_find_found:
  assumes "str_find s pat pos = i" "i \<noteq> npos"
  shows "find_at pat (drop pos s) pos = Some i" "pos \<le> i" "i + length pat \<le> length s"
proof -
  show f: "find_at pat (drop pos s) pos = Some i"
    using assms by (auto simp: str_find_def split: if_splits option.splits)
  have "pos \<le> length s" using assms by (auto simp: str_find_def split: if_splits)
  with find_at_Some [OF f] show "pos \<le> i" "i + length pat \<le> length s" by auto
qed

text \<open>The loop over \<^verbatim>\<open>name=value\<close> pairs. A found position is inside the string, so \<^verbatim>\<open>++pos\<close> does not wrap.\<close>

function parse_urlencoded :: "bytes \<Rightarrow> nat \<Rightarrow> FormEntry list \<Rightarrow> FormEntry list option" where
  "parse_urlencoded data oldPos es =
     (let pos = str_find data ''='' oldPos in
      if pos = npos then Some es
      else do {
        name \<leftarrow> substr data oldPos (size_sub pos oldPos);
        let oldPos1 = Suc pos;
        let pos1 = str_find data ''&'' oldPos1;
        value \<leftarrow> substr data oldPos1 (size_sub pos1 oldPos1);
        let es' = es @ [new_FormEntry (form_urldecode name) (form_urldecode value)];
        if pos1 = npos then Some es' else parse_urlencoded data (Suc pos1) es'
      })"
  by pat_completeness auto
termination
proof (relation "measure (\<lambda>(data, oldPos, es). length data - oldPos)", goal_cases)
  case (2 data oldPos es pos x oldPos1 pos1 xa es')
  then show ?case
    using str_find_found [of data "''=''" oldPos pos] str_find_found [of data "''&''" oldPos1 pos1] by auto
qed simp

declare parse_urlencoded.simps [simp del]

function parse_multipart :: "bytes \<Rightarrow> bytes \<Rightarrow> nat \<Rightarrow> Cgicc \<Rightarrow> (nat \<times> Cgicc) option" where
  "parse_multipart data boundary oldPos cgi =
     (let sep1 = ''--'' @ boundary @ [CR, LF];
          pos = str_find data sep1 oldPos
      in if pos = npos then Some (oldPos, cgi)
         else do {
           part \<leftarrow> substr data oldPos (size_sub pos oldPos);
           cgi' \<leftarrow> parseMIME part cgi;
           parse_multipart data boundary (pos + length sep1) cgi'
         })"
  by pat_completeness auto
termination
proof (relation "measure (\<lambda>(data, b, oldPos, cgi). length data - oldPos)", goal_cases)
  case (2 data boundary oldPos cgi sep1 pos x xa)
  then show ?case using str_find_found [of data sep1 oldPos pos] by auto
qed simp

declare parse_multipart.simps [simp del]

definition standard_type :: bytes where
  "standard_type = ''application/x-www-form-urlencoded''"

definition multipart_type :: bytes where
  "multipart_type = ''multipart/form-data''"

definition parseFormInput :: "bytes \<Rightarrow> bytes \<Rightarrow> Cgicc \<Rightarrow> Cgicc option" where
  "parseFormInput data content_type cgi =
     (if data = [] then Some cgi
      else if content_type = [] \<or> stringsAreEqual_n content_type standard_type (length standard_type)
      then do {
        es \<leftarrow> parse_urlencoded data 0 (fFormData cgi);
        Some (cgi\<lparr>fFormData := es\<rparr>)
      }
      else if stringsAreEqual_n multipart_type content_type (length multipart_type)
      then do {
        let bType = ''boundary='';
        let pos = str_find content_type bType 0;
        boundary \<leftarrow> substr content_type (size_add pos (length bType)) npos;
        let sep1 = ''--'' @ boundary @ [CR, LF];
        let sep2 = ''--'' @ boundary @ ''--'' @ [CR, LF];
        let start = str_find data sep1 0;
        (oldPos, cgi') \<leftarrow> parse_multipart data boundary (size_add start (length sep1)) cgi;
        let pos' = str_find data sep2 oldPos;
        if npos \<noteq> pos' then do {
          part \<leftarrow> substr data oldPos (size_sub pos' oldPos);
          parseMIME part cgi'
        }
        else Some cgi'
      }
      else Some cgi)"

text \<open>The count of leading white space is the length of \<open>takeWhile\<close>.\<close>

definition parseCookie :: "bytes \<Rightarrow> HTTPCookie list \<Rightarrow> HTTPCookie list option" where
  "parseCookie data cs =
     (let pos = str_find data ''='' 0 in
      if npos = pos then Some cs
      else do {
        let wscount = length (takeWhile isspace data);
        name \<leftarrow> substr data wscount (size_sub pos wscount);
        value \<leftarrow> substr data (Suc pos) npos;
        Some (cs @ [new_HTTPCookie name value])
      })"

function parse_cookies_loop :: "bytes \<Rightarrow> nat \<Rightarrow> HTTPCookie list \<Rightarrow> HTTPCookie list option" where
  "parse_cookies_loop data oldPos cs =
     (let pos = str_find data '';'' oldPos in
      if npos = pos then do { s \<leftarrow> substr data oldPos npos; parseCookie s cs }
      else do {
        s \<leftarrow> substr data oldPos (size_sub pos oldPos);
        cs' \<leftarrow> parseCookie s cs;
        parse_cookies_loop data (Suc pos) cs'
      })"
  by pat_completeness auto
termination
proof (relation "measure (\<lambda>(data, oldPos, cs). length data - oldPos)", goal_cases)
  case (2 data oldPos cs pos x xa)
  then show ?case using str_find_found [of data "'';''" oldPos pos] by auto
qed simp

declare parse_cookies_loop.simps [simp del]

definition parseCookies :: "bytes \<Rightarrow> HTTPCookie list \<Rightarrow> HTTPCookie list option" where
  "parseCookies data cs = (if data \<noteq> [] then parse_cookies_loop data 0 cs else Some cs)"

definition new_Cgicc :: "bytes \<Rightarrow> bytes \<Rightarrow> bytes \<Rightarrow> bytes \<Rightarrow> Cgicc option" where
  "new_Cgicc query cookie data type = do {
     c1 \<leftarrow> parseFormInput data type \<lparr>fFormData = [], fFormFiles = [], fCookies = []\<rparr>;
     c2 \<leftarrow> parseFormInput query standard_type c1;
     cs \<leftarrow> parseCookies cookie (fCookies c2);
     Some (c2\<lparr>fCookies := cs\<rparr>)
   }"

section \<open>Queries\<close>

definition getElement :: "bytes \<Rightarrow> Cgicc \<Rightarrow> FormEntry option" where
  "getElement name cgi = find (\<lambda>e. stringsAreEqual name (fe_name e)) (fFormData cgi)"

definition getElementByValue :: "bytes \<Rightarrow> Cgicc \<Rightarrow> FormEntry option" where
  "getElementByValue value cgi = find (\<lambda>e. stringsAreEqual value (fe_value e)) (fFormData cgi)"

definition getFile :: "bytes \<Rightarrow> Cgicc \<Rightarrow> FormFile option" where
  "getFile name cgi = find (\<lambda>f. stringsAreEqual name (ff_name f)) (fFormFiles cgi)"

definition findEntries :: "bytes \<Rightarrow> bool \<Rightarrow> Cgicc \<Rightarrow> bool \<times> FormEntry list" where
  "findEntries param byName cgi =
     (let result = (if byName then filter (\<lambda>e. stringsAreEqual param (fe_name e)) (fFormData cgi)
                    else filter (\<lambda>e. stringsAreEqual param (fe_value e)) (fFormData cgi))
      in (result \<noteq> [], result))"

definition queryCheckbox :: "bytes \<Rightarrow> Cgicc \<Rightarrow> bool" where
  "queryCheckbox elementName cgi =
     (case getElement elementName cgi of
        None \<Rightarrow> False
      | Some e \<Rightarrow> stringsAreEqual (fe_value e) ''on'')"

definition value_of :: "bytes \<Rightarrow> Cgicc \<Rightarrow> bytes" where
  "value_of name cgi =
     (case getElement name cgi of
        None \<Rightarrow> []
      | Some e \<Rightarrow> if \<not> fe_isEmpty e then fe_value e else [])"

section \<open>URL-encoded forms\<close>

text \<open>The split the loop computes: names end at \<^verbatim>\<open>=\<close>, values at \<^verbatim>\<open>&\<close>.\<close>

function form_pairs :: "bytes \<Rightarrow> (bytes \<times> bytes) list" where
  "form_pairs s =
     (if CHR ''='' \<in> set s then
        (let n = takeWhile (\<lambda>c. c \<noteq> CHR ''='') s;
             r = drop (Suc (length n)) s
         in if CHR ''&'' \<in> set r then
              (let v = takeWhile (\<lambda>c. c \<noteq> CHR ''&'') r in (n, v) # form_pairs (drop (Suc (length v)) r))
            else [(n, r)])
      else [])"
  by pat_completeness auto
termination
  by (relation "measure length") (auto simp: Let_def dest: length_pos_if_in_set)

declare form_pairs.simps [simp del]

definition decode_pair :: "bytes \<times> bytes \<Rightarrow> FormEntry" where
  "decode_pair p = new_FormEntry (form_urldecode (fst p)) (form_urldecode (snd p))"

lemma substr_between:
  assumes "pos + n \<le> length s" "length s < npos"
  shows "substr s pos (size_sub (pos + n) pos) = Some (take n (drop pos s))"
  using assms by (simp add: substr_def size_sub_def npos_def)

lemma substr_to_end:
  assumes "pos \<le> length s" "length s < npos"
  shows "substr s pos (size_sub npos pos) = Some (drop pos s)"
proof -
  have "size_sub npos pos = npos - pos"
    using assms by (intro size_sub_small) (simp_all add: npos_def)
  with assms show ?thesis by (simp add: substr_def)
qed

lemma take_takeWhile [simp]: "take (length (takeWhile P xs)) xs = takeWhile P xs"
  by (metis takeWhile_eq_take)

lemma takeWhile_less: "c \<in> set xs \<Longrightarrow> length (takeWhile (\<lambda>x. x \<noteq> c) xs) < length xs"
  by (induction xs) auto

lemma parse_urlencoded_eq:
  assumes "length data < npos" "oldPos \<le> length data"
  shows "parse_urlencoded data oldPos es = Some (es @ map decode_pair (form_pairs (drop oldPos data)))"
  using assms(2)
proof (induction "length data - oldPos" arbitrary: oldPos es rule: less_induct)
  case less
  let ?s = "drop oldPos data"
  let ?n = "takeWhile (\<lambda>c. c \<noteq> CHR ''='') ?s"
  let ?p = "oldPos + length ?n"
  let ?r = "drop (Suc ?p) data"
  let ?v = "takeWhile (\<lambda>c. c \<noteq> CHR ''&'') ?r"
  let ?q = "Suc ?p + length ?v"
  show ?case
  proof (cases "CHR ''='' \<in> set ?s")
    case False
    then show ?thesis
      using less.prems by (simp add: parse_urlencoded.simps [of data oldPos] str_find_char form_pairs.simps [of ?s])
  next
    case True
    then have lt: "?p < length data"
      using takeWhile_less [of "CHR ''=''" ?s] by simp
    have eq: "str_find data ''='' oldPos = ?p" "?p \<noteq> npos"
      using True less.prems lt assms(1) by (simp_all add: str_find_char)
    have n: "substr data oldPos (size_sub ?p oldPos) = Some ?n"
      using substr_between [of oldPos "length ?n" data] lt assms(1) by simp
    have r: "drop (Suc (length ?n)) ?s = ?r" by (simp add: add.commute)
    show ?thesis
    proof (cases "CHR ''&'' \<in> set ?r")
      case amp: False
      then have "str_find data ''&'' (Suc ?p) = npos" using lt by (simp add: str_find_char)
      moreover have "substr data (Suc ?p) (size_sub npos (Suc ?p)) = Some ?r"
        using substr_to_end [of "Suc ?p" data] lt assms(1) by simp
      ultimately show ?thesis
        using True amp eq n r
        by (simp add: parse_urlencoded.simps [of data oldPos] form_pairs.simps [of ?s] decode_pair_def Let_def)
    next
      case amp: True
      then have q: "?q < length data"
        using takeWhile_less [of "CHR ''&''" ?r] by simp
      have amp_at: "str_find data ''&'' (Suc ?p) = ?q" "?q \<noteq> npos"
        using amp lt q assms(1) by (simp_all add: str_find_char)
      have v: "substr data (Suc ?p) (size_sub ?q (Suc ?p)) = Some ?v"
        using substr_between [of "Suc ?p" "length ?v" data] q assms(1) by simp
      have "parse_urlencoded data oldPos es = parse_urlencoded data (Suc ?q) (es @ [decode_pair (?n, ?v)])"
        using eq n amp_at v by (simp add: parse_urlencoded.simps [of data oldPos] decode_pair_def Let_def)
      also have "\<dots> = Some ((es @ [decode_pair (?n, ?v)]) @ map decode_pair (form_pairs (drop (Suc ?q) data)))"
        using q by (intro less.hyps) auto
      also have "drop (Suc ?q) data = drop (Suc (length ?v)) ?r" by (simp add: add.commute)
      finally show ?thesis
        using True amp r by (simp add: form_pairs.simps [of ?s] Let_def)
    qed
  qed
qed

text \<open>An encoder for forms, and the round trip.\<close>

definition enc_form_pair :: "bytes \<times> bytes \<Rightarrow> bytes" where
  "enc_form_pair p = form_urlencode (fst p) @ ''='' @ form_urlencode (snd p)"

fun enc_form :: "(bytes \<times> bytes) list \<Rightarrow> bytes" where
  "enc_form [] = []"
| "enc_form [p] = enc_form_pair p"
| "enc_form (p # ps) = enc_form_pair p @ ''&'' @ enc_form ps"

lemma urlencode_no_sep:
  "CHR ''='' \<notin> set (form_urlencode s)" "CHR ''&'' \<notin> set (form_urlencode s)"
  using form_urlencode_chars [of "CHR ''=''" s] form_urlencode_chars [of "CHR ''&''" s]
  by (auto simp: unreserved_def)

lemma takeWhile_stop: "c \<notin> set xs \<Longrightarrow> takeWhile (\<lambda>x. x \<noteq> c) (xs @ c # ys) = xs"
  by (induction xs) auto

lemma form_pairs_last:
  assumes "CHR ''='' \<notin> set n" "CHR ''&'' \<notin> set v"
  shows "form_pairs (n @ CHR ''='' # v) = [(n, v)]"
  using assms takeWhile_stop [OF assms(1), of v]
  by (simp add: form_pairs.simps [of "n @ CHR ''='' # v"] Let_def)

lemma form_pairs_more:
  assumes "CHR ''='' \<notin> set n" "CHR ''&'' \<notin> set v"
  shows "form_pairs (n @ CHR ''='' # v @ CHR ''&'' # r) = (n, v) # form_pairs r"
  using assms takeWhile_stop [OF assms(1), of "v @ CHR ''&'' # r"] takeWhile_stop [OF assms(2), of r]
  by (simp add: form_pairs.simps [of "n @ CHR ''='' # v @ CHR ''&'' # r"] Let_def)

lemma form_pairs_enc:
  "form_pairs (enc_form ps) = map (\<lambda>p. (form_urlencode (fst p), form_urlencode (snd p))) ps"
proof (induction ps rule: enc_form.induct)
  case 1
  then show ?case by (simp add: form_pairs.simps)
qed (simp_all add: enc_form_pair_def form_pairs_last form_pairs_more urlencode_no_sep)

lemma enc_form_eq_Nil [simp]: "enc_form ps = [] \<longleftrightarrow> ps = []"
  by (cases ps rule: enc_form.cases) (auto simp: enc_form_pair_def)

lemma parse_enc_form:
  assumes "length (enc_form ps) < npos"
  shows "parse_urlencoded (enc_form ps) 0 es = Some (es @ map (\<lambda>p. new_FormEntry (fst p) (snd p)) ps)"
proof -
  have "decode_pair (form_urlencode a, form_urlencode b) = new_FormEntry a b" for a b
    using urldecode_urlencode_append [of _ "[]"] by (simp add: decode_pair_def)
  with parse_urlencoded_eq [OF assms] show ?thesis by (simp add: form_pairs_enc comp_def)
qed

section \<open>Cookies\<close>

text \<open>The pieces between semicolons, and the cookie in a piece, if it has an equals sign.\<close>

function cookie_pieces :: "bytes \<Rightarrow> bytes list" where
  "cookie_pieces s =
     (if CHR '';'' \<in> set s then
        (let p = takeWhile (\<lambda>c. c \<noteq> CHR '';'') s in p # cookie_pieces (drop (Suc (length p)) s))
      else [s])"
  by pat_completeness auto
termination
  by (relation "measure length") (auto dest: length_pos_if_in_set)

declare cookie_pieces.simps [simp del]

definition cookie_of :: "bytes \<Rightarrow> HTTPCookie list" where
  "cookie_of s =
     (if CHR ''='' \<in> set s then
        [new_HTTPCookie (dropWhile isspace (takeWhile (\<lambda>c. c \<noteq> CHR ''='') s))
           (drop (Suc (length (takeWhile (\<lambda>c. c \<noteq> CHR ''='') s))) s)]
      else [])"

lemma parseCookie_eq:
  assumes "length s < npos"
  shows "parseCookie s cs = Some (cs @ cookie_of s)"
proof (cases "CHR ''='' \<in> set s")
  case False
  then show ?thesis by (simp add: parseCookie_def cookie_of_def str_find_char)
next
  case True
  then obtain n v where s: "s = n @ CHR ''='' # v" "CHR ''='' \<notin> set n"
    by (metis split_list_first)
  then have n: "takeWhile (\<lambda>c. c \<noteq> CHR ''='') s = n" by (simp add: takeWhile_stop)
  have pos: "str_find s ''='' 0 = length n" "length n \<noteq> npos"
    using s n assms by (simp_all add: str_find_char)
  have ws: "takeWhile isspace s = takeWhile isspace n" "length (takeWhile isspace n) \<le> length n"
    by (auto simp: s(1) takeWhile_tail isspace_def length_takeWhile_le)
  then obtain k where k: "length n = length (takeWhile isspace n) + k" by (auto simp: le_iff_add)
  then have "dropWhile isspace n = take k (drop (length (takeWhile isspace n)) s)"
    by (simp add: s(1) dropWhile_eq_drop)
  then have "substr s (length (takeWhile isspace n)) (size_sub (length n) (length (takeWhile isspace n)))
      = Some (dropWhile isspace n)"
    using substr_between [of "length (takeWhile isspace n)" k s] k s(1) assms by simp
  moreover have "substr s (Suc (length n)) npos = Some v"
    using assms by (simp add: substr_def s(1))
  ultimately show ?thesis
    using True pos n ws(1) by (simp add: parseCookie_def cookie_of_def s(1))
qed

lemma parse_cookies_loop_eq:
  assumes "length data < npos" "oldPos \<le> length data"
  shows "parse_cookies_loop data oldPos cs = Some (cs @ concat (map cookie_of (cookie_pieces (drop oldPos data))))"
  using assms(2)
proof (induction "length data - oldPos" arbitrary: oldPos cs rule: less_induct)
  case less
  let ?s = "drop oldPos data"
  let ?p = "takeWhile (\<lambda>c. c \<noteq> CHR '';'') ?s"
  let ?q = "oldPos + length ?p"
  show ?case
  proof (cases "CHR '';'' \<in> set ?s")
    case False
    moreover have "substr data oldPos npos = Some ?s"
      using less.prems assms(1) by (simp add: substr_def)
    ultimately show ?thesis
      using less.prems assms(1)
      by (simp add: parse_cookies_loop.simps [of data oldPos] str_find_char cookie_pieces.simps [of ?s]
          parseCookie_eq)
  next
    case True
    then have lt: "?q < length data" using takeWhile_less [of "CHR '';''" ?s] by simp
    have at: "str_find data '';'' oldPos = ?q" "?q \<noteq> npos"
      using True less.prems lt assms(1) by (simp_all add: str_find_char)
    have p: "substr data oldPos (size_sub ?q oldPos) = Some ?p"
      using substr_between [of oldPos "length ?p" data] lt assms(1) by simp
    have "length ?p < npos" using lt assms(1) by simp
    then have "parse_cookies_loop data oldPos cs = parse_cookies_loop data (Suc ?q) (cs @ cookie_of ?p)"
      using at p by (simp add: parse_cookies_loop.simps [of data oldPos] parseCookie_eq)
    also have "\<dots> = Some ((cs @ cookie_of ?p) @ concat (map cookie_of (cookie_pieces (drop (Suc ?q) data))))"
      using lt by (intro less.hyps) auto
    also have "drop (Suc ?q) data = drop (Suc (length ?p)) ?s" by (simp add: add.commute)
    finally show ?thesis
      using True by (simp add: cookie_pieces.simps [of ?s] Let_def)
  qed
qed

lemma parseCookies_eq:
  assumes "length data < npos"
  shows "parseCookies data cs = Some (cs @ concat (map cookie_of (cookie_pieces data)))"
proof (cases "data = []")
  case True
  then show ?thesis by (simp add: parseCookies_def cookie_pieces.simps [of "[]"] cookie_of_def)
next
  case False
  then show ?thesis using parse_cookies_loop_eq [OF assms, of 0] by (simp add: parseCookies_def)
qed

text \<open>The header a client sends for a list of cookies, and the round trip.\<close>

fun enc_cookies :: "(bytes \<times> bytes) list \<Rightarrow> bytes" where
  "enc_cookies [] = []"
| "enc_cookies [(n, v)] = n @ ''='' @ v"
| "enc_cookies ((n, v) # cs) = n @ ''='' @ v @ ''; '' @ enc_cookies cs"

definition cookie_ok :: "bytes \<times> bytes \<Rightarrow> bool" where
  "cookie_ok c \<longleftrightarrow>
     CHR ''='' \<notin> set (fst c) \<and> CHR '';'' \<notin> set (fst c) \<and> CHR '';'' \<notin> set (snd c) \<and>
     fst c \<noteq> [] \<and> \<not> isspace (hd (fst c))"

lemma cookie_of_enc:
  assumes "cookie_ok (n, v)" "list_all isspace ws"
  shows "cookie_of (ws @ n @ CHR ''='' # v) = [new_HTTPCookie n v]"
proof -
  have "CHR ''='' \<notin> set (ws @ n)" using assms by (auto simp: cookie_ok_def list_all_iff isspace_def)
  then have "takeWhile (\<lambda>c. c \<noteq> CHR ''='') (ws @ n @ CHR ''='' # v) = ws @ n"
    using takeWhile_stop [of "CHR ''=''" "ws @ n" v] by simp
  moreover have "dropWhile isspace (ws @ n) = n"
    using assms by (cases n) (auto simp: cookie_ok_def list_all_iff dropWhile_append3)
  ultimately show ?thesis by (simp add: cookie_of_def)
qed

lemma cookie_pieces_more:
  assumes "CHR '';'' \<notin> set p"
  shows "cookie_pieces (p @ CHR '';'' # r) = p # cookie_pieces r"
  using takeWhile_stop [OF assms, of r] by (simp add: cookie_pieces.simps [of "p @ CHR '';'' # r"] Let_def)

lemma cookie_pieces_enc:
  assumes "list_all cookie_ok cs" "list_all isspace ws" "cs \<noteq> []"
  shows "concat (map cookie_of (cookie_pieces (ws @ enc_cookies cs))) = map (\<lambda>c. new_HTTPCookie (fst c) (snd c)) cs"
  using assms
proof (induction cs arbitrary: ws rule: enc_cookies.induct)
  case (2 n v)
  then have "CHR '';'' \<notin> set (ws @ n @ CHR ''='' # v)"
    by (auto simp: cookie_ok_def list_all_iff isspace_def)
  with 2 show ?case
    by (simp add: cookie_pieces.simps [of "ws @ n @ CHR ''='' # v"] cookie_of_enc)
next
  case (3 n v c cs)
  let ?p = "ws @ n @ CHR ''='' # v" and ?r = "CHR '' '' # enc_cookies (c # cs)"
  have "CHR '';'' \<notin> set ?p" using 3 by (auto simp: cookie_ok_def list_all_iff isspace_def)
  then have "cookie_pieces (?p @ CHR '';'' # ?r) = ?p # cookie_pieces ?r"
    by (rule cookie_pieces_more)
  moreover have "concat (map cookie_of (cookie_pieces ([CHR '' ''] @ enc_cookies (c # cs))))
      = map (\<lambda>c. new_HTTPCookie (fst c) (snd c)) (c # cs)"
    using 3 by (intro "3.IH") (simp_all add: isspace_def)
  ultimately show ?case using 3 by (simp add: cookie_of_enc)
qed simp
section \<open>Form values\<close>

lemma newline_run_rest: "newline_run cs i j = (cr, lf, r) \<Longrightarrow> r = dropWhile is_newline cs"
  by (induction cs i j arbitrary: cr lf r rule: newline_run.induct) (auto split: if_splits)

lemma filter_dropWhile: "filter (\<lambda>c. \<not> P c) (dropWhile P xs) = filter (\<lambda>c. \<not> P c) xs"
  by (induction xs) auto

text \<open>Without newlines, \<^verbatim>\<open>makeString\<close> cuts the value with its line breaks removed.\<close>

lemma makeString_loop_stripped:
  "makeString_loop src len avail False dst = dst @ take (avail - len) (filter (\<lambda>c. \<not> is_newline c) src)"
proof (induction "length src" arbitrary: src len dst rule: less_induct)
  case less
  show ?case
  proof (cases "src \<noteq> [] \<and> len < avail")
    case False
    then show ?thesis by (auto simp: makeString_loop.simps [of src])
  next
    case go: True
    show ?thesis
    proof (cases "is_newline (hd src)")
      case True
      obtain cr lf r where run: "newline_run src 0 0 = (cr, lf, r)" by (metis prod_cases3)
      with go True have "makeString_loop src len avail False dst = makeString_loop r len avail False dst"
        by (simp add: makeString_loop.simps [of src])
      also have "\<dots> = dst @ take (avail - len) (filter (\<lambda>c. \<not> is_newline c) r)"
        using newline_run_less [OF run [symmetric]] go True by (intro less) simp
      finally show ?thesis
        using newline_run_rest [OF run] by (simp add: filter_dropWhile)
    next
      case False
      then have "makeString_loop src len avail False dst
          = makeString_loop (tl src) (Suc len) avail False (dst @ [hd src])"
        using go by (simp add: makeString_loop.simps [of src])
      moreover have "makeString_loop (tl src) (Suc len) avail False (dst @ [hd src])
          = (dst @ [hd src]) @ take (avail - Suc len) (filter (\<lambda>c. \<not> is_newline c) (tl src))"
        using go by (intro less) simp
      moreover have "avail - len = Suc (avail - Suc len)" using go by (simp add: Suc_diff_Suc)
      ultimately show ?thesis
        using go False by (cases src) auto
    qed
  qed
qed

section \<open>Multipart forms\<close>

lemma find_at_eq_Some:
  assumes "take (length pat) (drop j xs) = pat" "j + length pat \<le> length xs"
    and "\<And>k. k < j \<Longrightarrow> take (length pat) (drop k xs) \<noteq> pat"
  shows "find_at pat xs 0 = Some j"
proof (cases "find_at pat xs 0")
  case None
  with find_at_None [OF None assms(2)] assms(1) show ?thesis by simp
next
  case (Some i)
  from find_at_Some [OF Some] have "take (length pat) (drop i xs) = pat" by simp
  then have "\<not> i < j" using assms(3) by blast
  moreover have "\<not> j < i" using find_at_least [OF Some, of j] assms(1) by auto
  ultimately show ?thesis using Some by simp
qed

lemma find_at_absent: "c \<in> set pat \<Longrightarrow> c \<notin> set xs \<Longrightarrow> find_at pat xs i = None"
proof (rule ccontr)
  assume c: "c \<in> set pat" "c \<notin> set xs" and "find_at pat xs i \<noteq> None"
  then obtain j where "find_at pat xs i = Some j" by blast
  then have "pat = take (length pat) (drop (j - i) xs)" using find_at_Some by metis
  with c show False by (metis in_set_dropD in_set_takeD)
qed

text \<open>A text is delimited by a pattern if the pattern first occurs right after it.\<close>

definition delimited :: "bytes \<Rightarrow> bytes \<Rightarrow> bool" where
  "delimited pat x \<longleftrightarrow> find_at pat (x @ pat) 0 = Some (length x)"

lemma take_prefixD:
  assumes "take (length (a @ b)) z = a @ b"
  shows "take (length a) z = a"
proof -
  have "take (length a) (take (length (a @ b)) z) = take (length a) (a @ b)" by (simp only: assms)
  then show ?thesis by simp
qed

lemma delimited_no_earlier:
  assumes "delimited pat x" "k < length x"
  shows "take (length (pat @ suf)) (drop k (x @ pat @ y)) \<noteq> pat @ suf"
proof
  assume "take (length (pat @ suf)) (drop k (x @ pat @ y)) = pat @ suf"
  then have "take (length pat) (drop k (x @ pat @ y)) = pat" by (rule take_prefixD)
  moreover have "take (length pat) (drop k (x @ pat @ y)) = take (length pat) (drop k (x @ pat))"
    using assms(2) by simp
  ultimately show False
    using find_at_least [of pat "x @ pat" 0 "length x" k] assms by (simp add: delimited_def)
qed

lemma find_delimiter:
  assumes "delimited pat x"
  shows "find_at (pat @ suf) (x @ pat @ suf @ y) 0 = Some (length x)"
proof (rule find_at_eq_Some)
  show "take (length (pat @ suf)) (drop k (x @ pat @ suf @ y)) \<noteq> pat @ suf" if "k < length x" for k
    using delimited_no_earlier [OF assms that, of suf "suf @ y"] by simp
qed simp_all

lemma str_find_after:
  assumes "find_at pat xs 0 = Some j" "length (pre @ xs) < npos"
  shows "str_find (pre @ xs) pat (length pre) = length pre + j"
proof -
  have "find_at pat xs (length pre) = Some (length pre + j)"
    using find_at_shift [of pat xs 0 "length pre"] assms(1) by (simp add: add.commute)
  then show ?thesis by (simp add: str_find_def)
qed

lemma str_find_none_after:
  assumes "find_at pat xs 0 = None"
  shows "str_find (pre @ xs) pat (length pre) = npos"
  using find_at_shift [of pat xs 0 "length pre"] assms by (simp add: str_find_def)
text \<open>A client's encoding of a form of text fields, one part each.\<close>

definition part_header :: "bytes \<Rightarrow> bytes" where
  "part_header name =
     ''Content-Disposition: form-data; name='' @ [CHR 0x22] @ name @ [CHR 0x22, CR, LF, CR, LF]"

definition enc_part :: "bytes \<times> bytes \<Rightarrow> bytes" where
  "enc_part p = part_header (fst p) @ snd p @ [CR, LF]"

definition sep1 :: "bytes \<Rightarrow> bytes" where
  "sep1 b = (''--'' @ b) @ [CR, LF]"

definition sep2 :: "bytes \<Rightarrow> bytes" where
  "sep2 b = (''--'' @ b) @ ''--'' @ [CR, LF]"

fun parts_tail :: "bytes \<Rightarrow> (bytes \<times> bytes) list \<Rightarrow> bytes" where
  "parts_tail b [] = []"
| "parts_tail b [p] = enc_part p @ sep2 b"
| "parts_tail b (p # ps) = enc_part p @ sep1 b @ parts_tail b ps"

definition enc_multipart :: "bytes \<Rightarrow> (bytes \<times> bytes) list \<Rightarrow> bytes" where
  "enc_multipart b ps = sep1 b @ parts_tail b ps"

definition part_ok :: "bytes \<Rightarrow> bytes \<times> bytes \<Rightarrow> bool" where
  "part_ok b p \<longleftrightarrow>
     set (fst p) \<inter> {CHR 0x22, CHR ''='', CR} = {} \<and> delimited (''--'' @ b) (enc_part p)"

lemma find_at_head_absent:
  assumes "pat \<noteq> []" "hd pat \<notin> set x"
  shows "find_at pat (x @ pat @ y) 0 = Some (length x)"
proof (rule find_at_eq_Some)
  show "take (length pat) (drop k (x @ pat @ y)) \<noteq> pat" if k: "k < length x" for k
  proof
    assume "take (length pat) (drop k (x @ pat @ y)) = pat"
    then have "hd pat = hd (drop k (x @ pat @ y))" using assms(1) by (metis hd_take length_greater_0_conv)
    also have "\<dots> = x ! k" using k by (simp add: hd_drop_conv_nth nth_append)
    finally show False using assms(2) k by simp
  qed
qed simp_all

lemma parseHeader_part:
  assumes "set name \<inter> {CHR 0x22, CHR ''='', CR} = {}" "length (part_header name) < npos"
  shows "\<exists>h. parseHeader (part_header name) = Some h \<and> mh_name h = name \<and> mh_filename h = []"
proof -
  let ?q = "CHR 0x22"
  have n: "find_at (''name='' @ [?q]) (part_header name) 0 = Some 32"
    by (simp add: part_header_def)
  have "find_at [?q] (name @ ?q # [CR, LF, CR, LF]) 0 = Some (length name)"
    using assms(1) by (simp add: find_at_char takeWhile_stop)
  then have name: "extractBetween (part_header name) (''name='' @ [?q]) [?q] = Some name"
    using n by (simp add: extractBetween_eq [OF assms(2)]) (simp add: part_header_def)
  have "find_at (''filename='' @ [?q]) (name @ [?q, CR, LF, CR, LF]) i = None" for i
    using assms(1) by (intro find_at_absent [of "CHR ''=''"]) auto
  then have "find_at (''filename='' @ [?q]) (part_header name) 0 = None"
    by (simp add: part_header_def)
  then have "extractBetween (part_header name) (''filename='' @ [?q]) [?q] = Some []"
    by (simp add: extractBetween_eq [OF assms(2)])
  with name show ?thesis
    by (simp add: parseHeader_def extractBetween_eq [OF assms(2)])
qed

lemma parseMIME_part:
  assumes "set (fst p) \<inter> {CHR 0x22, CHR ''='', CR} = {}" "length (enc_part p) < npos"
  shows "parseMIME (enc_part p) cgi =
    Some (cgi\<lparr>fFormData := fFormData cgi @ [new_FormEntry (fst p) (snd p)]\<rparr>)"
proof -
  let ?e = "[CR, LF, CR, LF]" and ?pre = "''Content-Disposition: form-data; name='' @ [CHR 0x22] @ fst p @ [CHR 0x22]"
  have h: "part_header (fst p) = ?pre @ ?e" by (simp add: part_header_def)
  have "CR \<notin> set ?pre" using assms(1) by auto
  then have "find_at ?e (?pre @ ?e @ snd p @ [CR, LF]) 0 = Some (length ?pre)"
    by (intro find_at_head_absent) simp_all
  then have "find_at ?e (enc_part p) 0 = Some (length ?pre)"
    by (simp add: enc_part_def part_header_def)
  then have lim: "str_find (enc_part p) ?e 0 = length ?pre"
    using str_find_after [of ?e "enc_part p" "length ?pre" "[]"] assms(2) by simp
  have len: "length (enc_part p) = length (part_header (fst p)) + length (snd p) + 2"
    by (simp add: enc_part_def)
  have vs: "size_add (length ?pre) 4 = length (part_header (fst p))"
    using assms(2) len by (simp add: size_add_def npos_def h)
  have "size_sub (length (enc_part p)) (length (part_header (fst p))) = length (snd p) + 2"
    "size_sub (length (snd p) + 2) 2 = length (snd p)"
    using size_sub_small [of "length (part_header (fst p))" "length (enc_part p)"]
      size_sub_small [of 2 "length (snd p) + 2"] assms(2) len by (simp_all add: npos_def)
  then have v: "substr (enc_part p) (length (part_header (fst p)))
      (size_sub (size_sub (length (enc_part p)) (length (part_header (fst p)))) 2) = Some (snd p)"
    by (simp add: substr_def enc_part_def)
  have hd: "substr (enc_part p) 0 (length (part_header (fst p))) = Some (part_header (fst p))"
    by (simp add: substr_def enc_part_def)
  have "length (part_header (fst p)) < npos" using assms(2) len by simp
  from parseHeader_part [OF assms(1) this] obtain hh where
    "parseHeader (part_header (fst p)) = Some hh" "mh_name hh = fst p" "mh_filename hh = []" by blast
  moreover have "length ?pre \<noteq> npos" using assms(2) len h by auto
  ultimately show ?thesis
    using lim vs v hd by (simp add: parseMIME_def Let_def)
qed

text \<open>The closing separator does not contain the inner one unless the boundary is all dashes.\<close>

lemma no_sep1_in_sep2:
  assumes "b @ ''--'' \<noteq> ''--'' @ b" "j + length (sep1 b) \<le> length (sep2 b)"
  shows "take (length (sep1 b)) (drop j (sep2 b)) \<noteq> sep1 b"
proof
  assume eq: "take (length (sep1 b)) (drop j (sep2 b)) = sep1 b"
  let ?m = "length b + 2"
  have len: "length (sep1 b) = ?m + 2" "length (sep2 b) = ?m + 4" by (simp_all add: sep1_def sep2_def)
  with assms(2) have j: "j \<le> 2" by simp
  have "sep2 b ! (j + ?m) = sep1 b ! ?m"
    using arg_cong [OF eq, of "\<lambda>l. l ! ?m"] len assms(2) by simp
  moreover have "sep1 b ! ?m = CR" by (simp add: sep1_def nth_append)
  moreover have "sep2 b ! ?m = CHR ''-''" "sep2 b ! Suc ?m = CHR ''-''"
    by (simp_all add: sep2_def nth_append)
  ultimately have "j = 2" using j by (cases "j = 0"; cases "j = 1") auto
  with eq have "take ?m (take (?m + 2) (drop 2 (sep2 b))) = take ?m (sep1 b)" by (simp add: len)
  then show False using assms(1) by (simp add: sep1_def sep2_def)
qed

lemma find_sep1_none:
  assumes "delimited (''--'' @ b) x" "b @ ''--'' \<noteq> ''--'' @ b"
  shows "find_at (sep1 b) (x @ sep2 b) 0 = None"
proof (rule ccontr)
  assume "find_at (sep1 b) (x @ sep2 b) 0 \<noteq> None"
  then obtain j where "find_at (sep1 b) (x @ sep2 b) 0 = Some j" by blast
  from find_at_Some [OF this]
  have j: "j + length (sep1 b) \<le> length x + length (sep2 b)"
    "take (length (sep1 b)) (drop j (x @ sep2 b)) = sep1 b" by auto
  show False
  proof (cases "j < length x")
    case True
    from delimited_no_earlier [OF assms(1) True, of "[CR, LF]" "''--'' @ [CR, LF]"] j(2) show False
      unfolding sep1_def sep2_def by simp
  next
    case False
    then have "take (length (sep1 b)) (drop (j - length x) (sep2 b)) = sep1 b"
      "(j - length x) + length (sep1 b) \<le> length (sep2 b)" using j by simp_all
    with no_sep1_in_sep2 [OF assms(2)] show False by blast
  qed
qed

text \<open>The loop and the step after it, on a body that starts at a part.\<close>

definition finish_multipart :: "bytes \<Rightarrow> bytes \<Rightarrow> nat \<times> Cgicc \<Rightarrow> Cgicc option" where
  "finish_multipart data b r =
     (let pos' = str_find data (sep2 b) (fst r) in
      if npos \<noteq> pos' then do {
        part \<leftarrow> substr data (fst r) (size_sub pos' (fst r));
        parseMIME part (snd r)
      }
      else Some (snd r))"

lemma parse_multipart_unfold:
  "parse_multipart data b oldPos cgi =
     (let pos = str_find data (sep1 b) oldPos in
      if pos = npos then Some (oldPos, cgi)
      else do {
        part \<leftarrow> substr data oldPos (size_sub pos oldPos);
        cgi' \<leftarrow> parseMIME part cgi;
        parse_multipart data b (pos + length (sep1 b)) cgi'
      })"
  by (subst parse_multipart.simps) (simp add: sep1_def Let_def)

lemma parse_parts_tail:
  assumes "b @ ''--'' \<noteq> ''--'' @ b" "list_all (part_ok b) ps" "ps \<noteq> []"
    and "length (pre @ parts_tail b ps) < npos"
  shows "do { r \<leftarrow> parse_multipart (pre @ parts_tail b ps) b (length pre) cgi;
              finish_multipart (pre @ parts_tail b ps) b r }
    = Some (cgi\<lparr>fFormData := fFormData cgi @ map (\<lambda>p. new_FormEntry (fst p) (snd p)) ps\<rparr>)"
  using assms(2-)
proof (induction ps arbitrary: pre cgi rule: induct_list012)
  case (2 p)
  let ?data = "pre @ enc_part p @ sep2 b"
  have ok: "delimited (''--'' @ b) (enc_part p)" "set (fst p) \<inter> {CHR 0x22, CHR ''='', CR} = {}"
    using 2 by (simp_all add: part_ok_def)
  have small: "length ?data < npos" "length (enc_part p) < npos" using 2 by simp_all
  have "find_at (sep2 b) (enc_part p @ sep2 b) 0 = Some (length (enc_part p))"
    using find_delimiter [OF ok(1), of "''--'' @ [CR, LF]" "[]"] by (simp add: sep2_def)
  then have at: "str_find ?data (sep2 b) (length pre) = length pre + length (enc_part p)"
    using str_find_after small(1) by blast
  have "substr ?data (length pre) (size_sub (length pre + length (enc_part p)) (length pre)) = Some (enc_part p)"
    using substr_between [of "length pre" "length (enc_part p)" ?data] small(1) by simp
  then have "finish_multipart ?data b (length pre, cgi) = parseMIME (enc_part p) cgi"
    using at small(1) by (simp add: finish_multipart_def)
  moreover have "parse_multipart ?data b (length pre) cgi = Some (length pre, cgi)"
    using str_find_none_after [OF find_sep1_none [OF ok(1) assms(1)]]
    by (simp add: parse_multipart_unfold)
  ultimately show ?case
    using parseMIME_part [OF ok(2) small(2), of cgi] by simp
next
  case (3 p q ps)
  let ?data = "pre @ enc_part p @ sep1 b @ parts_tail b (q # ps)"
  let ?pre = "pre @ enc_part p @ sep1 b"
  let ?cgi = "cgi\<lparr>fFormData := fFormData cgi @ [new_FormEntry (fst p) (snd p)]\<rparr>"
  have ok: "delimited (''--'' @ b) (enc_part p)" "set (fst p) \<inter> {CHR 0x22, CHR ''='', CR} = {}"
    using 3 by (simp_all add: part_ok_def)
  have small: "length ?data < npos" "length (enc_part p) < npos" using 3 by simp_all
  have "find_at (sep1 b) (enc_part p @ sep1 b @ parts_tail b (q # ps)) 0 = Some (length (enc_part p))"
    using find_delimiter [OF ok(1), of "[CR, LF]" "parts_tail b (q # ps)"] by (simp add: sep1_def)
  then have at: "str_find ?data (sep1 b) (length pre) = length pre + length (enc_part p)"
    using str_find_after small(1) by blast
  have "substr ?data (length pre) (size_sub (length pre + length (enc_part p)) (length pre)) = Some (enc_part p)"
    using substr_between [of "length pre" "length (enc_part p)" ?data] small(1) by simp
  then have "parse_multipart ?data b (length pre) cgi = parse_multipart ?data b (length ?pre) ?cgi"
    using at small parseMIME_part [OF ok(2) small(2), of cgi]
    by (simp add: parse_multipart_unfold [of ?data b "length pre"] add.assoc)
  moreover have "do { r \<leftarrow> parse_multipart (?pre @ parts_tail b (q # ps)) b (length ?pre) ?cgi;
      finish_multipart (?pre @ parts_tail b (q # ps)) b r }
    = Some (?cgi\<lparr>fFormData := fFormData ?cgi @ map (\<lambda>p. new_FormEntry (fst p) (snd p)) (q # ps)\<rparr>)"
    using 3 by (intro "3.IH"(2)) simp_all
  ultimately show ?case by simp
qed simp

lemma parseFormInput_multipart:
  assumes "data \<noteq> []" "\<not> stringsAreEqual_n ct standard_type (length standard_type)"
    and "stringsAreEqual_n multipart_type ct (length multipart_type)"
    and "substr ct (size_add (str_find ct ''boundary='' 0) (length ''boundary='')) npos = Some b"
  shows "parseFormInput data ct cgi =
    do { r \<leftarrow> parse_multipart data b (size_add (str_find data (sep1 b) 0) (length (sep1 b))) cgi;
         finish_multipart data b r }"
proof -
  have "ct \<noteq> []" using assms(3) by (auto simp: stringsAreEqual_n_iff multipart_type_def)
  with assms show ?thesis
    by (cases "parse_multipart data b (size_add (str_find data (sep1 b) 0) (length (sep1 b))) cgi")
      (auto simp: parseFormInput_def Let_def finish_multipart_def sep1_def sep2_def)
qed

section \<open>Properties\<close>

text \<open>
  C14: Parsing an encoded form gives back its fields in order: the URL-encoded body and query
  string of a request, for any names and values.
\<close>

theorem parseFormInput_urlencoded_roundtrip:
  assumes "length (enc_form ps) < npos"
  shows "parseFormInput (enc_form ps) standard_type cgi =
    Some (cgi\<lparr>fFormData := fFormData cgi @ map (\<lambda>p. new_FormEntry (fst p) (snd p)) ps\<rparr>)"
proof (cases "ps = []")
  case False
  then show ?thesis
    using parse_enc_form [OF assms] by (simp add: parseFormInput_def stringsAreEqual_n_iff)
qed (simp add: parseFormInput_def)

theorem parseFormInput_urlencoded_roundtrip_witness:
  "parseFormInput (enc_form [(''k'', ''a b'')]) standard_type
     \<lparr>fFormData = [], fFormFiles = [], fCookies = []\<rparr> =
   Some \<lparr>fFormData = [new_FormEntry ''k'' ''a b''], fFormFiles = [], fCookies = []\<rparr>"
  using parseFormInput_urlencoded_roundtrip
    [of "[(''k'', ''a b'')]" "\<lparr>fFormData = [], fFormFiles = [], fCookies = []\<rparr>"]
  by (simp add: enc_form_pair_def unreserved_def npos_def)



text \<open>
  C27: The cookies of a request are parsed without an exception whatever the header holds, and
  a header that a client builds from cookies is parsed back to those cookies in order.
\<close>

theorem parseCookies_correct:
  assumes "length data < npos"
  shows "\<exists>cs'. parseCookies data cs = Some (cs @ cs') \<and>
    (\<forall>kvs. list_all cookie_ok kvs \<and> data = enc_cookies kvs \<longrightarrow>
       cs' = map (\<lambda>c. new_HTTPCookie (fst c) (snd c)) kvs)"
proof -
  let ?cs = "concat (map cookie_of (cookie_pieces data))"
  have "?cs = map (\<lambda>c. new_HTTPCookie (fst c) (snd c)) kvs"
    if "list_all cookie_ok kvs" "data = enc_cookies kvs" for kvs
  proof (cases "kvs = []")
    case True
    with that show ?thesis by (simp add: cookie_pieces.simps [of "[]"] cookie_of_def)
  next
    case False
    with that cookie_pieces_enc [of kvs "[]"] show ?thesis by simp
  qed
  with parseCookies_eq [OF assms, of cs] show ?thesis by blast
qed

theorem parseCookies_correct_witness:
  "\<exists>cs'. parseCookies (enc_cookies [(''a'', ''1''), (''b'', ''2'')]) [] = Some ([] @ cs') \<and>
    cs' = [new_HTTPCookie ''a'' ''1'', new_HTTPCookie ''b'' ''2'']"
proof -
  have "list_all cookie_ok [(''a'', ''1''), (''b'', ''2'')]"
    by (simp add: cookie_ok_def isspace_def)
  moreover have "length (enc_cookies [(''a'', ''1''), (''b'', ''2'')]) < npos" by (simp add: npos_def)
  ultimately show ?thesis using parseCookies_correct [of _ "[]"] by fastforce
qed

text \<open>
  The bounded accessors of a form value: the integer accessor always returns a value
  between its bounds and reports exactly when it had to clamp; the stripped accessor returns
  the value without its line breaks, cut at the requested length.
\<close>

theorem formEntry_accessors_correct:
  assumes "mn \<le> mx"
  shows "mn \<le> getIntegerValue mn mx e \<and> getIntegerValue mn mx e \<le> mx \<and>
    getIntegerValue_bounded mn mx e =
      (getIntegerValue mn mx e, \<not> (mn \<le> atol (fe_value e) \<and> atol (fe_value e) \<le> mx)) \<and>
    getStrippedValue_max n e = take n (filter (\<lambda>c. \<not> is_newline c) (fe_value e))"
  using assms makeString_loop_stripped [of "fe_value e" 0 n "[]"]
  by (auto simp: getIntegerValue_def getIntegerValue_bounded_def getStrippedValue_max_def
      makeString_def Let_def)

theorem formEntry_accessors_correct_witness:
  "(1 :: int) \<le> 9 \<and> getIntegerValue 1 9 (new_FormEntry ''n'' ''42'') \<le> 9 \<and>
   getStrippedValue_max 2 (new_FormEntry ''n'' ''42'') = take 2 (filter (\<lambda>c. \<not> is_newline c) ''42'')"
  using formEntry_accessors_correct [of 1 9 "new_FormEntry ''n'' ''42''" 2]
  by (simp add: new_FormEntry_def)


text \<open>
  \<^verbatim>\<open>getValue(maxChars)\<close> can return more characters than asked for: a run of line breaks is
  copied without looking at the limit.
\<close>

theorem getValue_max_exceeds_limit:
  "length (getValue_max 1 (new_FormEntry ''n'' [LF, LF, LF])) = 3"
  by (simp add: getValue_max_def makeString_def new_FormEntry_def is_newline_def
      makeString_loop.simps [of "[LF, LF, LF]"] makeString_loop.simps [of "[]"] numeral_eq_Suc)

end
