(* ===== verification/Mucgi_Main.thy ===== *)
theory Mucgi_Main
  imports Mucgi_Codec Cgicc_Form
begin

text \<open>
  The application side of the event-driven server: \<^verbatim>\<open>onRequest\<close> of
  \<^verbatim>\<open>src/mucgi/main.cpp\<close> and \<^verbatim>\<open>BackendProc::printRequest\<close> of \<^verbatim>\<open>src/mucgi/backend.cpp\<close>,
  and the properties of a request's whole way through codec, form parser, back end and
  response. \<open>None\<close> is an uncaught exception. What is sent on the connection is the result of
  the callback.
\<close>

section \<open>Back end\<close>

text \<open>
  \<^verbatim>\<open>resp += content.length()\<close> converts the length to a \<^verbatim>\<open>char\<close> and appends that one
  character, not the decimal numeral. The loops before it only log.
\<close>

definition printRequest :: "ParamMap \<Rightarrow> ParamMap \<Rightarrow> bytes" where
  "printRequest qmap header =
     (let cont = ''OK!!'';
          resp = ''Content-Type: text/html; charset=UTF-8'' @ [CR, LF];
          resp1 = resp @ ''Content-Length: '';
          resp2 = resp1 @ [char_of (length cont)];
          resp3 = resp2 @ [CR, LF, CR, LF]
      in resp3 @ cont)"

section \<open>Requests\<close>

text \<open>\<^verbatim>\<open>m[k]\<close> on a map: an absent key is added with an empty value.\<close>

definition subscript :: "bytes \<Rightarrow> ParamMap \<Rightarrow> bytes \<times> ParamMap" where
  "subscript k m = (case m k of Some v \<Rightarrow> (v, m) | None \<Rightarrow> ([], m(k \<mapsto> [])))"

text \<open>\<^verbatim>\<open>m.insert(value_type(k, v))\<close>: an existing key keeps its value.\<close>

definition map_insert :: "bytes \<Rightarrow> bytes \<Rightarrow> ParamMap \<Rightarrow> ParamMap" where
  "map_insert k v m = (if k \<in> dom m then m else m(k \<mapsto> v))"

definition mu_qmap :: "Cgicc \<Rightarrow> ParamMap" where
  "mu_qmap cgi =
     fold (\<lambda>f. map_insert (ff_name f) (ff_data f)) (fFormFiles cgi)
       (fold (\<lambda>e. map_insert (map tolower (fe_name e)) (fe_value e)) (fFormData cgi) Map.empty)"

definition mu_header :: "ParamMap \<Rightarrow> Cgicc \<Rightarrow> ParamMap" where
  "mu_header ps cgi = fold (\<lambda>c h. h(hc_name c \<mapsto> hc_value c)) (fCookies cgi) ps"

definition onRequest ::
  "(ParamMap \<Rightarrow> ParamMap \<Rightarrow> bytes) \<Rightarrow> ParamMap \<Rightarrow> Buffer \<Rightarrow> (bytes list \<times> Buffer) option" where
  "onRequest backend params0 inp = do {
     let (queryString, params1) = subscript ''QUERY_STRING'' params0;
     let (queryType, params2) = subscript ''CONTENT_TYPE'' params1;
     let (queryCookie, params3) = subscript ''HTTP_COOKIE'' params2;
     (postData, inp') \<leftarrow> (if 0 < readableBytes inp then retrieveAllAsString inp else Some ([], inp));
     cgi \<leftarrow> new_Cgicc queryString queryCookie postData queryType;
     let qmap = mu_qmap cgi;
     let header = mu_header params3 cgi;
     let res = backend qmap header;
     (res', response) \<leftarrow> respond res (new_Buffer kInitialSize);
     Some ([content response], inp')
   }"

section \<open>Lemmas\<close>

text \<open>Both servers take the body of a request from its input buffer.\<close>

lemma post_data_total:
  assumes "Buffer_inv inp"
  obtains inp' where "(if 0 < readableBytes inp then retrieveAllAsString inp else Some ([], inp))
      = Some (content inp, inp')" "Buffer_inv inp'"
proof (cases "0 < readableBytes inp")
  case True
  obtain b where "retrieveAsString (readableBytes inp) inp = Some (take (readableBytes inp) (content inp), b)"
    "Buffer_inv b"
    using retrieveAsString_total [OF assms order_refl] by blast
  with True that show ?thesis
    using length_content [OF assms] by (simp add: retrieveAllAsString_def)
next
  case False
  then have "content inp = []" using length_content [OF assms] by (metis length_0_conv neq0_conv)
  with False that [of inp] assms show ?thesis by simp
qed

lemma onRequest_eq:
  assumes "Buffer_inv inp" "new_Cgicc (fst (subscript ''QUERY_STRING'' ps))
      (case ps ''HTTP_COOKIE'' of None \<Rightarrow> [] | Some v \<Rightarrow> v) (content inp)
      (case ps ''CONTENT_TYPE'' of None \<Rightarrow> [] | Some v \<Rightarrow> v) = Some cgi"
    and "\<And>q h. length (backend q h) \<le> npos"
  shows "\<exists>inp' h text. onRequest backend ps inp = Some ([response_bytes text], inp') \<and>
     Buffer_inv inp' \<and>
     text = (if backend (mu_qmap cgi) h = [] then empty_result else backend (mu_qmap cgi) h)"
proof -
  obtain q p1 where s1: "subscript ''QUERY_STRING'' ps = (q, p1)" by fastforce
  obtain t p2 where s2: "subscript ''CONTENT_TYPE'' p1 = (t, p2)" by fastforce
  obtain k p3 where s3: "subscript ''HTTP_COOKIE'' p2 = (k, p3)" by fastforce
  have keys: "t = (case ps ''CONTENT_TYPE'' of None \<Rightarrow> [] | Some v \<Rightarrow> v)"
    "k = (case ps ''HTTP_COOKIE'' of None \<Rightarrow> [] | Some v \<Rightarrow> v)"
    using s1 s2 s3 by (auto simp: subscript_def split: option.splits)
  obtain inp' where inp': "(if 0 < readableBytes inp then retrieveAllAsString inp else Some ([], inp))
      = Some (content inp, inp')" "Buffer_inv inp'"
    using assms(1) by (rule post_data_total)
  let ?res = "backend (mu_qmap cgi) (mu_header p3 cgi)"
  obtain r where "respond ?res (new_Buffer kInitialSize) = Some (if ?res = [] then empty_result else ?res, r)"
    "content r = response_bytes (if ?res = [] then empty_result else ?res)"
    using respond_total [OF new_Buffer_inv [of kInitialSize] assms(3) [of "mu_qmap cgi" "mu_header p3 cgi"]]
    by (simp only: content_new_Buffer append_Nil) blast
  then show ?thesis
    using s1 s2 s3 keys inp' assms(2)
    by (intro exI [of _ inp'] exI [of _ "mu_header p3 cgi"]
        exI [of _ "if ?res = [] then empty_result else ?res"]) (simp add: onRequest_def)
qed

text \<open>In the query map of this server the first field of a name wins.\<close>

lemma map_insert_fold_first:
  "fold (\<lambda>e. map_insert (f e) (g e)) es m k =
     (case m k of Some v \<Rightarrow> Some v | None \<Rightarrow> map_option g (find (\<lambda>e. f e = k) es))"
proof (induction es arbitrary: m)
  case Nil
  then show ?case by (simp split: option.splits)
next
  case (Cons e es)
  then show ?case by (auto simp: map_insert_def split: option.splits)
qed

text \<open>A request without a body, content type or cookie: the form is the query string.\<close>

lemma new_Cgicc_query:
  assumes "length (enc_form fs) < npos"
  shows "new_Cgicc (enc_form fs) [] [] [] =
    Some \<lparr>fFormData = map (\<lambda>p. new_FormEntry (fst p) (snd p)) fs, fFormFiles = [], fCookies = []\<rparr>"
proof -
  have "stringsAreEqual_n standard_type standard_type (length standard_type)"
    by (simp add: stringsAreEqual_n_iff)
  then have "parseFormInput (enc_form fs) standard_type c =
      Some (c\<lparr>fFormData := fFormData c @ map (\<lambda>p. new_FormEntry (fst p) (snd p)) fs\<rparr>)" for c
    using parse_enc_form [OF assms] by (cases "fs = []") (simp_all add: parseFormInput_def)
  then show ?thesis by (simp add: new_Cgicc_def parseFormInput_def parseCookies_def)
qed

lemma find_map: "find P (map f xs) = map_option f (find (P \<circ> f) xs)"
  by (induction xs) auto

lemma mu_qmap_query:
  "mu_qmap \<lparr>fFormData = map (\<lambda>p. new_FormEntry (fst p) (snd p)) fs, fFormFiles = [], fCookies = []\<rparr> =
     (\<lambda>k. map_option snd (find (\<lambda>p. map tolower (fst p) = k) fs))"
  by (rule ext)
    (simp add: mu_qmap_def map_insert_fold_first find_map comp_def new_FormEntry_def option.map_comp)

section \<open>Properties\<close>



text \<open>
  The length the sample back end announces is the raw byte 4, not the numeral 4: its reply
  has an invalid \<^verbatim>\<open>Content-Length\<close> header.
\<close>

theorem printRequest_length_header:
  "printRequest qmap header =
     ''Content-Type: text/html; charset=UTF-8'' @ [CR, LF] @ ''Content-Length: '' @ [CHR 0x04] @
     [CR, LF, CR, LF] @ ''OK!!'' \<and>
   dec_digits (length ''OK!!'') = ''4''"
proof -
  have "char_of (length ''OK!!'') = CHR 0x04" "dec_digits (length ''OK!!'') = ''4''"
    by code_simp+
  then show ?thesis by (simp only: printRequest_def Let_def append_assoc)
qed

end
