(* ===== verification/Cocgi_Codec.thy ===== *)
theory Cocgi_Codec
  imports Mucgi_Main
begin

unbundle bit_operations_syntax

text \<open>
  The FastCGI codec of the coroutine server: \<^verbatim>\<open>src/cocgi/cocgi_lib/fastcgi.h\<close> and
  \<^verbatim>\<open>src/cocgi/cocgi_lib/fastcgi.cpp\<close>. It owns its input buffer, converts byte order with the
  macros of \<^verbatim>\<open>type.h\<close>, and reads, serves and answers a request in \<^verbatim>\<open>readData\<close>. The
  application callback and the results of \<^verbatim>\<open>readv\<close> and \<^verbatim>\<open>write\<close> are parameters. Its record
  handling is proved equivalent to that of the mucgi codec, so it meets the same specification.
\<close>

section \<open>Records\<close>

record FcgiRecordHeader =
  ch_version :: u8
  ch_type :: u8
  ch_id :: u16
  ch_length :: u16
  ch_padding :: u8
  ch_unused :: u8

definition FCGI_MAX_CONTENT_LENGTH :: nat where
  "FCGI_MAX_CONTENT_LENGTH = 65535"

definition co_kRecordHeader :: nat where
  "co_kRecordHeader = 8"

definition co_header_bytes :: "FcgiRecordHeader \<Rightarrow> bytes" where
  "co_header_bytes h =
     [char_of (unat (ch_version h)), char_of (unat (ch_type h))] @ mem16 (ch_id h) @
     mem16 (ch_length h) @ [char_of (unat (ch_padding h)), char_of (unat (ch_unused h))]"

definition co_header_at :: "bytes \<Rightarrow> FcgiRecordHeader option" where
  "co_header_at p =
     (if 8 \<le> length p then
        Some \<lparr>ch_version = of_char (p ! 0), ch_type = of_char (p ! 1), ch_id = ld16 (take 2 (drop 2 p)),
              ch_length = ld16 (take 2 (drop 4 p)), ch_padding = of_char (p ! 6),
              ch_unused = of_char (p ! 7)\<rparr>
      else None)"

section \<open>The codec\<close>

record CoCodec =
  m_gotRequest :: bool
  m_keepConn :: bool
  m_buf :: Buffer
  m_stdin :: Buffer
  m_paramsStream :: Buffer
  m_params :: ParamMap

definition new_CoCodec :: CoCodec where
  "new_CoCodec =
     \<lparr>m_gotRequest = False, m_keepConn = False, m_buf = new_Buffer kInitialSize,
      m_stdin = new_Buffer kInitialSize, m_paramsStream = new_Buffer kInitialSize,
      m_params = Map.empty\<rparr>"

definition co_clear :: "CoCodec \<Rightarrow> CoCodec" where
  "co_clear c =
     c\<lparr>m_gotRequest := False, m_keepConn := False, m_buf := retrieveAll (m_buf c),
       m_stdin := retrieveAll (m_stdin c), m_paramsStream := retrieveAll (m_paramsStream c),
       m_params := Map.empty\<rparr>"

definition co_readLen :: "CoCodec \<Rightarrow> (u32 \<times> CoCodec) option" where
  "co_readLen c =
     (if 1 \<le> readableBytes (m_paramsStream c) then do {
        byte \<leftarrow> peekInt8 (m_paramsStream c);
        if byte AND 0x80 \<noteq> 0 then
          (if 4 \<le> readableBytes (m_paramsStream c) then do {
             (x, ps) \<leftarrow> readInt32 (m_paramsStream c);
             Some (x AND 0x7fffffff, c\<lparr>m_paramsStream := ps\<rparr>)
           }
           else Some (- 1, c))
        else do {
          (x, ps) \<leftarrow> readInt8 (m_paramsStream c);
          Some (scast x, c\<lparr>m_paramsStream := ps\<rparr>)
        }
      }
      else Some (- 1, c))"

lemma co_readLen_decreases:
  assumes "co_readLen c = Some (l, c')" "l \<noteq> - 1"
  shows "readableBytes (m_paramsStream c') < readableBytes (m_paramsStream c)"
  using assms
  by (auto simp: co_readLen_def opt_iff readInt32_def readInt8_def retrieveInt32_def retrieveInt8_def
      dest!: retrieve_readable split: if_splits)

function co_parseAllParams :: "CoCodec \<Rightarrow> (bool \<times> CoCodec) option" where
  "co_parseAllParams c =
     (if 0 < readableBytes (m_paramsStream c) then do {
        (nameLen, c1) \<leftarrow> co_readLen c;
        if nameLen = - 1 then Some (False, c1)
        else do {
          (valueLen, c2) \<leftarrow> co_readLen c1;
          if valueLen = - 1 then Some (False, c2)
          else if unat (nameLen + valueLen) \<le> readableBytes (m_paramsStream c2) then do {
            (name, ps1) \<leftarrow> retrieveAsString (unat nameLen) (m_paramsStream c2);
            (val, ps2) \<leftarrow> retrieveAsString (unat valueLen) ps1;
            co_parseAllParams (c2\<lparr>m_paramsStream := ps2, m_params := (m_params c2)(name \<mapsto> val)\<rparr>)
          }
          else Some (False, c2)
        }
      }
      else Some (True, c))"
  by pat_completeness auto
termination
proof (relation "measure (\<lambda>c. readableBytes (m_paramsStream c))", goal_cases)
  case (2 c x1 nameLen c1 x2 valueLen c2 x3 n ps1 x4 v ps2)
  then show ?case
    using co_readLen_decreases [of c nameLen c1] co_readLen_decreases [of c1 valueLen c2]
      retrieveAsString_readable [of "unat nameLen" "m_paramsStream c2" n ps1]
      retrieveAsString_readable [of "unat valueLen" ps1 v ps2]
    by simp
qed simp

declare co_parseAllParams.simps [simp del]

definition co_onParams :: "bytes \<Rightarrow> u16 \<Rightarrow> CoCodec \<Rightarrow> (bool \<times> CoCodec) option" where
  "co_onParams cont len c =
     (if 0 < len then do {
        ps \<leftarrow> append cont (unat len) (m_paramsStream c);
        Some (True, c\<lparr>m_paramsStream := ps\<rparr>)
      }
      else do {
        (ok, c') \<leftarrow> co_parseAllParams c;
        if \<not> ok then Some (False, c') else Some (True, c')
      })"

definition co_onStdin :: "bytes \<Rightarrow> u16 \<Rightarrow> CoCodec \<Rightarrow> CoCodec option" where
  "co_onStdin cont len c =
     (if 0 < len then do {
        s \<leftarrow> append cont (unat len) (m_stdin c);
        Some (c\<lparr>m_stdin := s\<rparr>)
      }
      else Some (c\<lparr>m_gotRequest := True\<rparr>))"

definition co_readInt16 :: "bytes \<Rightarrow> u16 option" where
  "co_readInt16 p = (if 2 \<le> length p then Some (hton16 (ld16 (take 2 p))) else None)"

definition co_onBeginRequest ::
  "FcgiRecordHeader \<Rightarrow> Buffer \<Rightarrow> CoCodec \<Rightarrow> (bool \<times> CoCodec) option" where
  "co_onBeginRequest header buf c = do {
     assert_opt (unat (ch_length header) \<le> readableBytes buf);
     assert_opt (ch_type header = kFcgiBeginRequest);
     if co_kRecordHeader \<le> unat (ch_length header) then do {
       role \<leftarrow> co_readInt16 (drop co_kRecordHeader (peek buf));
       flags \<leftarrow> mem_at (peek buf) (co_kRecordHeader + 2);
       if role = kFcgiResponder
       then Some (True, c\<lparr>m_keepConn := ((of_char flags :: u8) = kFcgiKeepConn)\<rparr>)
       else Some (False, c)
     }
     else Some (False, c)
   }"

definition co_dispatch :: "FcgiRecordHeader \<Rightarrow> CoCodec \<Rightarrow> CoCodec option" where
  "co_dispatch header c =
     (if ch_type header = kFcgiBeginRequest
      then map_option snd (co_onBeginRequest header (m_buf c) c)
      else if ch_type header = kFcgiParams
      then map_option snd (co_onParams (drop co_kRecordHeader (peek (m_buf c))) (ch_length header) c)
      else if ch_type header = kFcgiStdin
      then co_onStdin (drop co_kRecordHeader (peek (m_buf c))) (ch_length header) c
      else if ch_type header = kFcgiData then Some c
      else if ch_type header = kFcgiGetValues then Some c
      else Some c)"

text \<open>The part of the codec that the mucgi codec has as well.\<close>

definition to_mu :: "CoCodec \<Rightarrow> FastCgiCodec" where
  "to_mu c = \<lparr>gotRequest = m_gotRequest c, keepConn = m_keepConn c, stdin = m_stdin c,
              paramsStream = m_paramsStream c, params = m_params c\<rparr>"

definition of_mu :: "CoCodec \<Rightarrow> FastCgiCodec \<Rightarrow> CoCodec" where
  "of_mu c d = c\<lparr>m_gotRequest := gotRequest d, m_keepConn := keepConn d, m_stdin := stdin d,
                 m_paramsStream := paramsStream d, m_params := params d\<rparr>"

lemma to_mu_simps [simp]:
  "paramsStream (to_mu c) = m_paramsStream c" "params (to_mu c) = m_params c"
  "stdin (to_mu c) = m_stdin c" "gotRequest (to_mu c) = m_gotRequest c"
  "keepConn (to_mu c) = m_keepConn c"
  by (simp_all add: to_mu_def)

lemma of_mu_simps [simp]:
  "to_mu (of_mu c d) = d" "of_mu c (to_mu c) = c" "m_buf (of_mu c d) = m_buf c"
  "of_mu (of_mu c d) = of_mu c" "m_paramsStream (of_mu c d) = paramsStream d"
  "m_params (of_mu c d) = params d" "m_gotRequest (of_mu c d) = gotRequest d"
  "to_mu (c\<lparr>m_buf := b\<rparr>) = to_mu c"
  by (simp_all add: to_mu_def of_mu_def fun_eq_iff)

lemma co_readLen_mu: "co_readLen c = map_option (map_prod id (of_mu c)) (readLen (to_mu c))"
  unfolding co_readLen_def readLen_def
  by (auto simp: of_mu_def to_mu_def split: Option.bind_splits)

lemma co_parseAllParams_mu:
  "co_parseAllParams c = map_option (map_prod id (of_mu c)) (parseAllParams (to_mu c))"
proof (induction "readableBytes (m_paramsStream c)" arbitrary: c rule: less_induct)
  case less
  show ?case
  proof (cases "\<exists>n d v e s p t q. readLen (to_mu c) = Some (n, d) \<and> n \<noteq> - 1 \<and>
      readLen d = Some (v, e) \<and> v \<noteq> - 1 \<and> unat (n + v) \<le> readableBytes (paramsStream e) \<and>
      retrieveAsString (unat n) (paramsStream e) = Some (s, p) \<and> retrieveAsString (unat v) p = Some (t, q)")
    case True
    then obtain n d v e s p t q where rd: "readLen (to_mu c) = Some (n, d)" "n \<noteq> - 1"
      "readLen d = Some (v, e)" "v \<noteq> - 1" "unat (n + v) \<le> readableBytes (paramsStream e)"
      "retrieveAsString (unat n) (paramsStream e) = Some (s, p)" "retrieveAsString (unat v) p = Some (t, q)"
      by blast
    let ?d = "e\<lparr>paramsStream := q, params := (params e)(s \<mapsto> t)\<rparr>"
    have "readableBytes (m_paramsStream (of_mu c ?d)) < readableBytes (m_paramsStream c)"
      using readLen_decreases [OF rd(1,2)] readLen_decreases [OF rd(3,4)]
        retrieveAsString_readable [OF rd(6)] retrieveAsString_readable [OF rd(7)] by simp
    from less [OF this] have ih: "co_parseAllParams (of_mu c ?d) =
        map_option (map_prod id (of_mu c)) (parseAllParams ?d)" by simp
    have upd: "(of_mu c e)\<lparr>m_paramsStream := q, m_params := (params e)(s \<mapsto> t)\<rparr> = of_mu c ?d"
      by (simp add: of_mu_def)
    have "readableBytes (m_paramsStream c) > 0"
      using readLen_decreases [OF rd(1,2)] by simp
    with rd ih show ?thesis
      by (simp add: co_parseAllParams.simps [of c] parseAllParams.simps [of "to_mu c"] co_readLen_mu upd)
  next
    case False
    show ?thesis
      using False unfolding co_parseAllParams.simps [of c] parseAllParams.simps [of "to_mu c"]
      by (auto simp: co_readLen_mu split: Option.bind_splits)
  qed
qed

lemma co_parseAllParams_buf: "co_parseAllParams c = Some (ok, c') \<Longrightarrow> m_buf c' = m_buf c"
  by (auto simp: co_parseAllParams_mu)

lemma co_dispatch_buf: "co_dispatch h c = Some c' \<Longrightarrow> m_buf c' = m_buf c"
  by (auto simp: co_dispatch_def co_onBeginRequest_def co_onParams_def co_onStdin_def opt_iff Let_def
      dest!: co_parseAllParams_buf split: if_splits)

function parseFcgiPackage :: "CoCodec \<Rightarrow> (bool \<times> CoCodec) option" where
  "parseFcgiPackage c =
     (if co_kRecordHeader \<le> readableBytes (m_buf c) then do {
        raw \<leftarrow> co_header_at (peek (m_buf c));
        let header = raw\<lparr>ch_id := hton16 (ch_id raw), ch_length := hton16 (ch_length raw)\<rparr>;
        let total = co_kRecordHeader + unat (ch_length header) + unat (ch_padding header);
        if total \<le> readableBytes (m_buf c) then do {
          c' \<leftarrow> co_dispatch header c;
          b \<leftarrow> retrieve total (m_buf c');
          parseFcgiPackage (c'\<lparr>m_buf := b\<rparr>)
        }
        else Some (True, c)
      }
      else Some (True, c))"
  by pat_completeness auto
termination
  by (relation "measure (\<lambda>c. readableBytes (m_buf c))")
    (auto dest!: retrieve_readable co_dispatch_buf simp: co_kRecordHeader_def)

declare parseFcgiPackage.simps [simp del]

section \<open>Output\<close>

definition co_endStdout :: "Buffer \<Rightarrow> Buffer option" where
  "co_endStdout buf =
     append (co_header_bytes \<lparr>ch_version = 1, ch_type = kFcgiStdout, ch_id = hton16 1,
                              ch_length = 0, ch_padding = 0, ch_unused = 0\<rparr>) co_kRecordHeader buf"

definition co_endRequest :: "Buffer \<Rightarrow> Buffer option" where
  "co_endRequest buf = do {
     b1 \<leftarrow> append (co_header_bytes \<lparr>ch_version = 1, ch_type = kFcgiEndRequest, ch_id = hton16 1,
                                   ch_length = hton16 (of_nat co_kRecordHeader), ch_padding = 0,
                                   ch_unused = 0\<rparr>) co_kRecordHeader buf;
     b2 \<leftarrow> appendInt32 0 b1;
     appendInt32 0 b2
   }"

definition co_empty_result :: bytes where
  "co_empty_result =
     (let cont = ''Empty Result!'' in
      ''Content-Type: text/html; charset=UTF-8'' @ [CR, LF] @
      ''Content-Length: '' @ dec_digits (length cont) @ [CR, LF, CR, LF] @ cont)"

text \<open>A header whose length field is already in network order, the text and the padding.\<close>

definition co_put_stdout :: "u16 \<Rightarrow> u8 \<Rightarrow> bytes \<Rightarrow> Buffer \<Rightarrow> Buffer option" where
  "co_put_stdout slength pad s response = do {
     let header = \<lparr>ch_version = 1, ch_type = kFcgiStdout, ch_id = hton16 1,
                   ch_length = slength, ch_padding = pad, ch_unused = 0\<rparr>;
     r1 \<leftarrow> append (co_header_bytes header) co_kRecordHeader response;
     r2 \<leftarrow> append_piece (piece_of s) r1;
     append (replicate 9 NUL) (unat (ch_padding header)) r2
   }"

function co_respond_loop :: "nat \<Rightarrow> nat \<Rightarrow> bytes \<Rightarrow> Buffer \<Rightarrow> Buffer option" where
  "co_respond_loop i n out response =
     (if i < n then do {
        outSubString \<leftarrow> substr out (i * FCGI_MAX_CONTENT_LENGTH) FCGI_MAX_CONTENT_LENGTH;
        response' \<leftarrow> co_put_stdout (hton16 (of_nat FCGI_MAX_CONTENT_LENGTH))
          (ucast ((- (of_nat FCGI_MAX_CONTENT_LENGTH :: u32)) AND 7)) outSubString response;
        co_respond_loop (Suc i) n out response'
      }
      else Some response)"
  by pat_completeness auto
termination
  by (relation "measure (\<lambda>(i, n, out, response). n - i)") auto

declare co_respond_loop.simps [simp del]

definition co_respond :: "bytes \<Rightarrow> Buffer \<Rightarrow> (bytes \<times> Buffer) option" where
  "co_respond out0 response = do {
     let out = (if out0 = [] then co_empty_result else out0);
     r1 \<leftarrow>
       (if length out \<le> FCGI_MAX_CONTENT_LENGTH
        then co_put_stdout (hton16 (of_nat (length out))) (pad_of (length out)) out response
        else do {
          let numSubstrings = length out div FCGI_MAX_CONTENT_LENGTH;
          r \<leftarrow> co_respond_loop 0 numSubstrings out response;
          if length out mod FCGI_MAX_CONTENT_LENGTH \<noteq> 0 then do {
            outSubString \<leftarrow> substr out (FCGI_MAX_CONTENT_LENGTH * numSubstrings) npos;
            co_put_stdout (hton16 (of_nat (length outSubString))) (pad_of (length outSubString))
              outSubString r
          }
          else Some r
        });
     r2 \<leftarrow> co_endStdout r1;
     r3 \<leftarrow> co_endRequest r2;
     Some (out, r3)
   }"

section \<open>Requests\<close>

definition ERR_OK :: int where "ERR_OK = 0"
definition ERR_SOCKET_READ :: int where "ERR_SOCKET_READ = 1"
definition ERR_SOCKET_WRITE :: int where "ERR_SOCKET_WRITE = 2"
definition ERR_SOCKET_FINISH :: int where "ERR_SOCKET_FINISH = 3"
definition ERR_SOCKET_EAGAIN :: int where "ERR_SOCKET_EAGAIN = 4"

lemmas err_defs = ERR_OK_def ERR_SOCKET_READ_def ERR_SOCKET_WRITE_def ERR_SOCKET_FINISH_def
  ERR_SOCKET_EAGAIN_def

text \<open>
  The write loop. \<open>w i n\<close> is the result of the \<open>i\<close>-th \<^verbatim>\<open>write\<close>, of \<open>n\<close> bytes. The result is
  the return code and the bytes the descriptor took, in order; \<open>None\<close> is a failed assertion of
  the buffer or a loop that never ends.
\<close>

partial_function (option) write_loop ::
  "(nat \<Rightarrow> nat \<Rightarrow> int) \<Rightarrow> nat \<Rightarrow> Buffer \<Rightarrow> bytes \<Rightarrow> (int \<times> bytes) option" where
  "write_loop w i response sent =
     (if 0 < readableBytes response then
        (let n = w i (readableBytes response) in
         if 0 < n then
           Option.bind (retrieve (nat n) response)
             (\<lambda>r. write_loop w (Suc i) r (sent @ take (nat n) (peek response)))
         else if n < 0 then Some (ERR_SOCKET_WRITE, sent)
         else write_loop w (Suc i) response sent)
      else Some (ERR_OK, sent))"

definition co_qmap :: "Cgicc \<Rightarrow> ParamMap" where
  "co_qmap cgi =
     fold (\<lambda>f q. q(ff_name f \<mapsto> ff_data f)) (fFormFiles cgi)
       (fold (\<lambda>e q. q(fe_name e \<mapsto> fe_value e)) (fFormData cgi) Map.empty)"

definition co_reqheader :: "ParamMap \<Rightarrow> Cgicc \<Rightarrow> ParamMap" where
  "co_reqheader m cgi = fold (\<lambda>c h. h(hc_name c \<mapsto> hc_value c)) (fCookies cgi) m"

definition doRequest ::
  "(ParamMap \<Rightarrow> ParamMap \<Rightarrow> bytes) option \<Rightarrow> (nat \<Rightarrow> nat \<Rightarrow> int) \<Rightarrow> CoCodec
   \<Rightarrow> (int \<times> bytes \<times> CoCodec) option" where
  "doRequest cb w c = do {
     let (queryString, m1) = subscript ''QUERY_STRING'' (m_params c);
     let (queryType, m2) = subscript ''CONTENT_TYPE'' m1;
     let (queryCookie, m3) = subscript ''HTTP_COOKIE'' m2;
     (postData, inp) \<leftarrow> (if 0 < readableBytes (m_stdin c) then retrieveAllAsString (m_stdin c)
                        else Some ([], m_stdin c));
     let c1 = c\<lparr>m_params := m3, m_stdin := inp\<rparr>;
     cgi \<leftarrow> new_Cgicc queryString queryCookie postData queryType;
     let qmap = co_qmap cgi;
     let header = co_reqheader m3 cgi;
     let res = (case cb of None \<Rightarrow> [] | Some f \<Rightarrow> f qmap header);
     (res', response) \<leftarrow> co_respond res (new_Buffer kInitialSize);
     (ret, sent) \<leftarrow> write_loop w 0 response [];
     Some (ret, sent, c1)
   }"

text \<open>
  \<^verbatim>\<open>readData\<close>. \<open>errno0\<close> is the value of \<^verbatim>\<open>errno\<close> before the call, which a successful read
  leaves alone. The result is the return code, the bytes written and the codec.
\<close>

definition EAGAIN :: int where "EAGAIN = 11"

definition readData ::
  "(ParamMap \<Rightarrow> ParamMap \<Rightarrow> bytes) option \<Rightarrow> (nat \<Rightarrow> nat \<Rightarrow> int) \<Rightarrow> int \<Rightarrow> int + bytes \<Rightarrow> CoCodec
   \<Rightarrow> (int \<times> bytes \<times> CoCodec) option" where
  "readData cb w errno0 readv_result c = do {
     (ret, saved, b) \<leftarrow> readFd readv_result (m_buf c);
     let errno = (case saved of None \<Rightarrow> errno0 | Some e \<Rightarrow> e);
     let c1 = c\<lparr>m_buf := b\<rparr>;
     if 0 < ret then do {
       (ok, c2) \<leftarrow> parseFcgiPackage c1;
       if m_gotRequest c2 then do {
         (ret', sent, c3) \<leftarrow> doRequest cb w c2;
         let c4 = c3\<lparr>m_stdin := retrieveAll (m_stdin c3),
                     m_paramsStream := retrieveAll (m_paramsStream c3),
                     m_params := Map.empty, m_gotRequest := False\<rparr>;
         if \<not> m_keepConn c4 \<and> ret' = ERR_OK then Some (ERR_SOCKET_FINISH, sent, c4)
         else Some (ERR_OK, sent, c4)
       }
       else Some (ERR_OK, [], c2)
     }
     else if errno = EAGAIN then Some (ERR_SOCKET_EAGAIN, [], c1)
     else Some (ERR_SOCKET_READ, [], c1)
   }"

section \<open>Equivalence with the mucgi codec\<close>

definition to_rh :: "FcgiRecordHeader \<Rightarrow> RecordHeader" where
  "to_rh h = \<lparr>h_version = ch_version h, h_type = ch_type h, h_id = ch_id h, h_length = ch_length h,
              h_padding = ch_padding h, h_unused = ch_unused h\<rparr>"

lemmas co_constants = co_kRecordHeader_def FCGI_MAX_CONTENT_LENGTH_def

lemma co_header_at_mu: "map_option to_rh (co_header_at p) = header_at p"
  by (simp add: co_header_at_def header_at_def to_rh_def)

lemma co_header_bytes_mu: "co_header_bytes h = header_bytes (to_rh h)"
  by (simp add: co_header_bytes_def header_bytes_def to_rh_def)

lemma hton16_network: "hostToNetwork16 = hton16" "networkToHost16 = hton16"
  by (simp_all add: fun_eq_iff hton_hostToNetwork networkToHost_eq)

lemma co_onParams_mu: "co_onParams s l c = map_option (map_prod id (of_mu c)) (onParams s l (to_mu c))"
  by (auto simp: co_onParams_def onParams_def co_parseAllParams_mu of_mu_def to_mu_def
      split: Option.bind_splits)

lemma co_onStdin_mu: "co_onStdin s l c = map_option (of_mu c) (onStdin s l (to_mu c))"
  by (auto simp: co_onStdin_def onStdin_def of_mu_def to_mu_def split: Option.bind_splits)

lemma co_onBeginRequest_mu:
  "co_onBeginRequest h b c = map_option (map_prod id (of_mu c)) (onBeginRequest (to_rh h) b (to_mu c))"
  unfolding co_onBeginRequest_def onBeginRequest_def co_readInt16_def fcgi_readInt16_def hton16_network
    co_kRecordHeader_def kRecordHeader_def
  by (auto simp: of_mu_def to_mu_def to_rh_def split: Option.bind_splits)

lemma co_dispatch_mu: "co_dispatch h c = map_option (of_mu c) (dispatch (to_rh h) (m_buf c) (to_mu c))"
  unfolding co_dispatch_def dispatch_def co_onBeginRequest_mu co_onParams_mu co_onStdin_mu
    co_kRecordHeader_def kRecordHeader_def
  by (simp add: to_rh_def option.map_comp comp_def)

lemma parseFcgiPackage_mu:
  "parseFcgiPackage c =
     map_option (\<lambda>(ok, b, d). (ok, (of_mu c d)\<lparr>m_buf := b\<rparr>)) (parseRequest (m_buf c) (to_mu c))"
proof (induction "readableBytes (m_buf c)" arbitrary: c rule: less_induct)
  case less
  have same: "(of_mu c (to_mu c))\<lparr>m_buf := m_buf c\<rparr> = c" by simp
  show ?case
  proof (cases "co_header_at (peek (m_buf c))")
    case None
    then have "header_at (peek (m_buf c)) = None" using co_header_at_mu [of "peek (m_buf c)"] by simp
    with None show ?thesis
      by (simp add: parseFcgiPackage.simps [of c] parseRequest.simps [of "m_buf c"] co_kRecordHeader_def
          kRecordHeader_def)
  next
    case (Some raw)
    then have raw: "header_at (peek (m_buf c)) = Some (to_rh raw)"
      using co_header_at_mu [of "peek (m_buf c)"] by simp
    let ?h = "raw\<lparr>ch_id := hton16 (ch_id raw), ch_length := hton16 (ch_length raw)\<rparr>"
    let ?total = "8 + unat (hton16 (ch_length raw)) + unat (ch_padding raw)"
    have rh: "(to_rh raw)\<lparr>h_id := hton16 (h_id (to_rh raw)), h_length := hton16 (h_length (to_rh raw))\<rparr>
      = to_rh ?h" by (simp add: to_rh_def)
    have flds: "h_length (to_rh ?h) = hton16 (ch_length raw)" "h_padding (to_rh ?h) = ch_padding raw"
      by (simp_all add: to_rh_def)
    have step: "parseFcgiPackage ((of_mu c d)\<lparr>m_buf := b\<rparr>) = map_option
        (\<lambda>(ok, b, d). (ok, (of_mu c d)\<lparr>m_buf := b\<rparr>)) (parseRequest b d)"
      if "8 \<le> readableBytes (m_buf c)" "?total \<le> readableBytes (m_buf c)"
        "retrieve ?total (m_buf c) = Some b" for d b
    proof -
      have "readableBytes b < readableBytes (m_buf c)" using retrieve_readable [OF that(3)] that by simp
      moreover have "to_mu ((of_mu c d)\<lparr>m_buf := b\<rparr>) = d" by (simp add: to_mu_def of_mu_def)
      moreover have "(of_mu ((of_mu c d)\<lparr>m_buf := b\<rparr>) e)\<lparr>m_buf := b'\<rparr> = (of_mu c e)\<lparr>m_buf := b'\<rparr>" for e b'
        by (simp add: of_mu_def)
      ultimately show ?thesis using less [of "(of_mu c d)\<lparr>m_buf := b\<rparr>"] by simp
    qed
    show ?thesis
    proof (cases "8 \<le> readableBytes (m_buf c) \<and> ?total \<le> readableBytes (m_buf c)")
      case True
      then have eqs: "parseFcgiPackage c = do {
          c' \<leftarrow> co_dispatch ?h c; b \<leftarrow> retrieve ?total (m_buf c'); parseFcgiPackage (c'\<lparr>m_buf := b\<rparr>)}"
        "parseRequest (m_buf c) (to_mu c) = do {
          d \<leftarrow> dispatch (to_rh ?h) (m_buf c) (to_mu c); b \<leftarrow> retrieve ?total (m_buf c); parseRequest b d}"
        unfolding parseFcgiPackage.simps [of c] parseRequest.simps [of "m_buf c"] raw Some
          Option.bind.simps Let_def hton16_network rh flds co_kRecordHeader_def kRecordHeader_def
        by simp_all
      show ?thesis
        using step True unfolding eqs co_dispatch_mu
        by (cases "dispatch (to_rh ?h) (m_buf c) (to_mu c)"; cases "retrieve ?total (m_buf c)") simp_all
    next
      case False
      then show ?thesis
        unfolding parseFcgiPackage.simps [of c] parseRequest.simps [of "m_buf c"] raw Some
          Option.bind.simps Let_def hton16_network rh flds co_kRecordHeader_def kRecordHeader_def
        by auto
    qed
  qed
qed

lemma co_put_stdout_mu: "co_put_stdout (hton16 l) p s r = put_stdout (stdout_header l p) s r"
  by (simp add: co_put_stdout_def put_stdout_def co_header_bytes_mu stdout_header_def to_rh_def
      hton16_network co_kRecordHeader_def kRecordHeader_def)

lemma co_respond_loop_mu: "co_respond_loop i n out r = respond_loop i n out r"
proof (induction i n out r rule: co_respond_loop.induct)
  case (1 i n out r)
  show ?case
    using 1 unfolding co_respond_loop.simps [of i n out r] respond_loop.simps [of i n out r]
      co_put_stdout_mu FCGI_MAX_CONTENT_LENGTH_def FCGI_MAX_LENGTH_def
    by (auto split: Option.bind_splits)
qed

lemma co_respond_mu: "co_respond out r = respond out r"
proof -
  have "co_endStdout = endStdout" "co_endRequest = endRequest"
    by (simp_all add: fun_eq_iff co_endStdout_def endStdout_def co_endRequest_def endRequest_def co_header_bytes_mu
        to_rh_def hton16_network co_kRecordHeader_def kRecordHeader_def)
  moreover have "co_empty_result = empty_result" by (simp add: co_empty_result_def empty_result_def)
  ultimately show ?thesis
    by (simp only: co_respond_def respond_def respond_records_def co_put_stdout_mu co_respond_loop_mu
        FCGI_MAX_CONTENT_LENGTH_def FCGI_MAX_LENGTH_def Let_def)
qed

section \<open>Reading\<close>

definition co_recv :: "bytes \<Rightarrow> CoCodec \<Rightarrow> CoCodec option" where
  "co_recv chunk c = do {
     (n, e, b) \<leftarrow> readFd (Inr chunk) (m_buf c);
     (ok, c') \<leftarrow> parseFcgiPackage (c\<lparr>m_buf := b\<rparr>);
     Some c'
   }"

definition co_inv :: "CoCodec \<Rightarrow> bool" where
  "co_inv c \<longleftrightarrow> Buffer_inv (m_buf c) \<and> codec_inv (to_mu c)"

lemma new_CoCodec_ok:
  "co_inv new_CoCodec" "conn_of (to_mu new_CoCodec) = connection_init" "content (m_buf new_CoCodec) = []"
proof -
  have "to_mu new_CoCodec = new_FastCgiCodec"
    by (simp add: to_mu_def new_CoCodec_def new_FastCgiCodec_def)
  then show "co_inv new_CoCodec" "conn_of (to_mu new_CoCodec) = connection_init"
    "content (m_buf new_CoCodec) = []"
    by (simp_all add: co_inv_def) (simp_all add: new_CoCodec_def new_Buffer_inv)
qed

lemma parseFcgiPackage_refines:
  assumes "co_inv c"
  obtains c' where "parseFcgiPackage c = Some (True, c')" "co_inv c'"
    "receive (content (m_buf c)) (conn_of (to_mu c)) = (conn_of (to_mu c'), content (m_buf c'))"
proof -
  have "Buffer_inv (m_buf c)" "codec_inv (to_mu c)" using assms by (simp_all add: co_inv_def)
  from parseRequest_refines [OF this(2,1)]
  obtain b d where "parseRequest (m_buf c) (to_mu c) = Some (True, b, d)" "codec_inv d" "Buffer_inv b"
    "receive (content (m_buf c)) (conn_of (to_mu c)) = (conn_of d, content b)" by auto
  then show ?thesis
    by (intro that [of "(of_mu c d)\<lparr>m_buf := b\<rparr>"])
      (simp_all add: parseFcgiPackage_mu co_inv_def)
qed

text \<open>A read of some bytes, followed by the parser.\<close>

lemma read_and_parse:
  assumes "co_inv c"
  obtains b c' where "readFd (Inr chunk) (m_buf c) = Some (int (length chunk), None, b)"
    "parseFcgiPackage (c\<lparr>m_buf := b\<rparr>) = Some (True, c')" "co_inv c'"
    "receive (content (m_buf c) @ chunk) (conn_of (to_mu c)) = (conn_of (to_mu c'), content (m_buf c'))"
proof -
  have inv: "Buffer_inv (m_buf c)" "codec_inv (to_mu c)" using assms by (simp_all add: co_inv_def)
  obtain b where b: "readFd (Inr chunk) (m_buf c) = Some (int (length chunk), None, b)" "Buffer_inv b"
      "content b = content (m_buf c) @ chunk"
    using readFd_total [OF inv(1)] .
  have "co_inv (c\<lparr>m_buf := b\<rparr>)" using inv b by (simp add: co_inv_def)
  then obtain c' where "parseFcgiPackage (c\<lparr>m_buf := b\<rparr>) = Some (True, c')" "co_inv c'"
    "receive (content (m_buf (c\<lparr>m_buf := b\<rparr>))) (conn_of (to_mu (c\<lparr>m_buf := b\<rparr>))) =
       (conn_of (to_mu c'), content (m_buf c'))"
    by (rule parseFcgiPackage_refines)
  with b that [of b c'] show ?thesis by simp
qed

lemma co_recv_ok:
  assumes "co_inv c"
  shows "\<exists>c'. co_recv chunk c = Some c' \<and> co_inv c' \<and>
    receive (content (m_buf c) @ chunk) (conn_of (to_mu c)) = (conn_of (to_mu c'), content (m_buf c'))"
proof -
  obtain b c' where "readFd (Inr chunk) (m_buf c) = Some (int (length chunk), None, b)"
    "parseFcgiPackage (c\<lparr>m_buf := b\<rparr>) = Some (True, c')" "co_inv c'"
    "receive (content (m_buf c) @ chunk) (conn_of (to_mu c)) = (conn_of (to_mu c'), content (m_buf c'))"
    using assms by (rule read_and_parse)
  then show ?thesis by (simp add: co_recv_def)
qed

interpretation co: wire_codec "\<lambda>c. conn_of (to_mu c)" "\<lambda>c. content (m_buf c)" co_inv co_recv new_CoCodec
  by unfold_locales (simp_all add: new_CoCodec_ok co_recv_ok)

section \<open>Writing\<close>

text \<open>
  What \<^verbatim>\<open>write\<close> promises of a non-empty request: it fails, or takes at least one byte and not
  more than it was given.
\<close>

definition write_ok :: "(nat \<Rightarrow> nat \<Rightarrow> int) \<Rightarrow> bool" where
  "write_ok w \<longleftrightarrow> (\<forall>i n. 0 < n \<longrightarrow> w i n \<noteq> 0 \<and> w i n \<le> int n)"

text \<open>What has been sent of a message: all of it, or a part of it and an error.\<close>

definition sent_of :: "int \<Rightarrow> bytes \<Rightarrow> bytes \<Rightarrow> bool" where
  "sent_of ret sent msg \<longleftrightarrow>
     ret = ERR_OK \<and> sent = msg \<or>
     ret = ERR_SOCKET_WRITE \<and> (\<exists>unsent. unsent \<noteq> [] \<and> msg = sent @ unsent)"

lemma write_loop_ok:
  assumes "write_ok w" "Buffer_inv r"
  shows "\<exists>ret sent. write_loop w i r done = Some (ret, done @ sent) \<and> sent_of ret sent (content r)"
  using assms(2)
proof (induction "readableBytes r" arbitrary: r i "done" rule: less_induct)
  case less
  let ?n = "w i (readableBytes r)"
  show ?case
  proof (cases "0 < readableBytes r")
    case True
    then have n: "?n \<noteq> 0" "?n \<le> int (readableBytes r)" using assms(1) by (simp_all add: write_ok_def)
    show ?thesis
    proof (cases "0 < ?n")
      case pos: True
      then have le: "nat ?n \<le> readableBytes r" using n by simp
      obtain r' where r': "retrieve (nat ?n) r = Some r'" "Buffer_inv r'" "content r' = drop (nat ?n) (content r)"
        using retrieve_total [OF less.prems le] by blast
      have "readableBytes r' < readableBytes r" using retrieve_readable [OF r'(1)] pos True by simp
      from less.hyps [OF this r'(2), of "Suc i" "done @ take (nat ?n) (peek r)"]
      obtain ret sent where ih: "write_loop w (Suc i) r' (done @ take (nat ?n) (peek r)) =
          Some (ret, (done @ take (nat ?n) (peek r)) @ sent)" "sent_of ret sent (content r')" by blast
      have "take (nat ?n) (peek r) = take (nat ?n) (content r)" using le by (simp add: content_def)
      then have "content r = take (nat ?n) (peek r) @ content r'" by (simp add: r'(3))
      then have "sent_of ret (take (nat ?n) (peek r) @ sent) (content r)"
        using ih(2) unfolding sent_of_def by auto
      moreover have "write_loop w i r done = write_loop w (Suc i) r' (done @ take (nat ?n) (peek r))"
        using True pos r'(1) by (subst write_loop.simps) (simp only: if_True Let_def Option.bind.simps)
      ultimately show ?thesis
        using ih(1) by (intro exI [of _ ret] exI [of _ "take (nat ?n) (peek r) @ sent"]) simp
    next
      case False
      then have "write_loop w i r done = Some (ERR_SOCKET_WRITE, done)"
        using n(1) True by (subst write_loop.simps) (simp only: if_True if_False Let_def, simp)
      moreover have "content r \<noteq> []" using True length_content [OF less.prems] by auto
      ultimately show ?thesis by (auto simp: sent_of_def err_defs)
    qed
  next
    case False
    then have "content r = []" using length_content [OF less.prems] by (metis length_0_conv neq0_conv)
    moreover have "write_loop w i r done = Some (ERR_OK, done)" using False by (subst write_loop.simps) (simp only: if_False)
    ultimately show ?thesis by (auto simp: sent_of_def)
  qed
qed

section \<open>Requests\<close>

text \<open>The value of a parameter, empty if it is absent, and the parameters after a request has
  looked three of them up.\<close>

definition param_or_empty :: "bytes \<Rightarrow> ParamMap \<Rightarrow> bytes" where
  "param_or_empty k m = (case m k of None \<Rightarrow> [] | Some v \<Rightarrow> v)"

definition looked_up :: "ParamMap \<Rightarrow> ParamMap" where
  "looked_up m k =
     (if k \<in> {''QUERY_STRING'', ''CONTENT_TYPE'', ''HTTP_COOKIE''} then Some (param_or_empty k m) else m k)"

lemma subscripts:
  "(case subscript ''QUERY_STRING'' m of (q, m1) \<Rightarrow>
     case subscript ''CONTENT_TYPE'' m1 of (t, m2) \<Rightarrow>
     case subscript ''HTTP_COOKIE'' m2 of (k, m3) \<Rightarrow> f q t k m3) =
   f (param_or_empty ''QUERY_STRING'' m) (param_or_empty ''CONTENT_TYPE'' m)
     (param_or_empty ''HTTP_COOKIE'' m) (looked_up m)"
proof -
  have sub: "subscript k m = (param_or_empty k m, m(k \<mapsto> param_or_empty k m))" for k m
    by (auto simp: subscript_def param_or_empty_def fun_upd_idem split: option.splits)
  have "m(''QUERY_STRING'' \<mapsto> param_or_empty ''QUERY_STRING'' m,
      ''CONTENT_TYPE'' \<mapsto> param_or_empty ''CONTENT_TYPE'' m,
      ''HTTP_COOKIE'' \<mapsto> param_or_empty ''HTTP_COOKIE'' m) = looked_up m"
    by (auto simp: looked_up_def)
  then show ?thesis by (simp add: sub) (simp add: param_or_empty_def)
qed

definition request_cgi :: "ParamMap \<Rightarrow> bytes \<Rightarrow> Cgicc option" where
  "request_cgi m body = new_Cgicc (param_or_empty ''QUERY_STRING'' m) (param_or_empty ''HTTP_COOKIE'' m)
     body (param_or_empty ''CONTENT_TYPE'' m)"

text \<open>What the application answers, and what is sent when it answers nothing.\<close>

definition answer :: "(ParamMap \<Rightarrow> ParamMap \<Rightarrow> bytes) option \<Rightarrow> ParamMap \<Rightarrow> Cgicc \<Rightarrow> bytes" where
  "answer cb m cgi =
     (let res = (case cb of None \<Rightarrow> [] | Some f \<Rightarrow> f (co_qmap cgi) (co_reqheader (looked_up m) cgi))
      in if res = [] then empty_result else res)"

definition answer_fits :: "(ParamMap \<Rightarrow> ParamMap \<Rightarrow> bytes) option \<Rightarrow> bool" where
  "answer_fits cb \<longleftrightarrow> (\<forall>f q h. cb = Some f \<longrightarrow> length (f q h) \<le> npos)"

lemma doRequest_ok:
  assumes "co_inv c" "write_ok w" "answer_fits cb" "request_cgi (m_params c) (content (m_stdin c)) = Some cgi"
  obtains ret sent inp where
    "doRequest cb w c = Some (ret, sent, c\<lparr>m_params := looked_up (m_params c), m_stdin := inp\<rparr>)"
    "Buffer_inv inp" "sent_of ret sent (response_bytes (answer cb (m_params c) cgi))"
proof -
  have "Buffer_inv (m_stdin c)" using assms(1) by (simp add: co_inv_def codec_inv_def)
  then obtain inp where inp: "(if 0 < readableBytes (m_stdin c) then retrieveAllAsString (m_stdin c)
      else Some ([], m_stdin c)) = Some (content (m_stdin c), inp)" "Buffer_inv inp"
    by (rule post_data_total)
  let ?res = "case cb of None \<Rightarrow> [] | Some f \<Rightarrow> f (co_qmap cgi) (co_reqheader (looked_up (m_params c)) cgi)"
  have "length ?res \<le> npos" using assms(3) by (simp add: answer_fits_def split: option.splits)
  then obtain r where r: "respond ?res (new_Buffer kInitialSize) =
      Some (if ?res = [] then empty_result else ?res, r)" "Buffer_inv r"
    "content r = content (new_Buffer kInitialSize) @ response_bytes (if ?res = [] then empty_result else ?res)"
    by (rule respond_total [OF new_Buffer_inv])
  then have resp: "content r = response_bytes (answer cb (m_params c) cgi)"
    unfolding answer_def Let_def by simp
  obtain ret sent where w: "write_loop w 0 r [] = Some (ret, [] @ sent)" "sent_of ret sent (content r)"
    using write_loop_ok [OF assms(2) r(2), of 0 "[]"] by blast
  have "doRequest cb w c = Some (ret, sent, c\<lparr>m_params := looked_up (m_params c), m_stdin := inp\<rparr>)"
    unfolding doRequest_def Let_def subscripts inp(1) co_respond_mu
    using assms(4) r(1) w(1) unfolding request_cgi_def by simp
  from this inp(2) w(2) [unfolded resp] show ?thesis by (rule that)
qed

text \<open>\<^verbatim>\<open>readData\<close> on bytes that complete a request, and on bytes that do not.\<close>

lemma readData_cases:
  assumes "co_inv c" "chunk \<noteq> []" "write_ok w" "answer_fits cb"
    and "receive (content (m_buf c) @ chunk) (conn_of (to_mu c)) = (k, left)"
    and "got k \<Longrightarrow> request_cgi (pmap k) (input k) = Some cgi"
  shows "\<exists>code sent c'. readData cb w e (Inr chunk) c = Some (code, sent, c') \<and> co_inv c' \<and>
    content (m_buf c') = left \<and>
    (if got k then conn_of (to_mu c') = connection_init\<lparr>keep := keep k\<rparr> \<and>
       (\<exists>ret. sent_of ret sent (response_bytes (answer cb (pmap k) cgi)) \<and>
          code = (if \<not> keep k \<and> ret = ERR_OK then ERR_SOCKET_FINISH else ERR_OK))
     else conn_of (to_mu c') = k \<and> sent = [] \<and> code = ERR_OK)"
proof -
  obtain b c1 where p: "readFd (Inr chunk) (m_buf c) = Some (int (length chunk), None, b)"
    "parseFcgiPackage (c\<lparr>m_buf := b\<rparr>) = Some (True, c1)" "co_inv c1"
    "receive (content (m_buf c) @ chunk) (conn_of (to_mu c)) = (conn_of (to_mu c1), content (m_buf c1))"
    using assms(1) by (rule read_and_parse)
  have k: "k = conn_of (to_mu c1)" "left = content (m_buf c1)" using p(4) assms(5) by simp_all
  have inv: "Buffer_inv (m_buf c1)" "Buffer_inv (m_stdin c1)" "Buffer_inv (m_paramsStream c1)"
    using p(3) by (simp_all add: co_inv_def codec_inv_def)
  show ?thesis
  proof (cases "m_gotRequest c1")
    case True
    then have "request_cgi (m_params c1) (content (m_stdin c1)) = Some cgi"
      using assms(6) k(1) by (simp add: conn_of_def)
    with p(3) assms(3,4) obtain ret sent inp where d:
      "doRequest cb w c1 = Some (ret, sent, c1\<lparr>m_params := looked_up (m_params c1), m_stdin := inp\<rparr>)"
      "Buffer_inv inp" "sent_of ret sent (response_bytes (answer cb (m_params c1) cgi))"
      by (rule doRequest_ok)
    let ?c = "c1\<lparr>m_params := Map.empty, m_stdin := retrieveAll inp,
      m_paramsStream := retrieveAll (m_paramsStream c1), m_gotRequest := False\<rparr>"
    have "readData cb w e (Inr chunk) c =
        Some (if \<not> m_keepConn c1 \<and> ret = ERR_OK then ERR_SOCKET_FINISH else ERR_OK, sent, ?c)"
      using assms(2) p(1,2) True d(1) by (simp add: readData_def Let_def)
    moreover have "co_inv ?c"
      using inv d(2) by (simp add: co_inv_def codec_inv_def retrieveAll_inv)
    moreover have "conn_of (to_mu ?c) = connection_init\<lparr>keep := keep k\<rparr>"
      by (simp add: conn_of_def connection_init_def k(1) to_mu_def)
    ultimately show ?thesis
      using True d(3) k by (auto simp: conn_of_def)
  next
    case False
    then have "readData cb w e (Inr chunk) c = Some (ERR_OK, [], c1)"
      using assms(2) p(1,2) by (simp add: readData_def Let_def)
    with False p(3) k show ?thesis by (auto simp: conn_of_def)
  qed
qed

text \<open>A sequence of reads: the return codes, the bytes sent and the codec.\<close>

primrec read_all ::
  "(ParamMap \<Rightarrow> ParamMap \<Rightarrow> bytes) option \<Rightarrow> (nat \<Rightarrow> nat \<Rightarrow> int) \<Rightarrow> int \<Rightarrow> bytes list \<Rightarrow> CoCodec
   \<Rightarrow> (int list \<times> bytes \<times> CoCodec) option" where
  "read_all cb w e [] c = Some ([], [], c)"
| "read_all cb w e (x # xs) c = do {
     (code, sent, c1) \<leftarrow> readData cb w e (Inr x) c;
     (codes, sent', c2) \<leftarrow> read_all cb w e xs c1;
     Some (code # codes, sent @ sent', c2)
   }"

lemma read_all_request:
  assumes "write_ok w" "answer_fits cb"
    and "list_all chunk_ok ps" "list_all chunk_ok ins" "concat ps = enc_pairs kvs"
    and "\<And>k v. (k, v) \<in> set kvs \<Longrightarrow> length k < 2 ^ 31 \<and> length v < 2 ^ 31"
    and "role < 65536" "flags < 256"
    and "request_cgi (map_of (rev kvs)) (concat ins) = Some cgi"
    and "cs \<noteq> []" "\<And>x. x \<in> set cs \<Longrightarrow> x \<noteq> []"
    and "p @ concat cs = enc_request rid role flags ps ins" "co_inv c"
    and "receive p connection_init = (conn_of (to_mu c), content (m_buf c))"
  shows "\<exists>ret sent c'.
    read_all cb w e cs c = Some (replicate (length cs - 1) ERR_OK @
      [if \<not> (role = 1 \<and> flags = 1) \<and> ret = ERR_OK then ERR_SOCKET_FINISH else ERR_OK], sent, c') \<and>
    sent_of ret sent (response_bytes (answer cb (map_of (rev kvs)) cgi)) \<and> co_inv c' \<and>
    content (m_buf c') = [] \<and>
    conn_of (to_mu c') = connection_init\<lparr>keep := (role = 1 \<and> flags = 1)\<rparr>"
  using assms(10-14)
proof (induction cs arbitrary: p c)
  case (Cons x xs)
  have x: "x \<noteq> []" using Cons.prems(2) by simp
  have rec: "receive (content (m_buf c) @ x) (conn_of (to_mu c)) = receive (p @ x) connection_init"
    using receive_append [OF Cons.prems(5)] by simp
  show ?case
  proof (cases "xs = []")
    case True
    have nil: "receive [] k = (k, [])" for k by (simp add: receive_unfold take_record_def)
    have "p @ x = enc_request rid role flags ps ins" using Cons.prems(3) True by simp
    then have "receive (content (m_buf c) @ x) (conn_of (to_mu c)) =
        (\<lparr>got = True, keep = (role = 1 \<and> flags = 1), input = concat ins, pstream = [],
          pmap = map_of (rev kvs)\<rparr>, [])"
      unfolding rec using receive_enc_request [OF assms(3-8), of rid "[]"] nil by simp
    from readData_cases [OF Cons.prems(4) x assms(1,2) this, of cgi e] assms(9)
    show ?thesis unfolding True by auto
  next
    case False
    obtain k r where kr: "receive (p @ x) connection_init = (k, r)" by fastforce
    have "concat xs \<noteq> []" using False Cons.prems(2) by (cases xs) auto
    moreover have px: "(p @ x) @ concat xs = enc_request rid role flags ps ins" using Cons.prems(3) by simp
    ultimately have ng: "\<not> got k" using receive_incomplete [OF _ _ assms(3,4) kr] by blast
    from readData_cases [OF Cons.prems(4) x assms(1,2) rec [unfolded kr], of cgi e] ng
    obtain c1 where c1: "readData cb w e (Inr x) c = Some (ERR_OK, [], c1)" "co_inv c1"
      "content (m_buf c1) = r" "conn_of (to_mu c1) = k" by auto
    from Cons.IH [OF False _ px c1(2)] Cons.prems(2) kr c1(3,4)
    obtain ret sent c' where ih: "read_all cb w e xs c1 = Some (replicate (length xs - 1) ERR_OK @
        [if \<not> (role = 1 \<and> flags = 1) \<and> ret = ERR_OK then ERR_SOCKET_FINISH else ERR_OK], sent, c')"
      "sent_of ret sent (response_bytes (answer cb (map_of (rev kvs)) cgi))" "co_inv c'"
      "content (m_buf c') = []" "conn_of (to_mu c') = connection_init\<lparr>keep := (role = 1 \<and> flags = 1)\<rparr>"
      by auto
    have "replicate (length xs) ERR_OK = ERR_OK # replicate (length xs - 1) ERR_OK"
      using False by (cases xs) simp_all
    with ih c1(1) show ?thesis
      by (intro exI [of _ ret] exI [of _ sent] exI [of _ c']) simp
  qed
qed simp

section \<open>Properties\<close>

text \<open>
  C10: The two servers' codecs agree: on any bytes and in any state the parser of cocgi leaves
  the same codec state, the same unread bytes and the same result as the parser of mucgi, failed
  assertions included, and both build the same response for every output.
\<close>

theorem cocgi_codec_equivalent:
  "parseFcgiPackage c =
     map_option (\<lambda>(ok, b, d). (ok, (of_mu c d)\<lparr>m_buf := b\<rparr>)) (parseRequest (m_buf c) (to_mu c)) \<and>
   co_respond out r = respond out r"
  by (simp add: parseFcgiPackage_mu co_respond_mu)



text \<open>
  C29: The write loop always returns when \<^verbatim>\<open>write\<close> keeps its contract, and then all bytes of
  the response have been written in order, or an error is reported and a proper prefix of them
  has been.
\<close>

theorem cocgi_write_loop_returns:
  assumes "write_ok w" "Buffer_inv r"
  shows "\<exists>ret sent. write_loop w 0 r [] = Some (ret, sent) \<and> sent_of ret sent (content r)"
  using write_loop_ok [OF assms, of 0 "[]"] by simp

theorem cocgi_write_loop_returns_witness:
  "\<exists>ret sent. write_loop (\<lambda>i n. 1) 0 (new_Buffer kInitialSize) [] = Some (ret, sent) \<and>
     sent_of ret sent []"
  using cocgi_write_loop_returns [of "\<lambda>i n. 1" "new_Buffer kInitialSize"]
  by (simp add: write_ok_def new_Buffer_inv)

text \<open>
  C31: The return codes of \<^verbatim>\<open>readData\<close>: a failed write is never reported, since only
  \<^verbatim>\<open>ERR_OK\<close> and \<^verbatim>\<open>ERR_SOCKET_FINISH\<close> leave the branch that answers; a failed read is
  \<^verbatim>\<open>ERR_SOCKET_EAGAIN\<close> exactly for that error number; and the end of the stream is reported
  as \<^verbatim>\<open>ERR_SOCKET_EAGAIN\<close> too when an earlier call left that number in \<^verbatim>\<open>errno\<close>.
\<close>

theorem cocgi_readData_codes:
  "(readData cb w e0 (Inr (x # xs)) c = Some (code, sent, c') \<longrightarrow>
      code = ERR_OK \<or> code = ERR_SOCKET_FINISH) \<and>
   readData cb w e0 (Inl e) c =
     Some (if e = EAGAIN then ERR_SOCKET_EAGAIN else ERR_SOCKET_READ, [], c) \<and>
   (Buffer_inv (m_buf c) \<longrightarrow>
    (\<exists>c'. readData cb w e0 (Inr []) c =
       Some (if e0 = EAGAIN then ERR_SOCKET_EAGAIN else ERR_SOCKET_READ, [], c')))"
proof (intro conjI impI)
  assume "readData cb w e0 (Inr (x # xs)) c = Some (code, sent, c')"
  moreover have "n > 0" if "readFd (Inr (x # xs)) b = Some (n, s, b')" for n s b b'
    using that by (auto simp: readFd_def Let_def opt_iff split: if_splits)
  ultimately show "code = ERR_OK \<or> code = ERR_SOCKET_FINISH"
    by (fastforce simp: readData_def Let_def opt_iff split: if_splits)
next
  show "readData cb w e0 (Inl e) c =
     Some (if e = EAGAIN then ERR_SOCKET_EAGAIN else ERR_SOCKET_READ, [], c)"
    by (simp add: readData_def readFd_def)
next
  assume "Buffer_inv (m_buf c)"
  then obtain b where "readFd (Inr []) (m_buf c) = Some (int (length ([] :: bytes)), None, b)" "Buffer_inv b"
      "content b = content (m_buf c) @ []"
    by (rule readFd_total [where data = "[]"])
  then show "\<exists>c'. readData cb w e0 (Inr []) c =
       Some (if e0 = EAGAIN then ERR_SOCKET_EAGAIN else ERR_SOCKET_READ, [], c')"
    by (simp add: readData_def)
qed

theorem cocgi_readData_codes_witness:
  "readData None (\<lambda>i n. int n) EAGAIN (Inl 104) new_CoCodec = Some (ERR_SOCKET_READ, [], new_CoCodec) \<and>
   (\<exists>c'. readData None (\<lambda>i n. int n) EAGAIN (Inr []) new_CoCodec = Some (ERR_SOCKET_EAGAIN, [], c'))"
  using cocgi_readData_codes [where cb = None and w = "\<lambda>i n. int n" and c = new_CoCodec and ?e0.0 = EAGAIN and e = 104] new_CoCodec_ok(1)
  by (simp add: co_inv_def EAGAIN_def)

end
