(* ===== verification/Cocgi_Server.thy ===== *)
theory Cocgi_Server
  imports Cocgi_Codec "HOL-Library.AList"
begin

text \<open>
  The coroutine server: \<^verbatim>\<open>src/cocgi/cocgi_lib/cocgi.h\<close> and \<^verbatim>\<open>src/cocgi/cocgi_lib/cocgi.cpp\<close>.
  A worker process is a state machine. Its coroutines are the accept routine and one
  read-write routine per task; each runs until it polls, yields or returns, so a step is what
  one of them does between two suspensions. A task is named by its \<^verbatim>\<open>uCoId\<close>. The results of
  system calls are arguments; \<^verbatim>\<open>co_create\<close> stores a pointer that is never null.
\<close>

section \<open>State\<close>

text \<open>Where the routine of a task is suspended.\<close>

datatype co_point = NotStarted | AtPoll int nat | AtYield

record CocgiTask =
  iFd :: int
  uCoId :: u32
  pFastCgiCodec :: CoCodec
  point :: co_point

datatype accept_point = Accepting | AcceptPoll

record CCocgiServer =
  m_usProcessCount :: u16
  m_usCoroutineCount :: u16
  m_usMaxCoroutineCount :: u16
  m_usPort :: u16
  m_iListenFd :: int
  m_pCgiCodecCallBack :: "(ParamMap \<Rightarrow> ParamMap \<Rightarrow> bytes) option"
  m_strIp :: bytes
  m_lIdleTask :: "u32 list"
  m_usRunTask :: "u32 list"
  m_umTask :: "(u32 \<times> CocgiTask) list"
  m_uCoIndex :: u32
  accept_at :: accept_point
  open_fds :: "int list"

definition new_CCocgiServer ::
  "bytes \<Rightarrow> u16 \<Rightarrow> u16 \<Rightarrow> u16 \<Rightarrow> (ParamMap \<Rightarrow> ParamMap \<Rightarrow> bytes) option \<Rightarrow> CCocgiServer" where
  "new_CCocgiServer ip port pcount ccount cb =
     \<lparr>m_usProcessCount = pcount, m_usCoroutineCount = ccount, m_usMaxCoroutineCount = 50,
      m_usPort = port, m_iListenFd = 0, m_pCgiCodecCallBack = cb, m_strIp = ip, m_lIdleTask = [],
      m_usRunTask = [], m_umTask = [], m_uCoIndex = 0, accept_at = Accepting, open_fds = []\<rparr>"

definition MAX_RECYCLE_COUNT :: nat where
  "MAX_RECYCLE_COUNT = 60"

section \<open>Listening\<close>

record sockaddr_in =
  sin_family :: int
  sin_port :: u16
  sin_addr :: u32

definition AF_INET :: int where "AF_INET = 2"
definition INADDR_ANY :: u32 where "INADDR_ANY = 0"

text \<open>\<^verbatim>\<open>inet_addr\<close> is an argument. A null address is \<open>None\<close>.\<close>

definition SetAddr :: "(bytes \<Rightarrow> u32) \<Rightarrow> bytes option \<Rightarrow> u16 \<Rightarrow> sockaddr_in" where
  "SetAddr inet_addr pszIP shPort =
     \<lparr>sin_family = AF_INET, sin_port = hostToNetwork16 shPort,
      sin_addr = (case pszIP of
         None \<Rightarrow> hostToNetwork32 INADDR_ANY
       | Some ip \<Rightarrow>
           if ip = [] \<or> ip = ''0'' \<or> ip = ''0.0.0.0'' \<or> ip = ''*'' then hostToNetwork32 INADDR_ANY
           else inet_addr ip)\<rparr>"

datatype sys_call =
    SysSocket | SysReuseAddr int | SysReusePort int | SysBind int sockaddr_in | SysClose int
  | SysListen int u16 | SysNonBlock int

text \<open>
  The descriptor, or \<open>-1\<close>, and the calls made. \<open>fd\<close> and \<open>bound\<close> are the results of
  \<^verbatim>\<open>socket\<close> and \<^verbatim>\<open>bind\<close>; those of \<^verbatim>\<open>setsockopt\<close> only decide what is logged.
\<close>

definition CreateTcpSocket ::
  "(bytes \<Rightarrow> u32) \<Rightarrow> int \<Rightarrow> int \<Rightarrow> u16 \<Rightarrow> bytes option \<Rightarrow> bool \<Rightarrow> int \<times> sys_call list" where
  "CreateTcpSocket inet_addr fd bound shPort pszIP bReuse =
     (if 0 \<le> fd then
        if shPort \<noteq> 0 then
          let calls = [SysSocket] @ (if bReuse then [SysReuseAddr fd] else []) @ [SysReusePort fd] @
                [SysBind fd (SetAddr inet_addr pszIP shPort)]
          in if bound \<noteq> 0 then (- 1, calls @ [SysClose fd]) else (fd, calls)
        else (fd, [SysSocket])
      else (fd, [SysSocket]))"

definition cocgi_Init ::
  "(bytes \<Rightarrow> u32) \<Rightarrow> int \<Rightarrow> int \<Rightarrow> int \<Rightarrow> bool \<Rightarrow> u16 \<Rightarrow> CCocgiServer \<Rightarrow> bool \<times> sys_call list \<times> CCocgiServer"
where
  "cocgi_Init inet_addr fd bound listened bReuse usListenNum s =
     (if m_strIp s = [] then (False, [], s)
      else if m_usPort s = 0 then (False, [], s)
      else if m_usProcessCount s = 0 then (False, [], s)
      else if m_usCoroutineCount s = 0 then (False, [], s)
      else if m_pCgiCodecCallBack s = None then (False, [], s)
      else
        let (lfd, calls) = CreateTcpSocket inet_addr fd bound (m_usPort s) (Some (m_strIp s)) bReuse;
            s1 = s\<lparr>m_iListenFd := lfd\<rparr>
        in if lfd < 0 then (False, calls, s1)
           else if listened < 0 then (False, calls @ [SysListen lfd usListenNum], s1)
           else (True, calls @ [SysListen lfd usListenNum, SysNonBlock lfd], s1))"

section \<open>Tasks\<close>

definition CreateCocgiTask :: "CCocgiServer \<Rightarrow> bool \<times> CCocgiServer" where
  "CreateCocgiTask s =
     (let t = \<lparr>iFd = - 1, uCoId = m_uCoIndex s, pFastCgiCodec = new_CoCodec, point = NotStarted\<rparr>
      in (True, s\<lparr>m_uCoIndex := m_uCoIndex s + 1, m_lIdleTask := uCoId t # m_lIdleTask s,
                  m_umTask := AList.update (uCoId t) t (m_umTask s)\<rparr>))"

definition put_task :: "CocgiTask \<Rightarrow> CCocgiServer \<Rightarrow> CCocgiServer" where
  "put_task t s = s\<lparr>m_umTask := AList.update (uCoId t) t (m_umTask s)\<rparr>"

text \<open>
  The head of the outer loop of \<^verbatim>\<open>RealReadwriteRoutine\<close>, up to the next suspension: a task
  without a connection is released when there are too many and otherwise becomes idle; a task
  with one starts to poll it.
\<close>

definition loop_head :: "CocgiTask \<Rightarrow> CCocgiServer \<Rightarrow> CCocgiServer" where
  "loop_head t s =
     (if iFd t = - 1 then
        if unat (m_usMaxCoroutineCount s) < length (m_umTask s)
        then s\<lparr>m_usRunTask := removeAll (uCoId t) (m_usRunTask s),
               m_umTask := AList.delete (uCoId t) (m_umTask s)\<rparr>
        else (put_task (t\<lparr>pFastCgiCodec := co_clear (pFastCgiCodec t), point := AtYield\<rparr>) s)
               \<lparr>m_lIdleTask := uCoId t # m_lIdleTask s,
                m_usRunTask := removeAll (uCoId t) (m_usRunTask s)\<rparr>
      else put_task (t\<lparr>iFd := - 1, pFastCgiCodec := co_clear (pFastCgiCodec t),
                       point := AtPoll (iFd t) 0\<rparr>) s)"

definition close_fd :: "int \<Rightarrow> CCocgiServer \<Rightarrow> CCocgiServer" where
  "close_fd fd s = s\<lparr>open_fds := removeAll fd (open_fds s)\<rparr>"

text \<open>
  What follows a poll of descriptor \<open>fd\<close>: \<^verbatim>\<open>readData\<close>, then the next poll, or the end of the
  connection and the outer loop. The result also holds the bytes sent.
\<close>

definition task_wake ::
  "(nat \<Rightarrow> nat \<Rightarrow> int) \<Rightarrow> int \<Rightarrow> int + bytes \<Rightarrow> CocgiTask \<Rightarrow> int \<Rightarrow> nat \<Rightarrow> CCocgiServer
   \<Rightarrow> (bytes \<times> CCocgiServer) option" where
  "task_wake w errno0 readv_result t fd recycle s = do {
     (ret, sent, codec) \<leftarrow> readData (m_pCgiCodecCallBack s) w errno0 readv_result (pFastCgiCodec t);
     let t1 = t\<lparr>pFastCgiCodec := codec\<rparr>;
     if ret = ERR_OK then Some (sent, put_task (t1\<lparr>point := AtPoll fd 0\<rparr>) s)
     else if ret = ERR_SOCKET_EAGAIN then
       (if MAX_RECYCLE_COUNT \<le> recycle then Some (sent, loop_head t1 (close_fd fd s))
        else Some (sent, put_task (t1\<lparr>point := AtPoll fd (Suc recycle)\<rparr>) s))
     else Some (sent, loop_head t1 (close_fd fd s))
   }"

section \<open>Accepting\<close>

text \<open>
  One round of \<^verbatim>\<open>AcceptRoutine\<close>, where \<open>fd\<close> is the result of \<^verbatim>\<open>co_accept\<close>, if it is called.
  Resuming the task runs its routine from its suspension to the head of its loop and on.
\<close>

definition accept_round :: "int \<Rightarrow> CCocgiServer \<Rightarrow> CCocgiServer" where
  "accept_round fd s =
     (let s1 = (if m_lIdleTask s = [] \<and> length (m_umTask s) < unat (m_usMaxCoroutineCount s)
                then snd (CreateCocgiTask s) else s)
      in case m_lIdleTask s1 of
           [] \<Rightarrow> s1
         | i # idle \<Rightarrow>
             if fd < 0 then s1\<lparr>accept_at := AcceptPoll\<rparr>
             else case map_of (m_umTask s1) i of
                 None \<Rightarrow> s1
               | Some t0 \<Rightarrow>
                   let t = t0\<lparr>iFd := fd\<rparr>;
                       s2 = (put_task t s1)\<lparr>open_fds := fd # open_fds s1, m_lIdleTask := idle,
                               m_usRunTask := List.insert i (m_usRunTask s1)\<rparr>
                   in loop_head t s2)"

primrec create_tasks :: "nat \<Rightarrow> CCocgiServer \<Rightarrow> CCocgiServer" where
  "create_tasks 0 s = s"
| "create_tasks (Suc n) s = create_tasks n (snd (CreateCocgiTask s))"

text \<open>
  \<^verbatim>\<open>Run\<close>. \<open>fork i\<close> is the result of the \<open>i\<close>-th fork: a child becomes a worker, whose accept
  routine is resumed and which leaves only through \<^verbatim>\<open>exit\<close>; the parent goes on and returns. The
  result of the parent holds whether it waited for a child and how many it has.
\<close>

datatype run_result = Worker CCocgiServer | Parent bool nat

fun run_forks :: "(nat \<Rightarrow> int) \<Rightarrow> nat \<Rightarrow> nat \<Rightarrow> nat \<Rightarrow> bool \<Rightarrow> CCocgiServer \<Rightarrow> run_result" where
  "run_forks fork i 0 children bDaemonize s = Parent (\<not> bDaemonize) children"
| "run_forks fork i (Suc n) children bDaemonize s =
     (if 0 < fork i then run_forks fork (Suc i) n (Suc children) bDaemonize s
      else if fork i < 0 then run_forks fork (Suc i) n children bDaemonize s
      else Worker ((create_tasks (unat (m_usCoroutineCount s)) s)\<lparr>accept_at := Accepting\<rparr>))"

definition cocgi_Run :: "(nat \<Rightarrow> int) \<Rightarrow> bool \<Rightarrow> CCocgiServer \<Rightarrow> run_result" where
  "cocgi_Run fork bDaemonize s = run_forks fork 0 (unat (m_usProcessCount s)) 0 bDaemonize s"

section \<open>Steps\<close>

text \<open>
  The steps of a worker. While the accept routine has not polled, nothing else runs: the
  coroutines share one thread. Once it polls, the event loop resumes it or the routine of a
  task that polls. A descriptor that \<^verbatim>\<open>accept\<close> returns is not open already.
\<close>

inductive worker_step :: "CCocgiServer \<Rightarrow> CCocgiServer \<Rightarrow> bool" where
  accept: "accept_at s = Accepting \<Longrightarrow> fd \<notin> set (open_fds s) \<Longrightarrow> worker_step s (accept_round fd s)"
| accept_wake: "accept_at s = AcceptPoll \<Longrightarrow> worker_step s (s\<lparr>accept_at := Accepting\<rparr>)"
| task: "accept_at s = AcceptPoll \<Longrightarrow> map_of (m_umTask s) i = Some t \<Longrightarrow> point t = AtPoll fd recycle \<Longrightarrow>
    task_wake w e r t fd recycle s = Some (sent, s') \<Longrightarrow> worker_step s s'"

inductive_cases worker_stepE: "worker_step s s'"

definition worker_init :: "bytes \<Rightarrow> u16 \<Rightarrow> u16 \<Rightarrow> u16 \<Rightarrow> (ParamMap \<Rightarrow> ParamMap \<Rightarrow> bytes) option \<Rightarrow> CCocgiServer" where
  "worker_init ip port pcount ccount cb =
     create_tasks (unat ccount) (new_CCocgiServer ip port pcount ccount cb)"

section \<open>The pool of tasks\<close>

definition polls :: "CocgiTask \<Rightarrow> bool" where
  "polls t \<longleftrightarrow> (case point t of AtPoll fd r \<Rightarrow> r \<le> MAX_RECYCLE_COUNT | _ \<Rightarrow> False)"

definition suspended :: "CocgiTask \<Rightarrow> bool" where
  "suspended t \<longleftrightarrow> point t = NotStarted \<or> point t = AtYield"

definition task_ok :: "u32 \<Rightarrow> CocgiTask \<Rightarrow> bool" where
  "task_ok i t \<longleftrightarrow> uCoId t = i \<and> iFd t = - 1 \<and> co_inv (pFastCgiCodec t)"

text \<open>The descriptor a task polls, and those of all tasks.\<close>

definition fd_of :: "CocgiTask \<Rightarrow> int option" where
  "fd_of t = (case point t of AtPoll fd r \<Rightarrow> Some fd | _ \<Rightarrow> None)"

definition fds :: "(u32 \<rightharpoonup> CocgiTask) \<Rightarrow> u32 \<rightharpoonup> int" where
  "fds T i = Option.bind (T i) fd_of"

definition one_owner :: "(u32 \<rightharpoonup> int) \<Rightarrow> bool" where
  "one_owner m \<longleftrightarrow> inj_on m (dom m)"

text \<open>
  The idle and the running tasks are all the tasks; the descriptors that are open are those
  that the running tasks poll, one each, and \<open>own\<close>, which a running routine holds.
\<close>

definition pool ::
  "u32 list \<Rightarrow> u32 set \<Rightarrow> (u32 \<rightharpoonup> CocgiTask) \<Rightarrow> int set \<Rightarrow> int set \<Rightarrow> bool" where
  "pool idle run T opened own \<longleftrightarrow>
     distinct idle \<and> set idle \<inter> run = {} \<and> dom T = set idle \<union> run \<and>
     (\<forall>i t. T i = Some t \<longrightarrow> task_ok i t \<and> (if i \<in> run then polls t else suspended t)) \<and>
     opened = ran (fds T) \<union> own \<and> own \<inter> ran (fds T) = {} \<and> one_owner (fds T)"

lemma fds_upd [simp]: "fds (T(i := x)) = (fds T)(i := Option.bind x fd_of)"
  by (auto simp: fds_def)

lemma one_owner_upd:
  "one_owner m \<Longrightarrow> one_owner (m(i := None))"
  "one_owner m \<Longrightarrow> v \<notin> ran m \<Longrightarrow> one_owner (m(i \<mapsto> v))"
  unfolding one_owner_def by (auto simp: inj_on_def dom_def ran_def)

lemma ran_delete:
  assumes "one_owner m" "m i = Some v"
  shows "ran (m(i := None)) = ran m - {v}"
proof -
  have 1: "j = i" if "m j = Some v" for j
    using assms that unfolding one_owner_def inj_on_def dom_def by auto
  show ?thesis
  proof (intro set_eqI iffI)
    fix x assume "x \<in> ran (m(i := None))"
    then obtain j where "j \<noteq> i" "m j = Some x" by (auto simp: ran_def split: if_splits)
    with 1 show "x \<in> ran m - {v}" by (auto intro: ranI)
  next
    fix x assume "x \<in> ran m - {v}"
    then obtain j where "m j = Some x" "x \<noteq> v" by (auto simp: ran_def)
    with assms(2) have "(m(i := None)) j = Some x" by auto
    then show "x \<in> ran (m(i := None))" by (rule ranI)
  qed
qed

lemma suspended_fd: "suspended t \<Longrightarrow> fd_of t = None"
  by (auto simp: suspended_def fd_of_def)

lemma pool_take_running:
  assumes "pool idle run T opened {}" "i \<in> run" "T i = Some t" "point t = AtPoll fd r"
  shows "pool idle (run - {i}) (T(i := None)) opened {fd}"
proof -
  have "fds T i = Some fd" using assms(3,4) by (simp add: fds_def fd_of_def)
  moreover from this have "fd \<in> ran (fds T)" by (rule ranI)
  moreover have "one_owner (fds T)" using assms(1) by (simp add: pool_def)
  ultimately show ?thesis
    using assms by (auto simp: pool_def ran_delete one_owner_upd split: if_splits)
qed

lemma pool_take_idle:
  assumes "pool (i # idle) run T opened own"
  shows "pool idle run (T(i := None)) opened own"
proof -
  have i: "i \<in> dom T" "i \<notin> run" "\<And>t. T i = Some t \<Longrightarrow> suspended t"
    using assms by (auto simp: pool_def)
  then have "fds T i = None" by (auto simp: fds_def suspended_fd)
  then have "(fds T)(i := None) = fds T" by auto
  with assms show ?thesis by (auto simp: pool_def split: if_splits)
qed

lemma pool_put_running:
  assumes "pool idle run T opened {fd}" "T i = None" "task_ok i t" "polls t" "point t = AtPoll fd r"
  shows "pool idle (insert i run) (T(i \<mapsto> t)) opened {}"
proof -
  have "fds T i = None" "fd_of t = Some fd" "i \<notin> set idle" "i \<notin> run"
    using assms by (auto simp: fds_def fd_of_def pool_def)
  with assms show ?thesis by (auto simp: pool_def one_owner_upd)
qed

lemma pool_put_idle:
  assumes "pool idle run T opened own" "T i = None" "task_ok i t" "suspended t"
  shows "pool (i # idle) run (T(i \<mapsto> t)) opened own"
proof -
  have "(fds T)(i := fd_of t) = fds T" "i \<notin> set idle" "i \<notin> run"
    using assms by (auto simp: fds_def suspended_fd pool_def)
  with assms show ?thesis by (auto simp: pool_def)
qed

lemma pool_close: "pool idle run T opened {fd} \<Longrightarrow> pool idle run T (opened - {fd}) {}"
  by (auto simp: pool_def)

lemma pool_open: "pool idle run T opened {} \<Longrightarrow> fd \<notin> opened \<Longrightarrow> pool idle run T (insert fd opened) {fd}"
  by (auto simp: pool_def)

section \<open>The invariant of a worker\<close>

definition task_map :: "CCocgiServer \<Rightarrow> u32 \<rightharpoonup> CocgiTask" where
  "task_map s = map_of (m_umTask s)"

definition task_limit :: "CCocgiServer \<Rightarrow> nat" where
  "task_limit s = max (unat (m_usCoroutineCount s)) 50"

definition counted :: "CCocgiServer \<Rightarrow> bool" where
  "counted s \<longleftrightarrow>
     m_usMaxCoroutineCount s = 50 \<and> distinct (map fst (m_umTask s)) \<and>
     (length (m_umTask s) = unat (m_uCoIndex s) \<or> 50 \<le> length (m_umTask s)) \<and>
     unat (m_uCoIndex s) \<le> task_limit s \<and> length (m_umTask s) \<le> unat (m_uCoIndex s) \<and>
     (\<forall>i \<in> dom (task_map s). unat i < unat (m_uCoIndex s))"

definition worker_inv :: "CCocgiServer \<Rightarrow> bool" where
  "worker_inv s \<longleftrightarrow> counted s \<and> distinct (m_usRunTask s) \<and>
     pool (m_lIdleTask s) (set (m_usRunTask s)) (task_map s) (set (open_fds s)) {}"

text \<open>Task \<open>i\<close> is running its routine, which holds the descriptors \<open>own\<close>.\<close>

definition in_routine :: "u32 \<Rightarrow> int set \<Rightarrow> CCocgiServer \<Rightarrow> bool" where
  "in_routine i own s \<longleftrightarrow> counted s \<and> distinct (m_usRunTask s) \<and> i \<in> set (m_usRunTask s) \<and>
     i \<in> dom (task_map s) \<and>
     pool (m_lIdleTask s) (set (m_usRunTask s) - {i}) ((task_map s)(i := None)) (set (open_fds s)) own"

lemma task_map_upd [simp]:
  "task_map (s\<lparr>m_umTask := AList.update i t ts\<rparr>) = (map_of ts)(i \<mapsto> t)"
  "task_map (s\<lparr>m_umTask := AList.delete i ts\<rparr>) = (map_of ts)(i := None)"
  by (simp_all add: task_map_def update_conv' delete_conv')

lemma length_update: "length (AList.update i t ts) = (if i \<in> dom (map_of ts) then length ts else Suc (length ts))"
  by (induction ts) auto

lemma length_delete:
  assumes "distinct (map fst ts)" "i \<in> dom (map_of ts)"
  shows "Suc (length (AList.delete i ts)) = length ts"
  using assms
proof (induction ts)
  case (Cons p ts)
  show ?case
  proof (cases "fst p = i")
    case True
    then have "AList.delete i ts = ts" using Cons.prems(1) by (auto intro: delete_id)
    with True show ?thesis by (auto simp: AList.delete_eq)
  next
    case False
    with Cons.prems have "i \<in> dom (map_of ts)" "distinct (map fst ts)" by (cases p; auto)+
    with Cons.IH False show ?thesis by (auto simp: AList.delete_eq)
  qed
qed simp

lemma counted_update:
  assumes "counted s" "i \<in> dom (task_map s)"
  shows "counted (s\<lparr>m_umTask := AList.update i t (m_umTask s)\<rparr>)"
  using assms by (auto simp: counted_def task_map_def length_update distinct_update update_conv'
      task_limit_def)

lemma counted_frame [simp]:
  "counted (s\<lparr>m_lIdleTask := x\<rparr>) = counted s" "counted (s\<lparr>m_usRunTask := y\<rparr>) = counted s"
  "counted (s\<lparr>open_fds := z\<rparr>) = counted s" "counted (s\<lparr>accept_at := a\<rparr>) = counted s"
  by (simp_all add: counted_def task_map_def task_limit_def)

lemma co_clear_inv: "co_inv c \<Longrightarrow> co_inv (co_clear c)"
  by (simp add: co_inv_def codec_inv_def co_clear_def retrieveAll_inv)

lemma put_running:
  assumes "in_routine i {fd} s" "task_ok i t" "polls t" "point t = AtPoll fd r"
  shows "worker_inv (put_task t s)"
proof -
  have i: "uCoId t = i" using assms(2) by (simp add: task_ok_def)
  have "insert i (set (m_usRunTask s) - {i}) = set (m_usRunTask s)"
    using assms(1) by (auto simp: in_routine_def)
  then have "pool (m_lIdleTask s) (set (m_usRunTask s)) ((task_map s)(i \<mapsto> t)) (set (open_fds s)) {}"
    using pool_put_running [OF _ _ assms(2-4), of "m_lIdleTask s" "set (m_usRunTask s) - {i}"
        "(task_map s)(i := None)" "set (open_fds s)"] assms(1)
    by (simp add: in_routine_def)
  with assms(1) i show ?thesis
    by (simp add: worker_inv_def put_task_def in_routine_def counted_update task_map_def update_conv')
qed

lemma counted_delete:
  assumes "counted s" "i \<in> dom (task_map s)" "50 < length (m_umTask s)"
  shows "counted (s\<lparr>m_umTask := AList.delete i (m_umTask s)\<rparr>)"
proof -
  have "Suc (length (AList.delete i (m_umTask s))) = length (m_umTask s)"
    using assms(1,2) by (intro length_delete) (auto simp: counted_def task_map_def)
  with assms show ?thesis
    by (auto simp: counted_def task_map_def distinct_delete delete_conv' task_limit_def)
qed

lemma loop_head_inv:
  assumes "in_routine i (if iFd t = - 1 then {} else {iFd t}) s"
    and "uCoId t = i" "co_inv (pFastCgiCodec t)"
  shows "worker_inv (loop_head t s)"
proof (cases "iFd t = - 1")
  case True
  with assms(1) have s: "counted s" "distinct (m_usRunTask s)" "i \<in> dom (task_map s)"
    "pool (m_lIdleTask s) (set (m_usRunTask s) - {i}) ((task_map s)(i := None)) (set (open_fds s)) {}"
    by (simp_all add: in_routine_def)
  show ?thesis
  proof (cases "unat (m_usMaxCoroutineCount s) < length (m_umTask s)")
    case big: True
    then have "50 < length (m_umTask s)" using s(1) by (simp add: counted_def)
    with True big s assms(2)
      counted_delete [of "s\<lparr>m_usRunTask := removeAll i (m_usRunTask s)\<rparr>" i]
    show ?thesis
      by (simp add: loop_head_def worker_inv_def task_map_def delete_conv' distinct_removeAll)
  next
    case False
    let ?t = "t\<lparr>pFastCgiCodec := co_clear (pFastCgiCodec t), point := AtYield\<rparr>"
    have "task_ok i ?t" "suspended ?t"
      using True assms(2,3) by (simp_all add: task_ok_def suspended_def co_clear_inv)
    from pool_put_idle [OF s(4) _ this] True False s assms(2) counted_update [OF s(1,3)]
    show ?thesis
      by (simp add: loop_head_def worker_inv_def put_task_def task_map_def update_conv' distinct_removeAll)
  qed
next
  case False
  let ?t = "t\<lparr>iFd := - 1, pFastCgiCodec := co_clear (pFastCgiCodec t), point := AtPoll (iFd t) 0\<rparr>"
  have "task_ok i ?t" "polls ?t" "point ?t = AtPoll (iFd t) 0"
    using assms(2,3) by (simp_all add: task_ok_def polls_def co_clear_inv)
  with put_running [of i "iFd t" s ?t] False assms(1) show ?thesis by (simp add: loop_head_def)
qed

lemma doRequest_inv:
  assumes "co_inv c" "doRequest cb w c = Some (ret, sent, c')"
  shows "co_inv c'"
proof -
  have "Buffer_inv (m_stdin c)" using assms(1) by (simp add: co_inv_def codec_inv_def)
  then obtain inp where inp: "(if 0 < readableBytes (m_stdin c) then retrieveAllAsString (m_stdin c)
      else Some ([], m_stdin c)) = Some (content (m_stdin c), inp)" "Buffer_inv inp"
    by (rule post_data_total)
  have "c' = c\<lparr>m_params := looked_up (m_params c), m_stdin := inp\<rparr>"
    using assms(2) unfolding doRequest_def Let_def subscripts inp(1) by (auto simp: opt_iff)
  then show ?thesis using assms(1) inp(2) by (simp add: co_inv_def codec_inv_def)
qed

lemma readData_inv:
  assumes "co_inv c" "readData cb w e r c = Some (code, sent, c')"
  shows "co_inv c'"
proof (cases r)
  case (Inl x)
  with assms show ?thesis by (auto simp: readData_def readFd_def opt_iff split: if_splits)
next
  case (Inr chunk)
  obtain b c1 where p: "readFd (Inr chunk) (m_buf c) = Some (int (length chunk), None, b)"
    "parseFcgiPackage (c\<lparr>m_buf := b\<rparr>) = Some (True, c1)" "co_inv c1"
    using assms(1) by (rule read_and_parse)
  have "Buffer_inv (m_buf c)" using assms(1) by (simp add: co_inv_def)
  then obtain b' where "readFd (Inr chunk) (m_buf c) = Some (int (length chunk), None, b')" "Buffer_inv b'"
    "content b' = content (m_buf c) @ chunk" by (rule readFd_total)
  with p(1) have b: "co_inv (c\<lparr>m_buf := b\<rparr>)" using assms(1) by (simp add: co_inv_def)
  have served: "co_inv (c3\<lparr>m_stdin := retrieveAll (m_stdin c3), m_paramsStream := retrieveAll (m_paramsStream c3),
      m_params := Map.empty, m_gotRequest := False\<rparr>)" if "doRequest cb w c1 = Some (x, y, c3)" for x y c3
    using doRequest_inv [OF p(3) that] by (simp add: co_inv_def codec_inv_def retrieveAll_inv)
  show ?thesis
    using assms(2) p b unfolding Inr readData_def
    by (auto simp: opt_iff Let_def dest!: served split: if_splits)
qed

lemma wake_in_routine:
  assumes "worker_inv s" "task_map s i = Some t" "point t = AtPoll fd r"
  shows "in_routine i {fd} s" "r \<le> MAX_RECYCLE_COUNT"
proof -
  have "if i \<in> set (m_usRunTask s) then polls t else suspended t"
    using assms(1,2) by (simp add: worker_inv_def pool_def)
  with assms(3) have i: "i \<in> set (m_usRunTask s)" and polls: "polls t"
    by (auto simp: suspended_def split: if_splits)
  then show "in_routine i {fd} s"
    using assms pool_take_running [of "m_lIdleTask s" "set (m_usRunTask s)" "task_map s" "set (open_fds s)" i t fd r]
    by (auto simp: worker_inv_def in_routine_def)
  show "r \<le> MAX_RECYCLE_COUNT" using polls assms(3) by (simp add: polls_def)
qed

lemma close_in_routine: "in_routine i {fd} s \<Longrightarrow> in_routine i {} (close_fd fd s)"
  using pool_close by (auto simp: in_routine_def close_fd_def task_map_def set_diff_eq [symmetric])

lemma task_wake_inv:
  assumes "worker_inv s" "task_map s i = Some t" "point t = AtPoll fd r"
    and "task_wake w e rd t fd r s = Some (sent, s')"
  shows "worker_inv s'"
proof -
  have t: "task_ok i t" using assms(1,2) by (simp add: worker_inv_def pool_def)
  note run = wake_in_routine [OF assms(1-3)]
  obtain ret codec where rd: "readData (m_pCgiCodecCallBack s) w e rd (pFastCgiCodec t) = Some (ret, sent, codec)"
    using assms(4) by (auto simp: task_wake_def opt_iff Let_def split: if_splits)
  have codec: "co_inv codec" using readData_inv [OF _ rd] t by (simp add: task_ok_def)
  let ?t = "t\<lparr>pFastCgiCodec := codec\<rparr>"
  have cont: "worker_inv (put_task (?t\<lparr>point := AtPoll fd q\<rparr>) s)" if "q \<le> MAX_RECYCLE_COUNT" for q
    using put_running [OF run(1), of "?t\<lparr>point := AtPoll fd q\<rparr>" q] t codec that
    by (simp add: task_ok_def polls_def)
  have fin: "worker_inv (loop_head ?t (close_fd fd s))"
    using loop_head_inv [of i ?t "close_fd fd s"] close_in_routine [OF run(1)] t codec
    by (simp add: task_ok_def)
  from assms(4) cont fin show ?thesis
    unfolding task_wake_def rd by (auto simp: Let_def split: if_splits)
qed

lemma unat_suc_small: "unat (w :: u32) < 2 ^ 32 - 1 \<Longrightarrow> unat (w + 1) = Suc (unat w)"
proof -
  assume "unat w < 2 ^ 32 - 1"
  then have "unat (of_nat (Suc (unat w)) :: u32) = Suc (unat w)"
    by (simp add: unat_of_nat take_bit_eq_mod del: of_nat_Suc)
  then show ?thesis by (simp add: add.commute)
qed

lemma create_inv:
  assumes "worker_inv s" "length (m_umTask s) = unat (m_uCoIndex s)" "unat (m_uCoIndex s) < task_limit s"
  shows "worker_inv (snd (CreateCocgiTask s)) \<and>
    length (m_umTask (snd (CreateCocgiTask s))) = unat (m_uCoIndex (snd (CreateCocgiTask s))) \<and>
    unat (m_uCoIndex (snd (CreateCocgiTask s))) = Suc (unat (m_uCoIndex s))"
proof -
  have c: "counted s" using assms(1) by (simp add: worker_inv_def)
  have "task_limit s < 65536" using unsigned_less [of "m_usCoroutineCount s"] by (simp add: task_limit_def)
  then have suc: "unat (m_uCoIndex s + 1) = Suc (unat (m_uCoIndex s))"
    using assms(3) unat_suc_small [of "m_uCoIndex s"] by simp
  have new: "task_map s (m_uCoIndex s) = None" using c by (fastforce simp: counted_def)
  let ?t = "\<lparr>iFd = - 1, uCoId = m_uCoIndex s, pFastCgiCodec = new_CoCodec, point = NotStarted\<rparr>"
  have "pool (m_uCoIndex s # m_lIdleTask s) (set (m_usRunTask s)) ((task_map s)(m_uCoIndex s \<mapsto> ?t))
      (set (open_fds s)) {}"
    using assms(1) new by (intro pool_put_idle)
      (simp_all add: worker_inv_def task_ok_def suspended_def new_CoCodec_ok)
  moreover have "\<forall>i \<in> dom (map_of (m_umTask s)). unat i < Suc (unat (m_uCoIndex s))"
    using c less_SucI unfolding counted_def task_map_def by blast
  then have "counted (snd (CreateCocgiTask s))"
    using c suc new assms(2,3)
    by (simp add: counted_def CreateCocgiTask_def Let_def task_map_def update_conv' distinct_update
        length_update task_limit_def) (simp add: domIff)
  ultimately show ?thesis
    using assms(1,2) suc new
    by (auto simp: worker_inv_def CreateCocgiTask_def Let_def task_map_def update_conv' length_update)
qed

text \<open>What the operations leave alone.\<close>

lemma frames [simp]:
  "m_usCoroutineCount (loop_head t s) = m_usCoroutineCount s" "accept_at (loop_head t s) = accept_at s"
  "m_usCoroutineCount (put_task t s) = m_usCoroutineCount s" "accept_at (put_task t s) = accept_at s"
  "m_usCoroutineCount (snd (CreateCocgiTask s)) = m_usCoroutineCount s"
  "accept_at (snd (CreateCocgiTask s)) = accept_at s"
  "m_usRunTask (snd (CreateCocgiTask s)) = m_usRunTask s"
  "open_fds (snd (CreateCocgiTask s)) = open_fds s"
  by (simp_all add: loop_head_def put_task_def CreateCocgiTask_def Let_def)

definition accept_task :: "int \<Rightarrow> CCocgiServer \<Rightarrow> CCocgiServer" where
  "accept_task fd s =
     (let i = hd (m_lIdleTask s); t = (the (task_map s i))\<lparr>iFd := fd\<rparr>
      in loop_head t ((put_task t s)\<lparr>open_fds := fd # open_fds s, m_lIdleTask := tl (m_lIdleTask s),
           m_usRunTask := List.insert i (m_usRunTask s)\<rparr>))"

lemma accept_task_ok:
  assumes "worker_inv s" "m_lIdleTask s = i # idle" "0 \<le> fd" "fd \<notin> set (open_fds s)"
  shows "worker_inv (accept_task fd s)" "m_lIdleTask (accept_task fd s) = idle"
    "m_usRunTask (accept_task fd s) = i # m_usRunTask s" "accept_at (accept_task fd s) = accept_at s"
    "m_usCoroutineCount (accept_task fd s) = m_usCoroutineCount s"
    "task_map (accept_task fd s) i =
       Some ((the (task_map s i))\<lparr>iFd := - 1, pFastCgiCodec := co_clear (pFastCgiCodec (the (task_map s i))),
         point := AtPoll fd 0\<rparr>)"
proof -
  have p: "counted s" "distinct (m_usRunTask s)"
    "pool (i # idle) (set (m_usRunTask s)) (task_map s) (set (open_fds s)) {}"
    using assms(1,2) by (simp_all add: worker_inv_def)
  then have "i \<in> dom (task_map s)" "i \<notin> set (m_usRunTask s)" by (auto simp: pool_def)
  then obtain t0 where t0: "task_map s i = Some t0" by auto
  with p(3) have ok: "task_ok i t0" by (simp add: pool_def)
  let ?t = "t0\<lparr>iFd := fd\<rparr>"
  let ?s = "(put_task ?t s)\<lparr>open_fds := fd # open_fds s, m_lIdleTask := idle,
    m_usRunTask := List.insert i (m_usRunTask s)\<rparr>"
  have eq: "accept_task fd s = loop_head ?t ?s"
    using assms(2) t0 by (simp add: accept_task_def Let_def)
  have id: "uCoId t0 = i" using ok by (simp add: task_ok_def)
  have "pool idle (set (m_usRunTask s)) ((task_map s)(i := None)) (insert fd (set (open_fds s))) {fd}"
    using pool_open [OF pool_take_idle [OF p(3)] assms(4)] .
  moreover have "task_map ?s = (task_map s)(i \<mapsto> ?t)" using id by (simp add: put_task_def task_map_def update_conv')
  moreover have "counted ?s"
    using counted_update [OF p(1) \<open>i \<in> dom (task_map s)\<close>] id by (simp add: put_task_def)
  ultimately have "in_routine i {fd} ?s"
    using p(2) \<open>i \<notin> set (m_usRunTask s)\<close> by (simp add: in_routine_def)
  then show "worker_inv (accept_task fd s)"
    unfolding eq using ok assms(3) by (intro loop_head_inv [of i]) (auto simp: task_ok_def)
  show "m_lIdleTask (accept_task fd s) = idle" "m_usRunTask (accept_task fd s) = i # m_usRunTask s"
    "accept_at (accept_task fd s) = accept_at s" "m_usCoroutineCount (accept_task fd s) = m_usCoroutineCount s"
    unfolding eq using assms(3) \<open>i \<notin> set (m_usRunTask s)\<close> by (simp_all add: loop_head_def put_task_def)
  show "task_map (accept_task fd s) i = Some ((the (task_map s i))\<lparr>iFd := - 1,
      pFastCgiCodec := co_clear (pFastCgiCodec (the (task_map s i))), point := AtPoll fd 0\<rparr>)"
    unfolding eq using assms(3) id t0 by (simp add: loop_head_def put_task_def task_map_def update_conv')
qed

text \<open>A round of the accept routine: the pool after it has grown, if it has to.\<close>

definition grown :: "CCocgiServer \<Rightarrow> CCocgiServer" where
  "grown s = (if m_lIdleTask s = [] \<and> length (m_umTask s) < unat (m_usMaxCoroutineCount s)
              then snd (CreateCocgiTask s) else s)"

lemma grown_ok:
  assumes "worker_inv s"
  shows "worker_inv (grown s)" "m_usRunTask (grown s) = m_usRunTask s" "accept_at (grown s) = accept_at s"
    "open_fds (grown s) = open_fds s" "m_usCoroutineCount (grown s) = m_usCoroutineCount s"
proof -
  have "counted s" using assms by (simp add: worker_inv_def)
  then have "length (m_umTask s) = unat (m_uCoIndex s) \<and> unat (m_uCoIndex s) < task_limit s"
    if "length (m_umTask s) < unat (m_usMaxCoroutineCount s)"
    using that by (auto simp: counted_def task_limit_def)
  with create_inv [OF assms] assms show "worker_inv (grown s)" unfolding grown_def by auto
qed (simp_all add: grown_def)

lemma accept_round_eq:
  assumes "worker_inv s"
  shows "accept_round fd s =
    (if m_lIdleTask (grown s) = [] then grown s
     else if fd < 0 then (grown s)\<lparr>accept_at := AcceptPoll\<rparr> else accept_task fd (grown s))"
proof (cases "m_lIdleTask (grown s)")
  case (Cons i idle)
  have "i \<in> dom (task_map (grown s))"
    using grown_ok(1) [OF assms] Cons by (auto simp: worker_inv_def pool_def)
  then obtain t where "task_map (grown s) i = Some t" by auto
  with Cons show ?thesis
    unfolding accept_round_def grown_def [symmetric] by (simp add: accept_task_def task_map_def Let_def)
qed (simp add: accept_round_def grown_def [symmetric])

lemma worker_step_inv: "worker_step s s' \<Longrightarrow> worker_inv s \<Longrightarrow> worker_inv s'"
proof (induction rule: worker_step.induct)
  case (accept s fd)
  note g = grown_ok [OF accept.prems]
  show ?case
  proof (cases "m_lIdleTask (grown s)")
    case Nil
    with g(1) show ?thesis by (simp add: accept_round_eq [OF accept.prems])
  next
    case (Cons i idle)
    have "worker_inv ((grown s)\<lparr>accept_at := AcceptPoll\<rparr>)"
      using g(1) by (simp add: worker_inv_def task_map_def)
    with accept_task_ok(1) [OF g(1) Cons, of fd] accept.hyps(2) g(4) Cons show ?thesis
      by (simp add: accept_round_eq [OF accept.prems])
  qed
next
  case (accept_wake s)
  then show ?case by (simp add: worker_inv_def task_map_def)
next
  case (task s i t fd r w e rd sent s')
  then show ?case using task_wake_inv [of s i t fd r] by (simp add: task_map_def)
qed

lemma create_tasks_ok:
  assumes "worker_inv s" "length (m_umTask s) = unat (m_uCoIndex s)" "unat (m_uCoIndex s) + n \<le> task_limit s"
  shows "worker_inv (create_tasks n s) \<and> accept_at (create_tasks n s) = accept_at s \<and>
    m_usRunTask (create_tasks n s) = m_usRunTask s \<and> m_usCoroutineCount (create_tasks n s) = m_usCoroutineCount s"
  using assms
proof (induction n arbitrary: s)
  case (Suc n)
  have "task_limit (snd (CreateCocgiTask s)) = task_limit s" by (simp add: task_limit_def)
  with create_inv [OF Suc.prems(1,2)] Suc.prems(3) Suc.IH [of "snd (CreateCocgiTask s)"]
  show ?case by simp
qed simp

lemma worker_init_ok:
  assumes "s = worker_init ip port pcount ccount cb"
  shows "worker_inv s" "accept_at s = Accepting" "m_usRunTask s = []" "m_usCoroutineCount s = ccount"
proof -
  let ?s = "new_CCocgiServer ip port pcount ccount cb"
  have "fds Map.empty = Map.empty" by (simp add: fds_def fun_eq_iff)
  then have "worker_inv ?s"
    by (simp add: worker_inv_def counted_def new_CCocgiServer_def task_map_def pool_def one_owner_def
        task_limit_def)
  from create_tasks_ok [OF this, of "unat ccount"]
  show "worker_inv s" "accept_at s = Accepting" "m_usRunTask s = []" "m_usCoroutineCount s = ccount"
    by (simp_all add: assms worker_init_def new_CCocgiServer_def task_limit_def)
qed

lemma worker_reachable_inv:
  assumes "worker_step\<^sup>*\<^sup>* (worker_init ip port pcount ccount cb) s"
  shows "worker_inv s"
  using assms
proof (induction rule: rtranclp_induct)
  case base
  show ?case by (rule worker_init_ok [OF refl])
next
  case (step y z)
  then show ?case using worker_step_inv by blast
qed

section \<open>Livelock of the accept routine\<close>

lemma pool_size:
  assumes "worker_inv s"
  shows "length (m_umTask s) = length (m_lIdleTask s) + length (m_usRunTask s)"
proof -
  have p: "distinct (map fst (m_umTask s))" "distinct (m_usRunTask s)" "distinct (m_lIdleTask s)"
    "set (m_lIdleTask s) \<inter> set (m_usRunTask s) = {}"
    "dom (task_map s) = set (m_lIdleTask s) \<union> set (m_usRunTask s)"
    using assms by (simp_all add: worker_inv_def counted_def pool_def)
  have "length (m_umTask s) = card (fst ` set (m_umTask s))"
    using distinct_card [OF p(1)] by simp
  also have "fst ` set (m_umTask s) = dom (task_map s)"
    by (simp add: task_map_def dom_map_of_conv_image_fst)
  finally show ?thesis
    using p by (simp add: card_Un_disjoint distinct_card)
qed

text \<open>While a task can be had, the accept routine takes the next connection.\<close>

lemma accept_progress:
  assumes "worker_inv s" "accept_at s = Accepting" "length (m_usRunTask s) < 50"
  shows "\<exists>s'. worker_step s s' \<and> worker_inv s' \<and> accept_at s' = Accepting \<and>
    length (m_usRunTask s') = Suc (length (m_usRunTask s)) \<and> m_usCoroutineCount s' = m_usCoroutineCount s"
proof -
  note g = grown_ok [OF assms(1)]
  have "m_usMaxCoroutineCount s = 50" using assms(1) by (simp add: worker_inv_def counted_def)
  then have "m_lIdleTask (grown s) \<noteq> []"
    using pool_size [OF assms(1)] assms(3) by (auto simp: grown_def CreateCocgiTask_def Let_def)
  then obtain i idle where Cons: "m_lIdleTask (grown s) = i # idle" by (cases "m_lIdleTask (grown s)") auto
  obtain n where n: "n \<notin> nat ` set (open_fds s)" using ex_new_if_finite [OF infinite_UNIV_nat, of "nat ` set (open_fds s)"] by auto
  have fd: "0 \<le> int n" by simp
  have fresh: "int n \<notin> set (open_fds s)"
  proof
    assume "int n \<in> set (open_fds s)"
    from imageI [OF this, of nat] n show False by simp
  qed
  have "worker_step s (accept_task (int n) (grown s))"
    using worker_step.accept [OF assms(2) fresh] Cons by (simp add: accept_round_eq [OF assms(1)])
  moreover have "int n \<notin> set (open_fds (grown s))" using fresh g(4) by simp
  note ok = accept_task_ok [OF g(1) Cons fd this]
  ultimately show ?thesis
    using g(2,3,5) assms(2) ok by (intro exI [of _ "accept_task (int n) (grown s)"]) simp
qed

lemma reach_full:
  assumes "worker_inv s" "accept_at s = Accepting" "length (m_usRunTask s) + n = 50"
  shows "\<exists>s'. worker_step\<^sup>*\<^sup>* s s' \<and> worker_inv s' \<and> accept_at s' = Accepting \<and>
    length (m_usRunTask s') = 50 \<and> m_usCoroutineCount s' = m_usCoroutineCount s"
  using assms
proof (induction n arbitrary: s)
  case (Suc n)
  obtain s1 where s1: "worker_step s s1" "worker_inv s1" "accept_at s1 = Accepting"
    "length (m_usRunTask s1) = Suc (length (m_usRunTask s))" "m_usCoroutineCount s1 = m_usCoroutineCount s"
    using accept_progress [OF Suc.prems(1,2)] Suc.prems(3) by auto
  then obtain s' where "worker_step\<^sup>*\<^sup>* s1 s'" "worker_inv s'" "accept_at s' = Accepting"
    "length (m_usRunTask s') = 50" "m_usCoroutineCount s' = m_usCoroutineCount s1"
    using Suc.IH [OF s1(2,3)] Suc.prems(3) by auto
  with s1(1,5) show ?case
    using converse_rtranclp_into_rtranclp [of worker_step s s1 s'] by auto
qed auto

lemma full_spins:
  assumes "worker_inv s" "accept_at s = Accepting" "m_lIdleTask s = []" "50 \<le> length (m_umTask s)"
    and "worker_step s s'"
  shows "s' = s"
proof -
  have "m_usMaxCoroutineCount s = 50" using assms(1) by (simp add: worker_inv_def counted_def)
  then have "grown s = s" using assms(4) by (simp add: grown_def)
  from assms(5) show ?thesis
    by (cases rule: worker_step.cases)
      (use assms(2,3) \<open>grown s = s\<close> in \<open>simp_all add: accept_round_eq [OF assms(1)]\<close>)
qed

section \<open>Serving a connection\<close>

text \<open>Task \<open>i\<close> is resumed once per chunk that its descriptor delivers.\<close>

primrec wakes ::
  "(nat \<Rightarrow> nat \<Rightarrow> int) \<Rightarrow> int \<Rightarrow> u32 \<Rightarrow> (int + bytes) list \<Rightarrow> CCocgiServer \<Rightarrow> (bytes \<times> CCocgiServer) option" where
  "wakes w e i [] s = Some ([], s)"
| "wakes w e i (x # xs) s = do {
     t \<leftarrow> task_map s i;
     (sent, s1) \<leftarrow> (case point t of AtPoll fd r \<Rightarrow> task_wake w e x t fd r s | _ \<Rightarrow> None);
     (sent', s2) \<leftarrow> wakes w e i xs s1;
     Some (sent @ sent', s2)
   }"

lemma task_map_put: "task_map (put_task t s) = (task_map s)(uCoId t \<mapsto> t)"
  by (simp add: put_task_def task_map_def update_conv')

lemma task_wake_frame:
  assumes "task_wake w e x t fd r s = Some (sent, s')"
  shows "m_pCgiCodecCallBack s' = m_pCgiCodecCallBack s"
    "\<And>j. j \<noteq> uCoId t \<Longrightarrow> task_map s' j = task_map s j"
    "\<And>fd'. fd' \<noteq> fd \<Longrightarrow> fd' \<in> set (open_fds s') \<longleftrightarrow> fd' \<in> set (open_fds s)"
proof -
  have "m_pCgiCodecCallBack s' = m_pCgiCodecCallBack s \<and>
      (\<forall>j. j \<noteq> uCoId t \<longrightarrow> task_map s' j = task_map s j) \<and>
      (\<forall>fd'. fd' \<noteq> fd \<longrightarrow> (fd' \<in> set (open_fds s') \<longleftrightarrow> fd' \<in> set (open_fds s)))"
    using assms
    by (auto simp: task_wake_def opt_iff Let_def loop_head_def close_fd_def put_task_def task_map_def
        update_conv' delete_conv' split: if_splits)
  then show "m_pCgiCodecCallBack s' = m_pCgiCodecCallBack s"
    "\<And>j. j \<noteq> uCoId t \<Longrightarrow> task_map s' j = task_map s j"
    "\<And>fd'. fd' \<noteq> fd \<Longrightarrow> fd' \<in> set (open_fds s') \<longleftrightarrow> fd' \<in> set (open_fds s)" by auto
qed

lemma if_else_mono: "if P then A else B \<Longrightarrow> (B \<Longrightarrow> C) \<Longrightarrow> if P then A else C"
  by (cases P) simp_all

text \<open>The end of a connection: its descriptor is closed and the task leaves the running set.\<close>

lemma finish_ok:
  assumes "worker_inv s" "task_map s i = Some t" "point t = AtPoll fd r" "co_inv codec"
  shows "fd \<notin> set (open_fds (loop_head (t\<lparr>pFastCgiCodec := codec\<rparr>) (close_fd fd s)))"
    "i \<notin> set (m_usRunTask (loop_head (t\<lparr>pFastCgiCodec := codec\<rparr>) (close_fd fd s)))"
    "worker_inv (loop_head (t\<lparr>pFastCgiCodec := codec\<rparr>) (close_fd fd s))"
proof -
  have t: "task_ok i t" using assms(1,2) by (simp add: worker_inv_def pool_def)
  then show "fd \<notin> set (open_fds (loop_head (t\<lparr>pFastCgiCodec := codec\<rparr>) (close_fd fd s)))"
    "i \<notin> set (m_usRunTask (loop_head (t\<lparr>pFastCgiCodec := codec\<rparr>) (close_fd fd s)))"
    by (simp_all add: task_ok_def loop_head_def close_fd_def put_task_def)
  show "worker_inv (loop_head (t\<lparr>pFastCgiCodec := codec\<rparr>) (close_fd fd s))"
    using loop_head_inv [of i "t\<lparr>pFastCgiCodec := codec\<rparr>" "close_fd fd s"] t assms(4)
      close_in_routine [OF wake_in_routine(1) [OF assms(1-3)]]
    by (simp add: task_ok_def)
qed

lemma wakes_read_all:
  assumes "worker_inv s" "task_map s i = Some t" "point t = AtPoll fd 0"
    and "read_all (m_pCgiCodecCallBack s) w e cs (pFastCgiCodec t) =
      Some (replicate (length cs - 1) ERR_OK @ [code], sent, c')" "cs \<noteq> []"
    "code = ERR_OK \<or> code = ERR_SOCKET_FINISH"
  shows "\<exists>s'. wakes w e i (map Inr cs) s = Some (sent, s') \<and> worker_inv s' \<and>
    (if code = ERR_OK then task_map s' i = Some (t\<lparr>pFastCgiCodec := c'\<rparr>) \<and> fd \<in> set (open_fds s')
     else fd \<notin> set (open_fds s') \<and> i \<notin> set (m_usRunTask s'))"
  using assms
proof (induction cs arbitrary: s t sent)
  case (Cons x xs)
  let ?cb = "m_pCgiCodecCallBack s"
  have t: "task_ok i t" using Cons.prems(1,2) by (simp add: worker_inv_def pool_def)
  have fd: "fd \<in> set (open_fds s)"
    using Cons.prems(1-3) by (auto simp: worker_inv_def pool_def fds_def fd_of_def intro!: ranI [of _ i])
  obtain ret s1 c1 codes s2 where rd: "readData ?cb w e (Inr x) (pFastCgiCodec t) = Some (ret, s1, c1)"
    "read_all ?cb w e xs c1 = Some (codes, s2, c')" "sent = s1 @ s2"
    "replicate (length xs) ERR_OK @ [code] = ret # codes"
    using Cons.prems(4) by (auto simp: opt_iff)
  have c1: "co_inv c1" using readData_inv [OF _ rd(1)] t by (simp add: task_ok_def)
  let ?t = "t\<lparr>pFastCgiCodec := c1\<rparr>"
  have same: "?t\<lparr>point := AtPoll fd 0\<rparr> = ?t"
    using Cons.prems(3) by (intro CocgiTask.equality) simp_all
  have ok: "task_wake w e (Inr x) t fd 0 s = Some (s1, put_task ?t s)" if "ret = ERR_OK"
    unfolding task_wake_def rd(1) Option.bind.simps prod.case Let_def same by (simp add: that)
  have inv1: "worker_inv (put_task ?t s)" if "ret = ERR_OK"
    using task_wake_inv [OF Cons.prems(1-3) ok [OF that]] .
  have map1: "task_map (put_task ?t s) i = Some ?t" using t by (simp add: task_map_put task_ok_def)
  show ?case
  proof (cases "xs = []")
    case True
    with rd have code: "ret = code" "s2 = []" "c1 = c'" by simp_all
    show ?thesis
    proof (cases "code = ERR_OK")
      case ok': True
      with Cons.prems(2,3) True ok inv1 map1 code rd(3) fd show ?thesis
        by (intro exI [of _ "put_task ?t s"]) (simp add: put_task_def)
    next
      case False
      then have "task_wake w e (Inr x) t fd 0 s = Some (s1, loop_head ?t (close_fd fd s))"
        using rd(1) code(1) Cons.prems(6) by (simp add: task_wake_def err_defs)
      with False Cons.prems(2,3) True code rd(3) finish_ok [OF Cons.prems(1-3) c1] show ?thesis
        by (intro exI [of _ "loop_head ?t (close_fd fd s)"]) simp
    qed
  next
    case False
    then obtain m where m: "length xs = Suc m" by (cases xs) auto
    with rd(4) have ret: "ret = ERR_OK" and codes: "codes = replicate (length xs - 1) ERR_OK @ [code]"
      by simp_all
    from Cons.IH [OF inv1 [OF ret] map1, of s2] rd(2) codes Cons.prems(3,6) False
    obtain s' where "wakes w e i (map Inr xs) (put_task ?t s) = Some (s2, s')" "worker_inv s'"
      "if code = ERR_OK then task_map s' i = Some (t\<lparr>pFastCgiCodec := c'\<rparr>) \<and> fd \<in> set (open_fds s')
       else fd \<notin> set (open_fds s') \<and> i \<notin> set (m_usRunTask s')"
      by (auto simp: put_task_def)
    with ok [OF ret] Cons.prems(2,3) rd(3) show ?thesis
      by (intro exI [of _ s']) simp
  qed
qed simp

lemma timeouts_poll:
  assumes "worker_inv s" "task_map s i = Some t" "point t = AtPoll fd r" "r + n \<le> MAX_RECYCLE_COUNT"
  shows "\<exists>s'. wakes w e i (replicate n (Inl EAGAIN)) s = Some ([], s') \<and> worker_inv s' \<and>
    task_map s' i = Some (t\<lparr>point := AtPoll fd (r + n)\<rparr>)"
  using assms
proof (induction n arbitrary: s t r)
  case 0
  then show ?case by simp
next
  case (Suc n)
  let ?t = "t\<lparr>point := AtPoll fd (Suc r)\<rparr>"
  have rd: "readData cb w e (Inl EAGAIN) c = Some (ERR_SOCKET_EAGAIN, [], c)" for cb c
    by (simp add: readData_def readFd_def)
  have t: "uCoId t = i" using Suc.prems(1,2) by (simp add: worker_inv_def pool_def task_ok_def)
  have wake: "task_wake w e (Inl EAGAIN) t fd r s = Some ([], put_task ?t s)"
    using Suc.prems(4) by (simp add: task_wake_def rd err_defs)
  have "task_map (put_task ?t s) i = Some ?t" using t by (simp add: task_map_put)
  from Suc.IH [OF task_wake_inv [OF Suc.prems(1-3) wake] this] Suc.prems(4)
  obtain s' where "wakes w e i (replicate n (Inl EAGAIN)) (put_task ?t s) = Some ([], s')" "worker_inv s'"
    "task_map s' i = Some (t\<lparr>point := AtPoll fd (r + Suc n)\<rparr>)" by auto
  then show ?case using wake Suc.prems(2,3) by (intro exI [of _ s']) simp
qed

lemma wakes_append:
  "wakes w e i (xs @ ys) s = do {
     (a, s1) \<leftarrow> wakes w e i xs s; (b, s2) \<leftarrow> wakes w e i ys s1; Some (a @ b, s2)}"
proof (induction xs arbitrary: s)
  case (Cons x xs)
  show ?case
    by (cases "task_map s i"; cases "point (the (task_map s i))")
      (auto simp: Cons.IH split: Option.bind_splits)
qed (auto split: Option.bind_splits)

text \<open>A worker with one task, which has accepted a connection.\<close>

lemma connected_ok:
  "worker_inv (accept_task 7 (worker_init ''*'' 80 1 1 None))"
  "task_map (accept_task 7 (worker_init ''*'' 80 1 1 None)) 0 =
     Some \<lparr>iFd = - 1, uCoId = 0, pFastCgiCodec = co_clear new_CoCodec, point = AtPoll 7 0\<rparr>"
  "m_pCgiCodecCallBack (accept_task 7 (worker_init ''*'' 80 1 1 None)) = None"
proof -
  let ?s = "worker_init ''*'' 80 1 1 None"
  have s: "m_lIdleTask ?s = [0]" "open_fds ?s = []" "m_pCgiCodecCallBack ?s = None"
    "task_map ?s 0 = Some \<lparr>iFd = - 1, uCoId = 0, pFastCgiCodec = new_CoCodec, point = NotStarted\<rparr>"
    by (simp_all add: worker_init_def new_CCocgiServer_def CreateCocgiTask_def Let_def task_map_def)
  show "worker_inv (accept_task 7 ?s)"
    "task_map (accept_task 7 ?s) 0 =
       Some \<lparr>iFd = - 1, uCoId = 0, pFastCgiCodec = co_clear new_CoCodec, point = AtPoll 7 0\<rparr>"
    using accept_task_ok(1,6) [OF worker_init_ok(1) [OF refl] s(1), of 7] s(2,4) by simp_all
  show "m_pCgiCodecCallBack (accept_task 7 ?s) = None"
    using s by (simp add: accept_task_def Let_def loop_head_def put_task_def)
qed

section \<open>Properties\<close>

lemma worker_inv_facts:
  assumes "worker_inv s"
  shows "distinct (m_lIdleTask s @ m_usRunTask s)"
    and "set (m_lIdleTask s @ m_usRunTask s) = fst ` set (m_umTask s)"
    and "set (open_fds s) = ran (fds (task_map s))" "inj_on (fds (task_map s)) (dom (fds (task_map s)))"
    and "dom (fds (task_map s)) = set (m_usRunTask s)"
    and "length (m_umTask s) \<le> task_limit s"
proof -
  from assms have p: "counted s" "distinct (m_usRunTask s)" "distinct (m_lIdleTask s)"
    "set (m_lIdleTask s) \<inter> set (m_usRunTask s) = {}"
    "dom (task_map s) = set (m_lIdleTask s) \<union> set (m_usRunTask s)"
    "set (open_fds s) = ran (fds (task_map s))" "one_owner (fds (task_map s))"
    "\<And>i t. task_map s i = Some t \<Longrightarrow> if i \<in> set (m_usRunTask s) then polls t else suspended t"
    by (simp_all add: worker_inv_def pool_def)
  show "distinct (m_lIdleTask s @ m_usRunTask s)" "set (open_fds s) = ran (fds (task_map s))"
    "inj_on (fds (task_map s)) (dom (fds (task_map s)))" "length (m_umTask s) \<le> task_limit s"
    using p by (auto simp: one_owner_def counted_def)
  show "set (m_lIdleTask s @ m_usRunTask s) = fst ` set (m_umTask s)"
    using p(5) by (simp add: task_map_def dom_map_of_conv_image_fst)
  show "dom (fds (task_map s)) = set (m_usRunTask s)"
  proof (intro set_eqI iffI)
    fix i assume "i \<in> dom (fds (task_map s))"
    then obtain t fd where "task_map s i = Some t" "fd_of t = Some fd" by (auto simp: fds_def bind_eq_Some_conv)
    with p(8) [of i t] suspended_fd [of t] show "i \<in> set (m_usRunTask s)" by (auto split: if_splits)
  next
    fix i assume i: "i \<in> set (m_usRunTask s)"
    then obtain t where t: "task_map s i = Some t" using p(5) by blast
    with p(8) [OF t] i show "i \<in> dom (fds (task_map s))"
      by (auto simp: fds_def polls_def fd_of_def split: co_point.splits)
  qed
qed

text \<open>
  C3: In every state a worker can reach, the idle and the running tasks are disjoint and are all
  tasks; each running task polls a descriptor, a different one each, and these are exactly the
  open descriptors of connections, so none leaks and none is used twice; idle tasks hold none;
  and the number of tasks stays within the configured count or fifty, whichever is larger.
\<close>

theorem cocgi_worker_invariant:
  assumes "worker_step\<^sup>*\<^sup>* (worker_init ip port pcount ccount cb) s"
  shows "distinct (m_lIdleTask s @ m_usRunTask s) \<and>
    set (m_lIdleTask s @ m_usRunTask s) = fst ` set (m_umTask s) \<and>
    set (open_fds s) = ran (fds (task_map s)) \<and> inj_on (fds (task_map s)) (dom (fds (task_map s))) \<and>
    dom (fds (task_map s)) = set (m_usRunTask s) \<and> length (m_umTask s) \<le> task_limit s"
  using worker_inv_facts [OF worker_reachable_inv [OF assms]] by (intro conjI)

theorem cocgi_worker_invariant_witness:
  "distinct (m_lIdleTask (worker_init ''*'' 80 1 3 None) @ m_usRunTask (worker_init ''*'' 80 1 3 None)) \<and>
   length (m_umTask (worker_init ''*'' 80 1 3 None)) \<le> task_limit (worker_init ''*'' 80 1 3 None)"
  using cocgi_worker_invariant [of "''*''" 80 1 3 None "worker_init ''*'' 80 1 3 None"] by simp

text \<open>
  C8: A worker configured with at most fifty coroutines that accepts fifty connections before
  one of them ends reaches a state that it never leaves: the accept routine finds no idle task
  and starts over without polling, so no other coroutine runs again and none of the fifty
  connections is ever read.
\<close>

theorem cocgi_accept_livelock:
  assumes "unat ccount \<le> 50"
  shows "\<exists>s. worker_step\<^sup>*\<^sup>* (worker_init ip port pcount ccount cb) s \<and>
    length (m_usRunTask s) = 50 \<and> (\<forall>s'. worker_step\<^sup>*\<^sup>* s s' \<longrightarrow> s' = s)"
proof -
  let ?s = "worker_init ip port pcount ccount cb"
  note init = worker_init_ok [of ?s, OF refl]
  obtain s where s: "worker_step\<^sup>*\<^sup>* ?s s" "worker_inv s" "accept_at s = Accepting"
    "length (m_usRunTask s) = 50" "m_usCoroutineCount s = ccount"
    using reach_full [OF init(1,2), of 50] init(3,4) by auto
  have "length (m_umTask s) \<le> 50"
    using s(2,5) assms by (auto simp: worker_inv_def counted_def task_limit_def)
  then have full: "m_lIdleTask s = []" "50 \<le> length (m_umTask s)"
    using pool_size [OF s(2)] s(4) by simp_all
  have "s' = s" if "worker_step\<^sup>*\<^sup>* s s'" for s'
    using that
  proof (induction rule: rtranclp_induct)
    case (step y z)
    then show ?case using full_spins [OF s(2,3) full] by blast
  qed simp
  with s(1,4) show ?thesis by blast
qed

theorem cocgi_accept_livelock_witness:
  "\<exists>s. worker_step\<^sup>*\<^sup>* (worker_init ''*'' 80 1 10 None) s \<and>
    length (m_usRunTask s) = 50 \<and> (\<forall>s'. worker_step\<^sup>*\<^sup>* s s' \<longrightarrow> s' = s)"
  using cocgi_accept_livelock [of 10 "''*''" 80 1 None] by simp



text \<open>
  C34: A connection on which nothing arrives is closed by the sixty-first time-out in a row and
  not before, and its task leaves the running tasks.
\<close>

theorem cocgi_idle_connection_closed:
  assumes "worker_inv s" "task_map s i = Some t" "point t = AtPoll fd 0"
  shows "\<exists>s1 s2. wakes w e i (replicate 60 (Inl EAGAIN)) s = Some ([], s1) \<and>
    task_map s1 i = Some (t\<lparr>point := AtPoll fd 60\<rparr>) \<and>
    wakes w e i (replicate 61 (Inl EAGAIN)) s = Some ([], s2) \<and>
    fd \<notin> set (open_fds s2) \<and> i \<notin> set (m_usRunTask s2) \<and> worker_inv s2"
proof -
  obtain s1 where s1: "wakes w e i (replicate 60 (Inl EAGAIN)) s = Some ([], s1)" "worker_inv s1"
    "task_map s1 i = Some (t\<lparr>point := AtPoll fd 60\<rparr>)"
    using timeouts_poll [OF assms, of 60 w e] by (auto simp: MAX_RECYCLE_COUNT_def)
  let ?t = "t\<lparr>point := AtPoll fd 60\<rparr>"
  let ?s = "loop_head ?t (close_fd fd s1)"
  have same: "?t\<lparr>pFastCgiCodec := pFastCgiCodec ?t\<rparr> = ?t" by simp
  have "task_ok i ?t" using s1(2,3) by (simp add: worker_inv_def pool_def)
  then have c: "co_inv (pFastCgiCodec ?t)" by (simp add: task_ok_def)
  have "point ?t = AtPoll fd 60" by simp
  note fin = finish_ok [OF s1(2,3) this c, unfolded same]
  have "task_wake w e (Inl EAGAIN) ?t fd 60 s1 = Some ([], ?s)"
    by (simp add: task_wake_def readData_def readFd_def err_defs MAX_RECYCLE_COUNT_def)
  then have last: "wakes w e i [Inl EAGAIN] s1 = Some ([], ?s)" using s1(3) by simp
  have "(61 :: nat) = Suc 60" by simp
  then have split: "replicate 61 (Inl EAGAIN :: int + bytes) = replicate 60 (Inl EAGAIN) @ [Inl EAGAIN]"
    by (simp only: replicate_Suc replicate_append_same)
  have "wakes w e i (replicate 61 (Inl EAGAIN)) s = Some ([], ?s)"
    unfolding split wakes_append s1(1) Option.bind.simps prod.case last by simp
  with s1(1,3) fin show ?thesis by blast
qed

theorem cocgi_idle_connection_closed_witness:
  defines "s \<equiv> accept_task 7 (worker_init ''*'' 80 1 1 None)"
  shows "\<exists>t s1 s2. wakes (\<lambda>i n. 1) 0 0 (replicate 60 (Inl EAGAIN)) s = Some ([], s1) \<and>
    task_map s1 0 = Some (t\<lparr>point := AtPoll 7 60\<rparr>) \<and>
    wakes (\<lambda>i n. 1) 0 0 (replicate 61 (Inl EAGAIN)) s = Some ([], s2) \<and>
    7 \<notin> set (open_fds s2) \<and> 0 \<notin> set (m_usRunTask s2) \<and> worker_inv s2"
  unfolding s_def
  by (rule exI, rule cocgi_idle_connection_closed [OF connected_ok(1,2)]) simp



end
