(* ===== verification/Fcgiapp_Stream.thy ===== *)
theory Fcgiapp_Stream
  imports Fcgi_Wire
begin

unbundle bit_operations_syntax

text \<open>
  The streams of the FastCGI library: the structures of
  \<^verbatim>\<open>src/fastcgi/fastcgi_lib/fastcgi.h\<close> and \<^verbatim>\<open>fcgiapp.h\<close>, and from \<^verbatim>\<open>fcgiapp.cpp\<close> the
  construction of headers and streams and the whole writing side: \<^verbatim>\<open>FCGX_PutStr\<close>,
  \<^verbatim>\<open>EmptyBuffProc\<close>, \<^verbatim>\<open>WriteCloseRecords\<close>, \<^verbatim>\<open>FCGX_FFlush\<close>, \<^verbatim>\<open>FCGX_FClose\<close> and the error state.

  A pointer into the buffer of a stream is its offset. The streams of a request share it, so it
  is passed along with what the connection has delivered and taken. The result of a system call
  is an argument: a negative value \<open>-e\<close> stands for \<open>-1\<close> with \<open>e\<close> in \<^verbatim>\<open>errno\<close>. \<open>None\<close> is a
  failed \<^verbatim>\<open>ASSERT\<close>, an access out of bounds or a loop that does not end.
\<close>

section \<open>Structures\<close>

record FCGI_Header =
  version :: u8
  hd_type :: u8
  requestIdB1 :: u8
  requestIdB0 :: u8
  contentLengthB1 :: u8
  contentLengthB0 :: u8
  paddingLength :: u8
  reserved :: u8

record FCGI_EndRequestBody =
  appStatusB3 :: u8
  appStatusB2 :: u8
  appStatusB1 :: u8
  appStatusB0 :: u8
  protocolStatus :: u8

definition FCGI_HEADER_LEN :: nat where "FCGI_HEADER_LEN = 8"
definition FCGX_MAX_LENGTH :: int where "FCGX_MAX_LENGTH = 0xffff"
definition FCGI_BEGIN_REQUEST :: int where "FCGI_BEGIN_REQUEST = 1"
definition FCGI_END_REQUEST :: int where "FCGI_END_REQUEST = 3"
definition FCGI_PARAMS :: int where "FCGI_PARAMS = 4"
definition FCGI_STDIN :: int where "FCGI_STDIN = 5"
definition FCGI_STDOUT :: int where "FCGI_STDOUT = 6"
definition FCGI_STDERR :: int where "FCGI_STDERR = 7"
definition FCGI_DATA :: int where "FCGI_DATA = 8"
definition FCGI_GET_VALUES :: int where "FCGI_GET_VALUES = 9"
definition FCGI_GET_VALUES_RESULT :: int where "FCGI_GET_VALUES_RESULT = 10"
definition FCGI_UNKNOWN_TYPE :: int where "FCGI_UNKNOWN_TYPE = 11"
definition FCGI_NULL_REQUEST_ID :: int where "FCGI_NULL_REQUEST_ID = 0"
definition FCGI_KEEP_CONN :: int where "FCGI_KEEP_CONN = 1"
definition FCGI_RESPONDER :: int where "FCGI_RESPONDER = 1"
definition FCGI_AUTHORIZER :: int where "FCGI_AUTHORIZER = 2"
definition FCGI_FILTER :: int where "FCGI_FILTER = 3"
definition FCGI_REQUEST_COMPLETE :: int where "FCGI_REQUEST_COMPLETE = 0"
definition FCGI_CANT_MPX_CONN :: int where "FCGI_CANT_MPX_CONN = 1"

definition FCGX_UNSUPPORTED_VERSION :: int where "FCGX_UNSUPPORTED_VERSION = - 2"
definition FCGX_PROTOCOL_ERROR :: int where "FCGX_PROTOCOL_ERROR = - 3"
definition FCGX_PARAMS_ERROR :: int where "FCGX_PARAMS_ERROR = - 4"
definition FCGX_CALL_SEQ_ERROR :: int where "FCGX_CALL_SEQ_ERROR = - 5"

lemmas fcgx_constants = FCGI_HEADER_LEN_def FCGX_MAX_LENGTH_def FCGI_BEGIN_REQUEST_def FCGI_END_REQUEST_def
  FCGI_PARAMS_def FCGI_STDIN_def FCGI_STDOUT_def FCGI_STDERR_def FCGI_DATA_def FCGI_GET_VALUES_def
  FCGI_GET_VALUES_RESULT_def FCGI_UNKNOWN_TYPE_def FCGI_NULL_REQUEST_ID_def FCGI_KEEP_CONN_def
  FCGI_RESPONDER_def FCGI_AUTHORIZER_def FCGI_FILTER_def FCGI_REQUEST_COMPLETE_def FCGI_CANT_MPX_CONN_def
  FCGX_UNSUPPORTED_VERSION_def FCGX_PROTOCOL_ERROR_def FCGX_PARAMS_ERROR_def FCGX_CALL_SEQ_ERROR_def

text \<open>A stream together with its \<^verbatim>\<open>FCGX_Stream_Data\<close>.\<close>

record FCGX_Stream =
  s_rdNext :: nat
  s_wrNext :: nat
  s_stop :: nat
  s_stopUnget :: nat
  s_isReader :: bool
  s_isClosed :: bool
  s_wasFCloseCalled :: bool
  s_errno :: int
  d_buff :: bytes
  d_bufflen :: nat
  d_buffStop :: nat
  d_type :: int
  d_eorStop :: bool
  d_skip :: bool
  d_contentLen :: nat
  d_paddingLen :: nat
  d_isAnythingWritten :: bool
  d_rawWrite :: bool

text \<open>\<^verbatim>\<open>Params\<close>: the strings before \<^verbatim>\<open>cur\<close> and the number the vector can hold.\<close>

record Params =
  pp_vec :: "bytes list"
  pp_length :: nat

record FCGX_Request =
  rq_requestId :: int
  rq_role :: int
  rq_in :: "FCGX_Stream option"
  rq_out :: "FCGX_Stream option"
  rq_err :: "FCGX_Stream option"
  rq_envp :: "bytes list option"
  rq_paramsPtr :: "Params option"
  rq_ipcFd :: int
  rq_isBeginProcessed :: bool
  rq_keepConnection :: int
  rq_appStatus :: int
  rq_nWriters :: int
  rq_flags :: int
  rq_listen_sock :: int

text \<open>A request and its connection: the bytes still to be read and those written, how many
  system calls have been made, and the descriptors that have been closed.\<close>

record fcgx_conn = FCGX_Request +
  w_unread :: bytes
  w_reads :: nat
  w_written :: bytes
  w_writes :: nat
  w_accepts :: nat
  w_mallocs :: nat
  w_closed :: "int list"

section \<open>Headers\<close>

definition header_mem :: "FCGI_Header \<Rightarrow> bytes" where
  "header_mem h = map (\<lambda>w. char_of (unat w))
     [version h, hd_type h, requestIdB1 h, requestIdB0 h, contentLengthB1 h, contentLengthB0 h,
      paddingLength h, reserved h]"

definition end_body_mem :: "FCGI_EndRequestBody \<Rightarrow> bytes" where
  "end_body_mem b = map (\<lambda>w. char_of (unat w))
     [appStatusB3 b, appStatusB2 b, appStatusB1 b, appStatusB0 b, protocolStatus b] @ replicate 3 NUL"

definition MakeHeader :: "int \<Rightarrow> int \<Rightarrow> int \<Rightarrow> int \<Rightarrow> FCGI_Header option" where
  "MakeHeader type requestId contentLength padLength = do {
     assert_opt (0 \<le> contentLength \<and> contentLength \<le> FCGX_MAX_LENGTH);
     assert_opt (0 \<le> padLength \<and> padLength \<le> 0xff);
     Some \<lparr>version = 1, hd_type = word_of_int type,
           requestIdB1 = word_of_int (drop_bit 8 requestId AND 0xff),
           requestIdB0 = word_of_int (requestId AND 0xff),
           contentLengthB1 = word_of_int (drop_bit 8 contentLength AND 0xff),
           contentLengthB0 = word_of_int (contentLength AND 0xff),
           paddingLength = word_of_int padLength, reserved = 0\<rparr>
   }"

definition MakeEndRequestBody :: "int \<Rightarrow> int \<Rightarrow> FCGI_EndRequestBody" where
  "MakeEndRequestBody appStatus protStatus =
     \<lparr>appStatusB3 = word_of_int (drop_bit 24 appStatus AND 0xff),
      appStatusB2 = word_of_int (drop_bit 16 appStatus AND 0xff),
      appStatusB1 = word_of_int (drop_bit 8 appStatus AND 0xff),
      appStatusB0 = word_of_int (appStatus AND 0xff),
      protocolStatus = word_of_int protStatus\<rparr>"

definition MakeUnknownTypeBody :: "int \<Rightarrow> bytes" where
  "MakeUnknownTypeBody type = char_of (unat (word_of_int type :: u8)) # replicate 7 NUL"

definition AlignInt8 :: "u32 \<Rightarrow> int" where
  "AlignInt8 n = sint ((n + 7) AND (- 1 - 7))"

definition AlignPtr8 :: "u64 \<Rightarrow> u64" where
  "AlignPtr8 p = (let u = ((p + 7) AND (- 1 - 7)) - p in p + u)"

section \<open>Creating streams\<close>

text \<open>\<open>mBuff\<close> is the address that \<^verbatim>\<open>malloc\<close> returns and \<open>garbage\<close> what it holds.\<close>

definition NewStream :: "u64 \<Rightarrow> bytes \<Rightarrow> int \<Rightarrow> bool \<Rightarrow> int \<Rightarrow> FCGX_Stream" where
  "NewStream mBuff garbage bufflen0 isReader streamType =
     (let bufflen1 = AlignInt8 (word_of_int (min (max bufflen0 32) (FCGX_MAX_LENGTH + 1)));
          len = nat (if AlignPtr8 mBuff \<noteq> mBuff then bufflen1 - 8 else bufflen1);
          buffStop = (if isReader then 0 else len)
      in \<lparr>s_rdNext = (if isReader then 0 else buffStop),
          s_wrNext = (if isReader then 0 else FCGI_HEADER_LEN),
          s_stop = (if isReader then 0 else buffStop), s_stopUnget = 0,
          s_isReader = isReader, s_isClosed = False, s_wasFCloseCalled = False, s_errno = 0,
          d_buff = take len (garbage @ replicate len NUL), d_bufflen = len, d_buffStop = buffStop,
          d_type = streamType, d_eorStop = False, d_skip = False, d_contentLen = 0, d_paddingLen = 0,
          d_isAnythingWritten = False, d_rawWrite = False\<rparr>)"

definition NewReader :: "u64 \<Rightarrow> bytes \<Rightarrow> int \<Rightarrow> int \<Rightarrow> FCGX_Stream" where
  "NewReader mBuff garbage bufflen streamType = NewStream mBuff garbage bufflen True streamType"

definition NewWriter :: "u64 \<Rightarrow> bytes \<Rightarrow> int \<Rightarrow> int \<Rightarrow> FCGX_Stream" where
  "NewWriter mBuff garbage bufflen streamType = NewStream mBuff garbage bufflen False streamType"

definition FCGX_CreateWriter ::
  "u64 \<Rightarrow> bytes \<Rightarrow> int \<Rightarrow> int \<Rightarrow> int \<Rightarrow> int \<Rightarrow> fcgx_conn \<Rightarrow> FCGX_Stream \<times> fcgx_conn" where
  "FCGX_CreateWriter mBuff garbage ipcFd requestId bufflen streamType w =
     (NewWriter mBuff garbage bufflen streamType,
      w\<lparr>rq_ipcFd := ipcFd, rq_requestId := requestId, rq_nWriters := 2\<rparr>)"

section \<open>Errors\<close>

definition SetError :: "FCGX_Stream \<Rightarrow> int \<Rightarrow> FCGX_Stream" where
  "SetError stream err =
     (if s_errno stream = 0 then stream\<lparr>s_errno := err\<rparr> else stream)\<lparr>s_isClosed := True\<rparr>"

definition FCGX_GetError :: "FCGX_Stream \<Rightarrow> int" where
  "FCGX_GetError stream = s_errno stream"

definition FCGX_ClearError :: "FCGX_Stream \<Rightarrow> FCGX_Stream" where
  "FCGX_ClearError stream = stream\<lparr>s_errno := 0\<rparr>"

definition FCGX_HasSeenEOF :: "FCGX_Stream \<Rightarrow> int" where
  "FCGX_HasSeenEOF stream = (if s_isClosed stream then - 1 else 0)"

section \<open>Writing\<close>

text \<open>Storing bytes at an offset, within the buffer.\<close>

definition poke :: "nat \<Rightarrow> bytes \<Rightarrow> bytes \<Rightarrow> bytes option" where
  "poke i bs mem = (if i + length bs \<le> length mem then Some (overwrite i bs mem) else None)"

partial_function (option) write_it_all ::
  "(nat \<Rightarrow> nat \<Rightarrow> int) \<Rightarrow> bytes \<Rightarrow> fcgx_conn \<Rightarrow> (int \<times> fcgx_conn) option" where
  "write_it_all wr buf w =
     (if buf \<noteq> [] then
        (let wrote = wr (w_writes w) (length buf); w1 = w\<lparr>w_writes := Suc (w_writes w)\<rparr> in
         if wrote < 0 then Some (wrote, w1)
         else write_it_all wr (drop (nat wrote) buf)
                (w1\<lparr>w_written := w_written w @ take (nat wrote) buf\<rparr>))
      else Some (0, w))"

text \<open>\<^verbatim>\<open>EmptyBuffProc\<close>, before and after it writes the closing records.\<close>

definition empty_header :: "FCGX_Stream \<Rightarrow> fcgx_conn \<Rightarrow> FCGX_Stream option" where
  "empty_header stream w =
     (if \<not> d_rawWrite stream then
        (let cLen = int (s_wrNext stream) - int FCGI_HEADER_LEN in
         if 0 < cLen then do {
           let eLen = AlignInt8 (word_of_int cLen);
           b1 \<leftarrow> poke (s_wrNext stream) (replicate (nat (eLen - cLen)) NUL) (d_buff stream);
           header \<leftarrow> MakeHeader (d_type stream) (rq_requestId w) cLen (eLen - cLen);
           b2 \<leftarrow> poke 0 (header_mem header) b1;
           Some (stream\<lparr>d_buff := b2, s_wrNext := s_wrNext stream + nat (eLen - cLen)\<rparr>)
         }
         else Some (stream\<lparr>s_wrNext := 0\<rparr>))
      else Some stream)"

definition empty_write ::
  "(nat \<Rightarrow> nat \<Rightarrow> int) \<Rightarrow> FCGX_Stream \<Rightarrow> fcgx_conn \<Rightarrow> (FCGX_Stream \<times> fcgx_conn) option" where
  "empty_write wr stream w =
     (let reserve = (\<lambda>s. if \<not> d_rawWrite s then s\<lparr>s_wrNext := s_wrNext s + FCGI_HEADER_LEN\<rparr> else s) in
      if s_wrNext stream \<noteq> 0 then do {
        let s1 = stream\<lparr>d_isAnythingWritten := True\<rparr>;
        (r, w1) \<leftarrow> write_it_all wr (take (s_wrNext s1) (d_buff s1)) w;
        if r < 0 then Some (SetError s1 (- r), w1)
        else Some (reserve (s1\<lparr>s_wrNext := 0\<rparr>), w1)
      }
      else Some (reserve stream, w))"

definition EmptyBuffProc_open ::
  "(nat \<Rightarrow> nat \<Rightarrow> int) \<Rightarrow> FCGX_Stream \<Rightarrow> fcgx_conn \<Rightarrow> (FCGX_Stream \<times> fcgx_conn) option" where
  "EmptyBuffProc_open wr stream w = do { s1 \<leftarrow> empty_header stream w; empty_write wr s1 w }"

text \<open>The part of the text that fits, copied.\<close>

definition put_some :: "bytes \<Rightarrow> nat \<Rightarrow> FCGX_Stream \<Rightarrow> (nat \<times> FCGX_Stream) option" where
  "put_some str left stream =
     (if s_wrNext stream \<noteq> s_stop stream then do {
        let m = min left (s_stop stream - s_wrNext stream);
        b \<leftarrow> poke (s_wrNext stream) (take m str) (d_buff stream);
        Some (m, stream\<lparr>d_buff := b, s_wrNext := s_wrNext stream + m\<rparr>)
      }
      else Some (0, stream))"

partial_function (option) put_loop ::
  "(nat \<Rightarrow> nat \<Rightarrow> int) \<Rightarrow> bytes \<Rightarrow> nat \<Rightarrow> nat \<Rightarrow> FCGX_Stream \<Rightarrow> fcgx_conn
   \<Rightarrow> (int \<times> FCGX_Stream \<times> fcgx_conn) option" where
  "put_loop wr str n bytesMoved stream w =
     Option.bind (put_some str (n - bytesMoved) stream) (\<lambda>(m, s1).
       if s_wrNext stream \<noteq> s_stop stream \<and> bytesMoved + m = n then Some (int n, s1, w)
       else if s_isClosed s1 \<or> s_isReader s1 then Some (- 1, s1, w)
       else Option.bind (EmptyBuffProc_open wr s1 w) (\<lambda>(s2, w2).
         put_loop wr (drop m str) n (bytesMoved + m) s2 w2))"

definition FCGX_PutStr ::
  "(nat \<Rightarrow> nat \<Rightarrow> int) \<Rightarrow> bytes \<Rightarrow> FCGX_Stream \<Rightarrow> fcgx_conn \<Rightarrow> (int \<times> FCGX_Stream \<times> fcgx_conn) option" where
  "FCGX_PutStr wr str stream w =
     (let n = length str in
      if int n \<le> int (s_stop stream) - int (s_wrNext stream) then do {
        b \<leftarrow> poke (s_wrNext stream) str (d_buff stream);
        Some (int n, stream\<lparr>d_buff := b, s_wrNext := s_wrNext stream + n\<rparr>, w)
      }
      else put_loop wr str n 0 stream w)"

text \<open>The string ends at its first null byte.\<close>

definition FCGX_PutS ::
  "(nat \<Rightarrow> nat \<Rightarrow> int) \<Rightarrow> bytes \<Rightarrow> FCGX_Stream \<Rightarrow> fcgx_conn \<Rightarrow> (int \<times> FCGX_Stream \<times> fcgx_conn) option" where
  "FCGX_PutS wr str stream w = FCGX_PutStr wr (takeWhile (\<lambda>c. c \<noteq> NUL) str) stream w"

definition put_byte :: "int \<Rightarrow> FCGX_Stream \<Rightarrow> (int \<times> FCGX_Stream) option" where
  "put_byte c stream = do {
     let b = (word_of_int c :: u8);
     mem \<leftarrow> poke (s_wrNext stream) [char_of (unat b)] (d_buff stream);
     Some (uint b, stream\<lparr>d_buff := mem, s_wrNext := s_wrNext stream + 1\<rparr>)
   }"

definition FCGX_PutChar ::
  "(nat \<Rightarrow> nat \<Rightarrow> int) \<Rightarrow> int \<Rightarrow> FCGX_Stream \<Rightarrow> fcgx_conn \<Rightarrow> (int \<times> FCGX_Stream \<times> fcgx_conn) option" where
  "FCGX_PutChar wr c stream w =
     (if s_wrNext stream \<noteq> s_stop stream then do { (r, s) \<leftarrow> put_byte c stream; Some (r, s, w) }
      else if s_isClosed stream \<or> s_isReader stream then Some (- 1, stream, w)
      else do {
        (s1, w1) \<leftarrow> EmptyBuffProc_open wr stream w;
        if s_wrNext s1 \<noteq> s_stop s1 then do { (r, s) \<leftarrow> put_byte c s1; Some (r, s, w1) }
        else do { assert_opt (s_isClosed s1); Some (- 1, s1, w1) }
      })"

definition WriteCloseRecords ::
  "(nat \<Rightarrow> nat \<Rightarrow> int) \<Rightarrow> FCGX_Stream \<Rightarrow> fcgx_conn \<Rightarrow> (FCGX_Stream \<times> fcgx_conn) option" where
  "WriteCloseRecords wr stream w = do {
     let s1 = stream\<lparr>d_rawWrite := True\<rparr>;
     (s2, w2) \<leftarrow>
       (if \<not> (d_type s1 = FCGI_STDERR \<and> s_wrNext s1 = 0 \<and> \<not> d_isAnythingWritten s1) then do {
          header \<leftarrow> MakeHeader (d_type s1) (rq_requestId w) 0 0;
          (_, s, w') \<leftarrow> FCGX_PutStr wr (header_mem header) s1 w;
          Some (s, w')
        }
        else Some (s1, w));
     (s3, w3) \<leftarrow>
       (if rq_nWriters w2 = 1 then do {
          header \<leftarrow> MakeHeader FCGI_END_REQUEST (rq_requestId w2) 8 0;
          let body = MakeEndRequestBody (rq_appStatus w2) FCGI_REQUEST_COMPLETE;
          (_, s, w') \<leftarrow> FCGX_PutStr wr (header_mem header @ end_body_mem body) s2 w2;
          Some (s, w')
        }
        else Some (s2, w2));
     Some (s3, w3\<lparr>rq_nWriters := rq_nWriters w3 - 1\<rparr>)
   }"

definition EmptyBuffProc ::
  "(nat \<Rightarrow> nat \<Rightarrow> int) \<Rightarrow> bool \<Rightarrow> FCGX_Stream \<Rightarrow> fcgx_conn \<Rightarrow> (FCGX_Stream \<times> fcgx_conn) option" where
  "EmptyBuffProc wr doClose stream w = do {
     s1 \<leftarrow> empty_header stream w;
     (s2, w2) \<leftarrow> (if doClose then WriteCloseRecords wr s1 w else Some (s1, w));
     empty_write wr s2 w2
   }"

definition FCGX_FFlush ::
  "(nat \<Rightarrow> nat \<Rightarrow> int) \<Rightarrow> FCGX_Stream \<Rightarrow> fcgx_conn \<Rightarrow> (int \<times> FCGX_Stream \<times> fcgx_conn) option" where
  "FCGX_FFlush wr stream w =
     (if s_isClosed stream \<or> s_isReader stream then Some (0, stream, w)
      else do {
        (s1, w1) \<leftarrow> EmptyBuffProc wr False stream w;
        Some (if s_isClosed s1 then - 1 else 0, s1, w1)
      })"

definition FCGX_FClose ::
  "(nat \<Rightarrow> nat \<Rightarrow> int) \<Rightarrow> FCGX_Stream \<Rightarrow> fcgx_conn \<Rightarrow> (int \<times> FCGX_Stream \<times> fcgx_conn) option" where
  "FCGX_FClose wr stream w = do {
     (s1, w1) \<leftarrow>
       (if \<not> s_wasFCloseCalled stream then do {
          (s, w') \<leftarrow> (if \<not> s_isReader stream then EmptyBuffProc wr True stream w else Some (stream, w));
          let s' = s\<lparr>s_wasFCloseCalled := True, s_isClosed := True\<rparr>;
          Some (if s_isReader s' then s'\<lparr>s_wrNext := s_rdNext s', s_stop := s_rdNext s'\<rparr>
                else s'\<lparr>s_rdNext := s_wrNext s', s_stop := s_wrNext s'\<rparr>, w')
        }
        else Some (stream, w));
     Some (if s_errno s1 = 0 then 0 else - 1, s1, w1)
   }"

definition FCGX_SetExitStatus :: "int \<Rightarrow> fcgx_conn \<Rightarrow> fcgx_conn" where
  "FCGX_SetExitStatus status w = w\<lparr>rq_appStatus := status\<rparr>"

lemma and_not_7: "x AND (- 1 - 7) = push_bit 3 (drop_bit 3 (x :: 'a :: len word))"
proof -
  have "(- 1 - 7 :: 'a word) = NOT (mask 3)" by (simp add: not_eq_complement mask_eq_exp_minus_1)
  then show ?thesis
    by (simp only: bit_eq_iff)
      (auto simp: bit_and_iff bit_not_iff bit_mask_iff bit_push_bit_iff bit_drop_bit_eq not_less
        dest: bit_imp_le_length)
qed

lemma unat_align8:
  fixes x :: "'a :: len word"
  shows "unat (x AND (- 1 - 7)) = 8 * (unat x div 8)"
proof -
  have d: "unat (drop_bit 3 x) = unat x div 8" 
    unfolding unsigned_drop_bit_eq using unsigned_less [of x]
    by (simp add: drop_bit_eq_div take_bit_nat_eq_self)
  have "push_bit 3 (drop_bit 3 x) = (of_nat (8 * (unat x div 8)) :: 'a word)"
  proof -
    have "(of_nat (unat (drop_bit 3 x)) :: 'a word) = drop_bit 3 x" by simp
    then show ?thesis unfolding d by (simp add: push_bit_eq_mult mult.commute)
  qed
  moreover have "8 * (unat x div 8) < 2 ^ LENGTH('a)"
    using unsigned_less [of x] by (metis le_less_trans div_times_less_eq_dividend mult.commute)
  ultimately show ?thesis by (simp only: and_not_7 unat_of_nat mod_less)
qed

lemma AlignInt8_eq:
  assumes "n \<le> 65536"
  shows "AlignInt8 (word_of_int (int n)) = int (8 * ((n + 7) div 8))"
proof -
  have "unat (word_of_int (int n) + 7 :: u32) = n + 7"
    using assms unat_of_nat [of "n + 7", where ?'a = 32] by (simp add: take_bit_nat_eq_self)
  then have u: "unat ((word_of_int (int n) + 7 :: u32) AND (- 1 - 7)) = 8 * ((n + 7) div 8)"
    by (simp only: unat_align8)
  let ?w = "(word_of_int (int n) + 7 :: u32) AND (- 1 - 7)"
  have "sint (of_nat (unat ?w) :: u32) = signed_take_bit 31 (int (unat ?w))"
    unfolding signed_of_nat by simp
  also have "\<dots> = int (unat ?w)"
    unfolding u using assms by (intro signed_take_bit_int_eq_self) auto
  finally have "sint ?w = int (unat ?w)" by simp
  with u show ?thesis unfolding AlignInt8_def by simp
qed

section \<open>Records that are written\<close>

text \<open>What \<^verbatim>\<open>write\<close> promises when it does not fail: it takes at least one byte and not more
  than it was given.\<close>

definition writes_all :: "(nat \<Rightarrow> nat \<Rightarrow> int) \<Rightarrow> bool" where
  "writes_all wr \<longleftrightarrow> (\<forall>i n. 0 < n \<longrightarrow> 0 < wr i n \<and> wr i n \<le> int n)"

lemma write_it_all_ok:
  assumes "writes_all wr"
  shows "\<exists>k. write_it_all wr buf w = Some (0, w\<lparr>w_written := w_written w @ buf, w_writes := k\<rparr>)"
proof (induction "length buf" arbitrary: buf w rule: less_induct)
  case less
  show ?case
  proof (cases "buf = []")
    case True
    then show ?thesis by (subst write_it_all.simps) (auto intro: exI [of _ "w_writes w"])
  next
    case False
    let ?n = "wr (w_writes w) (length buf)"
    let ?w = "w\<lparr>w_writes := Suc (w_writes w), w_written := w_written w @ take (nat ?n) buf\<rparr>"
    have n: "0 < ?n" using assms False by (simp add: writes_all_def)
    have "length (drop (nat ?n) buf) < length buf" using n False by simp
    from less [OF this, of ?w] obtain k where k: "write_it_all wr (drop (nat ?n) buf) ?w =
        Some (0, ?w\<lparr>w_written := w_written ?w @ drop (nat ?n) buf, w_writes := k\<rparr>)" by blast
    have "write_it_all wr buf w = write_it_all wr (drop (nat ?n) buf) ?w"
      using False n by (subst write_it_all.simps) (simp add: Let_def)
    with k show ?thesis by (intro exI [of _ k]) simp
  qed
qed

definition pad_to_8 :: "nat \<Rightarrow> nat" where
  "pad_to_8 n = 8 * ((n + 7) div 8) - n"

lemma pad_to_8_less: "pad_to_8 n < 8" and pad_to_8_dvd: "8 dvd n + pad_to_8 n"
proof -
  have "n + pad_to_8 n = 8 * ((n + 7) div 8)" by (simp add: pad_to_8_def)
  then show "8 dvd n + pad_to_8 n" by simp
  show "pad_to_8 n < 8" by (simp add: pad_to_8_def)
qed

lemma char_of_byte:
  "char_of (unat (word_of_int (drop_bit 8 (int n) AND 255) :: u8)) = char_of (n div 256)"
  "char_of (unat (word_of_int (int n AND 255) :: u8)) = char_of n"
proof -
  have m: "k AND 255 = k mod 256" for k :: int
    using take_bit_eq_mask [of 8 k] by (simp add: take_bit_eq_mod mask_eq_exp_minus_1)
  have c: "char_of (unat (word_of_int (int k) :: u8)) = char_of k" for k
    by (simp add: unat_of_nat take_bit_eq_mod char_of_mod_256)
  show "char_of (unat (word_of_int (drop_bit 8 (int n) AND 255) :: u8)) = char_of (n div 256)"
    using c [of "n div 256 mod 256"] by (simp add: m drop_bit_eq_div zdiv_int zmod_int)
  show "char_of (unat (word_of_int (int n AND 255) :: u8)) = char_of n"
    using c [of "n mod 256"] by (simp add: m zmod_int)
qed

lemma MakeHeader_ok:
  assumes "n < 65536" "pad < 256" "t < 256" "rid < 65536"
  shows "\<exists>h. MakeHeader (int t) (int rid) (int n) (int pad) = Some h \<and>
    (\<forall>c. length c = n \<longrightarrow> header_mem h @ c @ replicate pad NUL = enc_record t rid c pad)"
proof -
  have c: "char_of (unat (of_nat k :: u8)) = char_of k" for k
    by (simp add: unat_of_nat take_bit_eq_mod char_of_mod_256)
  have one: "char_of (unat (1 :: u8)) = char_of (1 :: nat)" "char_of (unat (0 :: u8)) = NUL" by simp_all
  have ok: "0 \<le> int n \<and> int n \<le> FCGX_MAX_LENGTH" "0 \<le> int pad \<and> int pad \<le> 0xff"
    using assms by (simp_all add: FCGX_MAX_LENGTH_def)
  show ?thesis
    unfolding MakeHeader_def using ok
    by (intro exI conjI allI impI)
      (simp, simp only: header_mem_def list.map FCGI_Header.simps char_of_byte c one enc_record_def
        append_Cons append_Nil)
qed

section \<open>Writers\<close>

definition writer_ok :: "nat \<Rightarrow> FCGX_Stream \<Rightarrow> bool" where
  "writer_ok t s \<longleftrightarrow>
     \<not> s_isReader s \<and> \<not> s_isClosed s \<and> \<not> s_wasFCloseCalled s \<and> s_errno s = 0 \<and> \<not> d_rawWrite s \<and>
     length (d_buff s) = d_bufflen s \<and> s_stop s = d_bufflen s \<and> 8 dvd d_bufflen s \<and>
     24 \<le> d_bufflen s \<and> d_bufflen s \<le> 65536 \<and> 8 \<le> s_wrNext s \<and> s_wrNext s \<le> d_bufflen s \<and>
     d_type s = int t \<and> t < 256"

text \<open>What is in the buffer and not yet written.\<close>

definition payload :: "FCGX_Stream \<Rightarrow> bytes" where
  "payload s = take (s_wrNext s - 8) (drop 8 (d_buff s))"

definition stream_record :: "nat \<Rightarrow> nat \<Rightarrow> bytes \<Rightarrow> bytes" where
  "stream_record t rid c = enc_record t rid c (pad_to_8 (length c))"

lemma length_payload: "writer_ok t s \<Longrightarrow> length (payload s) = s_wrNext s - 8"
  by (auto simp: payload_def writer_ok_def)

lemma payload_chunk: "writer_ok t s \<Longrightarrow> payload s \<noteq> [] \<Longrightarrow> chunk_ok (payload s)"
  using length_payload [of t s] by (auto simp: chunk_ok_def writer_ok_def)

lemma padding_fits:
  assumes "8 dvd b" "8 + n \<le> b"
  shows "8 + n + pad_to_8 n \<le> b"
proof -
  obtain k where k: "b = 8 * k" using assms(1) by (auto simp: dvd_def)
  obtain m where m: "n + pad_to_8 n = 8 * m" using pad_to_8_dvd [of n] by (auto simp: dvd_def)
  have "8 * m < 8 * k" using assms(2) pad_to_8_less [of n] m k by linarith
  then show ?thesis using m k by simp
qed

lemma empty_header_data:
  assumes "writer_ok t s" "rq_requestId w = int rid" "rid < 65536" "payload s \<noteq> []"
  shows "\<exists>b. empty_header s w = Some (s\<lparr>d_buff := b, s_wrNext := s_wrNext s + pad_to_8 (length (payload s))\<rparr>) \<and>
    length b = d_bufflen s \<and> s_wrNext s + pad_to_8 (length (payload s)) \<le> d_bufflen s \<and>
    take (s_wrNext s + pad_to_8 (length (payload s))) b = stream_record t rid (payload s)"
proof -
  let ?c = "payload s" let ?n = "length ?c" let ?p = "pad_to_8 ?n"
  have s: "8 dvd d_bufflen s" "length (d_buff s) = d_bufflen s" "d_bufflen s \<le> 65536" "d_type s = int t" "t < 256"
    "\<not> d_rawWrite s" "s_wrNext s \<le> d_bufflen s"
    using assms(1) by (simp_all add: writer_ok_def)
  have n0: "0 < ?n" using assms(4) by simp
  then have n: "s_wrNext s = 8 + ?n" "0 < ?n"
    using length_payload [OF assms(1)] by simp_all
  have fit: "8 + ?n + ?p \<le> d_bufflen s" using padding_fits [OF s(1), of ?n] s(7) n(1) by simp
  have sum: "?n + ?p = 8 * ((?n + 7) div 8)" by (simp add: pad_to_8_def)
  have le: "?n \<le> 65536" using s(3,7) n(1) by linarith
  have "AlignInt8 (word_of_int (int ?n)) = int (?n + ?p)" unfolding sum by (rule AlignInt8_eq [OF le])
  then have el: "AlignInt8 (word_of_int (int ?n)) = int ?n + int ?p" by simp
  have cl: "int (s_wrNext s) - int FCGI_HEADER_LEN = int ?n" using n(1) by (simp add: FCGI_HEADER_LEN_def)
  obtain h where h: "MakeHeader (int t) (int rid) (int ?n) (int ?p) = Some h"
    "header_mem h @ ?c @ replicate ?p NUL = enc_record t rid ?c ?p"
    using MakeHeader_ok [of ?n ?p t rid] s(3,5,7) n(1) pad_to_8_less [of ?n] assms(3) by auto
  let ?b1 = "overwrite (s_wrNext s) (replicate ?p NUL) (d_buff s)"
  have len1: "length ?b1 = d_bufflen s" using fit n(1) s(2) by simp
  have hl: "length (header_mem h) = 8" by (simp add: header_mem_def)
  let ?b2 = "overwrite 0 (header_mem h) ?b1"
  have p1: "poke (s_wrNext s) (replicate ?p NUL) (d_buff s) = Some ?b1"
    using fit n(1) s(2) unfolding poke_def by simp
  have p2: "poke 0 (header_mem h) ?b1 = Some ?b2" using len1 hl fit unfolding poke_def by simp
  have "empty_header s w = Some (s\<lparr>d_buff := ?b2, s_wrNext := s_wrNext s + ?p\<rparr>)"
    unfolding empty_header_def cl Let_def el s(4) assms(2)
    using s(6) n(2) h(1) p1 p2 by simp
  moreover have "length ?b2 = d_bufflen s" using len1 hl fit by simp
  moreover have "take (s_wrNext s + ?p) ?b2 = stream_record t rid ?c"
  proof -
    have "?b2 = header_mem h @ drop 8 ?b1" using hl by (simp add: overwrite_def)
    moreover have "take (?n + ?p) (drop 8 ?b1) = ?c @ replicate ?p NUL"
    proof -
      have "s_wrNext s - 8 = ?n" "s_wrNext s + length (replicate ?p NUL) - 8 = ?n + ?p" using n(1) by simp_all
      moreover have "take (s_wrNext s - 8) (drop 8 (d_buff s)) = ?c" by (simp only: payload_def)
      moreover have "8 \<le> s_wrNext s" "s_wrNext s + length (replicate ?p NUL) \<le> length (d_buff s)"
        using n(1) fit s(2) by simp_all
      ultimately show ?thesis
        using take_drop_overwrite [of 8 "s_wrNext s" "replicate ?p NUL" "d_buff s"] by simp
    qed
    ultimately show ?thesis
      using n(1) hl h(2) by (simp add: stream_record_def)
  qed
  ultimately show ?thesis using fit n(1) by (intro exI [of _ ?b2]) simp
qed

text \<open>Emptying the buffer writes its content as one record, if it has any.\<close>

lemma empty_open_ok:
  assumes "writes_all wr" "writer_ok t s" "rq_requestId w = int rid" "rid < 65536"
  shows "\<exists>b k. EmptyBuffProc_open wr s w =
    Some (s\<lparr>d_buff := b, s_wrNext := 8, d_isAnythingWritten := d_isAnythingWritten s \<or> payload s \<noteq> []\<rparr>,
      w\<lparr>w_written := w_written w @ (if payload s = [] then [] else stream_record t rid (payload s)),
        w_writes := k\<rparr>) \<and> length b = d_bufflen s"
proof (cases "payload s = []")
  case True
  then have "s_wrNext s = 8" using length_payload [OF assms(2)] assms(2) by (simp add: writer_ok_def)
  with True assms(2) show ?thesis
    by (intro exI [of _ "d_buff s"] exI [of _ "w_writes w"])
      (simp add: EmptyBuffProc_open_def empty_header_def empty_write_def FCGI_HEADER_LEN_def writer_ok_def)
next
  case False
  let ?p = "pad_to_8 (length (payload s))"
  obtain b where b: "empty_header s w = Some (s\<lparr>d_buff := b, s_wrNext := s_wrNext s + ?p\<rparr>)"
    "length b = d_bufflen s" "take (s_wrNext s + ?p) b = stream_record t rid (payload s)"
    using empty_header_data [OF assms(2-4) False] by blast
  obtain k where k: "write_it_all wr (stream_record t rid (payload s)) w =
      Some (0, w\<lparr>w_written := w_written w @ stream_record t rid (payload s), w_writes := k\<rparr>)"
    using write_it_all_ok [OF assms(1)] by blast
  show ?thesis
    using False b k assms(2)
    by (intro exI [of _ b] exI [of _ k])
      (simp add: EmptyBuffProc_open_def empty_write_def FCGI_HEADER_LEN_def writer_ok_def Let_def)
qed

text \<open>
  Writing text: the bytes reach the connection in records of this stream, in order, except for
  the last ones, which stay in the buffer.
\<close>

definition put_result :: "nat \<Rightarrow> nat \<Rightarrow> bytes \<Rightarrow> FCGX_Stream \<Rightarrow> fcgx_conn \<Rightarrow> FCGX_Stream \<Rightarrow> fcgx_conn \<Rightarrow> bool" where
  "put_result t rid str s w s' w' \<longleftrightarrow>
     writer_ok t s' \<and> d_bufflen s' = d_bufflen s \<and>
     (\<exists>cs k. list_all chunk_ok cs \<and> payload s @ str = concat cs @ payload s' \<and>
        w' = w\<lparr>w_written := w_written w @ concat (map (stream_record t rid) cs), w_writes := k\<rparr> \<and>
        d_isAnythingWritten s' = (d_isAnythingWritten s \<or> cs \<noteq> []))"

lemma put_result_trans:
  assumes "put_result t rid a s w s1 w1" "put_result t rid b s1 w1 s2 w2"
  shows "put_result t rid (a @ b) s w s2 w2"
proof -
  obtain cs k where 1: "list_all chunk_ok cs" "payload s @ a = concat cs @ payload s1"
    "w1 = w\<lparr>w_written := w_written w @ concat (map (stream_record t rid) cs), w_writes := k\<rparr>"
    "d_isAnythingWritten s1 = (d_isAnythingWritten s \<or> cs \<noteq> [])" "d_bufflen s1 = d_bufflen s"
    using assms(1) unfolding put_result_def by blast
  obtain ds l where 2: "list_all chunk_ok ds" "payload s1 @ b = concat ds @ payload s2"
    "w2 = w1\<lparr>w_written := w_written w1 @ concat (map (stream_record t rid) ds), w_writes := l\<rparr>"
    "d_isAnythingWritten s2 = (d_isAnythingWritten s1 \<or> ds \<noteq> [])" "writer_ok t s2" "d_bufflen s2 = d_bufflen s1"
    using assms(2) unfolding put_result_def by blast
  have "(payload s @ a) @ b = concat cs @ payload s1 @ b" by (simp only: 1(2) append.assoc)
  then have "payload s @ a @ b = concat (cs @ ds) @ payload s2" by (simp add: 2(2))
  with 1(1,3-5) 2(1,3-6) show ?thesis
    unfolding put_result_def by (intro conjI exI [of _ "cs @ ds"] exI [of _ l]) simp_all
qed

lemma put_bytes:
  assumes "writer_ok t s" "s_wrNext s + length str \<le> d_bufflen s"
  shows "poke (s_wrNext s) str (d_buff s) = Some (overwrite (s_wrNext s) str (d_buff s))"
    "put_result t rid str s w
       (s\<lparr>d_buff := overwrite (s_wrNext s) str (d_buff s), s_wrNext := s_wrNext s + length str\<rparr>) w"
    "payload (s\<lparr>d_buff := overwrite (s_wrNext s) str (d_buff s), s_wrNext := s_wrNext s + length str\<rparr>) =
       payload s @ str"
proof -
  have s: "8 \<le> s_wrNext s" "length (d_buff s) = d_bufflen s" using assms(1) by (simp_all add: writer_ok_def)
  with assms(2) show "poke (s_wrNext s) str (d_buff s) = Some (overwrite (s_wrNext s) str (d_buff s))"
    by (simp add: poke_def)
  let ?s = "s\<lparr>d_buff := overwrite (s_wrNext s) str (d_buff s), s_wrNext := s_wrNext s + length str\<rparr>"
  have "payload s @ str = payload ?s"
    using take_drop_overwrite [of 8 "s_wrNext s" str "d_buff s"] s assms(2) by (simp add: payload_def)
  then show "payload ?s = payload s @ str" by (rule sym)
  then have "payload s @ str = concat [] @ payload ?s" by simp
  moreover have "writer_ok t ?s" using assms s by (simp add: writer_ok_def)
  ultimately show "put_result t rid str s w ?s w"
    unfolding put_result_def by (intro conjI exI [of _ "[]"] exI [of _ "w_writes w"]) simp_all
qed

lemma put_flush:
  assumes "writes_all wr" "writer_ok t s" "rq_requestId w = int rid" "rid < 65536"
  shows "\<exists>s' w'. EmptyBuffProc_open wr s w = Some (s', w') \<and> put_result t rid [] s w s' w' \<and> s_wrNext s' = 8"
proof -
  obtain b k where b: "EmptyBuffProc_open wr s w =
    Some (s\<lparr>d_buff := b, s_wrNext := 8, d_isAnythingWritten := d_isAnythingWritten s \<or> payload s \<noteq> []\<rparr>,
      w\<lparr>w_written := w_written w @ (if payload s = [] then [] else stream_record t rid (payload s)),
        w_writes := k\<rparr>)" "length b = d_bufflen s"
    using empty_open_ok [OF assms] by blast
  let ?s = "s\<lparr>d_buff := b, s_wrNext := 8, d_isAnythingWritten := d_isAnythingWritten s \<or> payload s \<noteq> []\<rparr>"
  have "writer_ok t ?s" "payload ?s = []" using assms(2) b(2) by (simp_all add: writer_ok_def payload_def)
  moreover have "list_all chunk_ok (if payload s = [] then [] else [payload s])"
    using payload_chunk [OF assms(2)] by simp
  ultimately have "put_result t rid [] s w ?s (w\<lparr>w_written := w_written w @
      (if payload s = [] then [] else stream_record t rid (payload s)), w_writes := k\<rparr>)"
    unfolding put_result_def
    by (intro conjI exI [of _ "if payload s = [] then [] else [payload s]"] exI [of _ k]) simp_all
  with b(1) show ?thesis by (intro exI conjI) (assumption, assumption, simp)
qed

text \<open>
  The interface between the buffer and the loop that fills it. \<open>ok\<close> says that the stream can
  take bytes and \<open>res\<close> what has become of the bytes put; storing bytes that fit and emptying
  the buffer keep \<open>ok\<close>, and emptying makes room.
\<close>

locale buffered_writer =
  fixes wr :: "nat \<Rightarrow> nat \<Rightarrow> int"
    and ok :: "FCGX_Stream \<Rightarrow> fcgx_conn \<Rightarrow> bool"
    and res :: "bytes \<Rightarrow> FCGX_Stream \<Rightarrow> fcgx_conn \<Rightarrow> FCGX_Stream \<Rightarrow> fcgx_conn \<Rightarrow> bool"
  assumes ok_open: "ok s w \<Longrightarrow> \<not> s_isClosed s \<and> \<not> s_isReader s \<and> s_wrNext s \<le> d_bufflen s \<and> s_stop s = d_bufflen s"
    and res_refl: "ok s w \<Longrightarrow> res [] s w s w"
    and res_trans: "res a s w s1 w1 \<Longrightarrow> res b s1 w1 s2 w2 \<Longrightarrow> res (a @ b) s w s2 w2"
    and store: "ok s w \<Longrightarrow> s_wrNext s + length str \<le> d_bufflen s \<Longrightarrow>
      \<exists>b. poke (s_wrNext s) str (d_buff s) = Some b \<and>
        ok (s\<lparr>d_buff := b, s_wrNext := s_wrNext s + length str\<rparr>) w \<and>
        res str s w (s\<lparr>d_buff := b, s_wrNext := s_wrNext s + length str\<rparr>) w"
    and flush: "ok s w \<Longrightarrow>
      \<exists>s' w'. EmptyBuffProc_open wr s w = Some (s', w') \<and> ok s' w' \<and> res [] s w s' w' \<and> s_wrNext s' < s_stop s'"
begin

lemma loop_puts:
  "ok s w \<Longrightarrow> str \<noteq> [] \<Longrightarrow> n = moved + length str \<Longrightarrow>
    \<exists>s' w'. put_loop wr str n moved s w = Some (int n, s', w') \<and> ok s' w' \<and> res str s w s' w'"
proof (induction "2 * length str + (if s_wrNext s = s_stop s then 1 else 0)" arbitrary: str moved s w
    rule: less_induct)
  case less
  note s = ok_open [OF less.prems(1)]
  let ?m = "if s_wrNext s = s_stop s then 0 else min (length str) (s_stop s - s_wrNext s)"
  have "\<exists>s1. put_some str (n - moved) s = Some (?m, s1) \<and> ok s1 w \<and> res (take ?m str) s w s1 w"
  proof (cases "s_wrNext s = s_stop s")
    case True
    with res_refl [OF less.prems(1)] less.prems(1) show ?thesis by (simp add: put_some_def)
  next
    case False
    then have "s_wrNext s + length (take ?m str) \<le> d_bufflen s" using s by auto
    from store [OF less.prems(1) this] False less.prems(3) show ?thesis
      by (auto simp: put_some_def Let_def min_def)
  qed
  then obtain s1 where s1: "put_some str (n - moved) s = Some (?m, s1)" "ok s1 w" "res (take ?m str) s w s1 w"
    by blast
  show ?case
  proof (cases "s_wrNext s \<noteq> s_stop s \<and> moved + ?m = n")
    case True
    then have "?m = length str" using less.prems(3) by linarith
    with True s1 show ?thesis by (subst put_loop.simps) simp
  next
    case False
    then have ml: "?m < length str" using less.prems(2,3) by (auto split: if_splits)
    obtain s2 w2 where s2: "EmptyBuffProc_open wr s1 w = Some (s2, w2)" "ok s2 w2" "res [] s1 w s2 w2"
      "s_wrNext s2 < s_stop s2" using flush [OF s1(2)] by blast
    have step: "put_loop wr str n moved s w = put_loop wr (drop ?m str) n (moved + ?m) s2 w2"
      using ok_open [OF s1(2)] s2(1)
      by (subst put_loop.simps) (simp only: s1(1) Option.bind.simps prod.case if_not_P [OF False], simp)
    have "0 < ?m" if "s_wrNext s \<noteq> s_stop s" using that s less.prems(2) by auto
    then have lt: "2 * length (drop ?m str) + (if s_wrNext s2 = s_stop s2 then 1 else 0)
        < 2 * length str + (if s_wrNext s = s_stop s then 1 else 0)"
      using ml s2(4) by (cases "s_wrNext s = s_stop s") auto
    have ne: "drop ?m str \<noteq> []" and nm: "n = (moved + ?m) + length (drop ?m str)"
      using ml less.prems(3) by simp_all
    obtain s' w' where r: "put_loop wr (drop ?m str) n (moved + ?m) s2 w2 = Some (int n, s', w')" "ok s' w'"
      "res (drop ?m str) s2 w2 s' w'"
      using less.hyps [OF lt s2(2) ne nm] by blast
    have "res ((take ?m str @ []) @ drop ?m str) s w s' w'"
      using res_trans [OF res_trans [OF s1(3) s2(3)] r(3)] .
    then have "res str s w s' w'" by (simp only: append_Nil2 append_take_drop_id)
    with r(1,2) show ?thesis using step by simp
  qed
qed

lemma puts:
  assumes "ok s w"
  shows "\<exists>s' w'. FCGX_PutStr wr str s w = Some (int (length str), s', w') \<and> ok s' w' \<and> res str s w s' w'"
proof (cases "int (length str) \<le> int (s_stop s) - int (s_wrNext s)")
  case True
  then have "s_wrNext s + length str \<le> d_bufflen s" using ok_open [OF assms] by auto
  from store [OF assms this] True show ?thesis by (auto simp: FCGX_PutStr_def Let_def)
next
  case False
  then have "str \<noteq> []" using ok_open [OF assms] by auto
  from loop_puts [OF assms this, of "length str" 0] False show ?thesis
    by (simp add: FCGX_PutStr_def Let_def)
qed

end

definition framed_ok :: "(nat \<Rightarrow> nat \<Rightarrow> int) \<Rightarrow> nat \<Rightarrow> nat \<Rightarrow> FCGX_Stream \<Rightarrow> fcgx_conn \<Rightarrow> bool" where
  "framed_ok wr t rid s w \<longleftrightarrow> writes_all wr \<and> writer_ok t s \<and> rq_requestId w = int rid \<and> rid < 65536"

lemma put_result_ok: "put_result t rid a s w s' w' \<Longrightarrow> framed_ok wr t rid s w \<Longrightarrow> framed_ok wr t rid s' w'"
  by (auto simp: put_result_def framed_ok_def)

interpretation framed: buffered_writer wr "framed_ok wr t rid" "put_result t rid" for wr t rid
proof (unfold_locales, goal_cases)
  case (1 s w)
  then show ?case by (simp add: framed_ok_def writer_ok_def)
next
  case (2 s w)
  then show ?case
    unfolding put_result_def framed_ok_def
    by (intro conjI exI [of _ "[]"] exI [of _ "w_writes w"]) simp_all
next
  case (3 a s w s1 w1 b s2 w2)
  then show ?case by (rule put_result_trans)
next
  case (4 s w str)
  then have "writer_ok t s" by (simp add: framed_ok_def)
  from put_bytes(1) [OF this 4(2)] put_bytes(2) [OF this 4(2), of rid w] put_result_ok [OF _ 4(1)]
  show ?case by auto
next
  case (5 s w)
  then obtain s' w' where "EmptyBuffProc_open wr s w = Some (s', w')" "put_result t rid [] s w s' w'" "s_wrNext s' = 8"
    using put_flush [of wr t s w rid] by (auto simp: framed_ok_def)
  moreover have "writer_ok t s'" using calculation(2) by (simp add: put_result_def)
  ultimately show ?case using put_result_ok [OF _ 5] by (auto simp: writer_ok_def)
qed

section \<open>Closing\<close>

text \<open>In raw mode the buffer holds what is written next, without a header of its own.\<close>

definition raw_ok :: "(nat \<Rightarrow> nat \<Rightarrow> int) \<Rightarrow> FCGX_Stream \<Rightarrow> fcgx_conn \<Rightarrow> bool" where
  "raw_ok wr s w \<longleftrightarrow> writes_all wr \<and> \<not> s_isReader s \<and> \<not> s_isClosed s \<and> s_errno s = 0 \<and> d_rawWrite s \<and>
     length (d_buff s) = d_bufflen s \<and> s_stop s = d_bufflen s \<and> 0 < d_bufflen s \<and> s_wrNext s \<le> d_bufflen s"

definition raw_result :: "bytes \<Rightarrow> FCGX_Stream \<Rightarrow> fcgx_conn \<Rightarrow> FCGX_Stream \<Rightarrow> fcgx_conn \<Rightarrow> bool" where
  "raw_result str s w s' w' \<longleftrightarrow>
     (\<exists>out k. w' = w\<lparr>w_written := w_written w @ out, w_writes := k\<rparr> \<and>
        take (s_wrNext s) (d_buff s) @ str = out @ take (s_wrNext s') (d_buff s'))"

lemma raw_result_trans:
  assumes "raw_result a s w s1 w1" "raw_result b s1 w1 s2 w2"
  shows "raw_result (a @ b) s w s2 w2"
proof -
  obtain out k where 1: "w1 = w\<lparr>w_written := w_written w @ out, w_writes := k\<rparr>"
    "take (s_wrNext s) (d_buff s) @ a = out @ take (s_wrNext s1) (d_buff s1)"
    using assms(1) unfolding raw_result_def by blast
  obtain out' l where 2: "w2 = w1\<lparr>w_written := w_written w1 @ out', w_writes := l\<rparr>"
    "take (s_wrNext s1) (d_buff s1) @ b = out' @ take (s_wrNext s2) (d_buff s2)"
    using assms(2) unfolding raw_result_def by blast
  have "(take (s_wrNext s) (d_buff s) @ a) @ b = out @ take (s_wrNext s1) (d_buff s1) @ b"
    by (simp only: 1(2) append.assoc)
  with 1(1) 2 show ?thesis
    unfolding raw_result_def by (intro exI [of _ "out @ out'"] exI [of _ l]) simp
qed

interpretation raw: buffered_writer wr "raw_ok wr" raw_result for wr
proof (unfold_locales, goal_cases)
  case (1 s w)
  then show ?case by (simp add: raw_ok_def)
next
  case (2 s w)
  show ?case unfolding raw_result_def by (intro exI [of _ "[]"] exI [of _ "w_writes w"]) simp
next
  case (3 a s w s1 w1 b s2 w2)
  then show ?case by (rule raw_result_trans)
next
  case (4 s w str)
  let ?b = "overwrite (s_wrNext s) str (d_buff s)"
  have len: "length (d_buff s) = d_bufflen s" using 4 by (simp add: raw_ok_def)
  have "take (s_wrNext s + length str) ?b = take (s_wrNext s) (d_buff s) @ str"
    using take_drop_overwrite [of 0 "s_wrNext s" str "d_buff s"] 4(2) len by simp
  then have "raw_result str s w (s\<lparr>d_buff := ?b, s_wrNext := s_wrNext s + length str\<rparr>) w"
    unfolding raw_result_def by (intro exI [of _ "[]"] exI [of _ "w_writes w"]) simp
  moreover have "raw_ok wr (s\<lparr>d_buff := ?b, s_wrNext := s_wrNext s + length str\<rparr>) w"
    using 4 len by (simp add: raw_ok_def)
  ultimately show ?case using 4(2) len by (simp add: poke_def)
next
  case (5 s w)
  obtain k where k: "write_it_all wr (take (s_wrNext s) (d_buff s)) w =
      Some (0, w\<lparr>w_written := w_written w @ take (s_wrNext s) (d_buff s), w_writes := k\<rparr>)"
    using write_it_all_ok [of wr] 5 by (auto simp: raw_ok_def)
  show ?case
  proof (cases "s_wrNext s = 0")
    case True
    moreover have "raw_result [] s w s w"
      unfolding raw_result_def by (intro exI [of _ "[]"] exI [of _ "w_writes w"]) simp
    ultimately show ?thesis
      using 5 by (auto simp: EmptyBuffProc_open_def empty_header_def empty_write_def raw_ok_def)
  next
    case False
    let ?s = "s\<lparr>d_isAnythingWritten := True, s_wrNext := 0\<rparr>"
    let ?w = "w\<lparr>w_written := w_written w @ take (s_wrNext s) (d_buff s), w_writes := k\<rparr>"
    have "EmptyBuffProc_open wr s w = Some (?s, ?w)"
      using False 5 k by (simp add: EmptyBuffProc_open_def empty_header_def empty_write_def raw_ok_def Let_def)
    moreover have "raw_result [] s w ?s ?w" unfolding raw_result_def by (intro exI) (rule conjI, rule refl, simp)
    moreover have "raw_ok wr ?s ?w" "s_wrNext ?s < s_stop ?s" using 5 by (simp_all add: raw_ok_def)
    ultimately show ?thesis by blast
  qed
qed

definition end_record :: "nat \<Rightarrow> int \<Rightarrow> bytes" where
  "end_record rid status = enc_record 3 rid (end_body_mem (MakeEndRequestBody status 0)) 0"

text \<open>The records that closing a stream of type \<open>t\<close> adds.\<close>

definition close_records :: "nat \<Rightarrow> nat \<Rightarrow> FCGX_Stream \<Rightarrow> fcgx_conn \<Rightarrow> bytes" where
  "close_records t rid s w =
     (if payload s = [] then [] else stream_record t rid (payload s)) @
     (if t = 7 \<and> payload s = [] \<and> \<not> d_isAnythingWritten s then [] else enc_record t rid [] 0) @
     (if rq_nWriters w = 1 then end_record rid (rq_appStatus w) else [])"

lemma empty_header_raw:
  assumes "framed_ok wr t rid s w"
  obtains s1 where "empty_header s w = Some s1" "raw_ok wr (s1\<lparr>d_rawWrite := True\<rparr>) w"
    "take (s_wrNext s1) (d_buff s1) = (if payload s = [] then [] else stream_record t rid (payload s))"
    "s_wrNext s1 = 0 \<longleftrightarrow> payload s = []" "d_type s1 = int t" "d_isAnythingWritten s1 = d_isAnythingWritten s"
    "\<not> s_wasFCloseCalled s1"
proof (cases "payload s = []")
  case True
  have s: "writer_ok t s" "writes_all wr" using assms by (simp_all add: framed_ok_def)
  then have "s_wrNext s = 8" using True length_payload [OF s(1)] by (simp add: writer_ok_def)
  with s True that [of "s\<lparr>s_wrNext := 0\<rparr>"] show ?thesis
    by (simp add: empty_header_def FCGI_HEADER_LEN_def writer_ok_def raw_ok_def)
next
  case False
  have s: "writer_ok t s" "writes_all wr" "rq_requestId w = int rid" "rid < 65536"
    using assms by (simp_all add: framed_ok_def)
  obtain b where b: "empty_header s w = Some (s\<lparr>d_buff := b, s_wrNext := s_wrNext s + pad_to_8 (length (payload s))\<rparr>)"
    "length b = d_bufflen s" "s_wrNext s + pad_to_8 (length (payload s)) \<le> d_bufflen s"
    "take (s_wrNext s + pad_to_8 (length (payload s))) b = stream_record t rid (payload s)"
    using empty_header_data [OF s(1,3,4) False] by blast
  from s b False that [OF b(1)] show ?thesis by (simp add: writer_ok_def raw_ok_def)
qed

lemma put_eof:
  assumes "raw_ok wr s w" "rq_requestId w = int rid" "rid < 65536" "t < 256"
  shows "\<exists>h s' w' n. MakeHeader (int t) (rq_requestId w) 0 0 = Some h \<and>
    FCGX_PutStr wr (header_mem h) s w = Some (n, s', w') \<and> raw_ok wr s' w' \<and>
    raw_result (enc_record t rid [] 0) s w s' w'"
proof -
  obtain h where "MakeHeader (int t) (int rid) 0 0 = Some h" "header_mem h = enc_record t rid [] 0"
    using MakeHeader_ok [of 0 0 t rid] assms(3,4) by auto
  with raw.puts [OF assms(1)] assms(2) show ?thesis by metis
qed

lemma put_end:
  assumes "raw_ok wr s w" "rq_requestId w = int rid" "rid < 65536"
  shows "\<exists>h s' w' n. MakeHeader FCGI_END_REQUEST (rq_requestId w) 8 0 = Some h \<and>
    FCGX_PutStr wr (header_mem h @ end_body_mem (MakeEndRequestBody (rq_appStatus w) FCGI_REQUEST_COMPLETE)) s w =
      Some (n, s', w') \<and> raw_ok wr s' w' \<and> raw_result (end_record rid (rq_appStatus w)) s w s' w'"
proof -
  let ?b = "end_body_mem (MakeEndRequestBody (rq_appStatus w) FCGI_REQUEST_COMPLETE)"
  have "length ?b = 8" by (simp add: end_body_mem_def)
  then obtain h where "MakeHeader (int 3) (int rid) (int 8) (int 0) = Some h"
    "header_mem h @ ?b = end_record rid (rq_appStatus w)"
    using MakeHeader_ok [of 8 0 3 rid] assms(3)
    by (auto simp: end_record_def FCGI_REQUEST_COMPLETE_def)
  with raw.puts [OF assms(1), of "end_record rid (rq_appStatus w)"] assms(2)
  show ?thesis by (auto simp: FCGI_END_REQUEST_def)
qed

lemma FClose_ok:
  assumes "framed_ok wr t rid s w"
  shows "\<exists>s' k. FCGX_FClose wr s w = Some (0, s', w\<lparr>w_written := w_written w @ close_records t rid s w,
      w_writes := k, rq_nWriters := rq_nWriters w - 1\<rparr>) \<and> s_isClosed s' \<and> s_wasFCloseCalled s'"
proof -
  obtain s1 where s1: "empty_header s w = Some s1" "raw_ok wr (s1\<lparr>d_rawWrite := True\<rparr>) w"
    "take (s_wrNext s1) (d_buff s1) = (if payload s = [] then [] else stream_record t rid (payload s))"
    "s_wrNext s1 = 0 \<longleftrightarrow> payload s = []" "d_type s1 = int t" "d_isAnythingWritten s1 = d_isAnythingWritten s"
    using empty_header_raw [OF assms] by metis
  have w: "rq_requestId w = int rid" "rid < 65536" "t < 256" "\<not> s_isReader s" "\<not> s_wasFCloseCalled s"
    using assms by (simp_all add: framed_ok_def writer_ok_def)
  let ?s1 = "s1\<lparr>d_rawWrite := True\<rparr>"
  let ?quiet = "t = 7 \<and> payload s = [] \<and> \<not> d_isAnythingWritten s"
  have quiet: "(d_type ?s1 = FCGI_STDERR \<and> s_wrNext ?s1 = 0 \<and> \<not> d_isAnythingWritten ?s1) = ?quiet"
    using s1(4-6) by (auto simp: FCGI_STDERR_def)
  obtain s2 w2 where s2: "(if \<not> ?quiet then do {
          header \<leftarrow> MakeHeader (d_type ?s1) (rq_requestId w) 0 0;
          (_, s, w') \<leftarrow> FCGX_PutStr wr (header_mem header) ?s1 w;
          Some (s, w')} else Some (?s1, w)) = Some (s2, w2)" "raw_ok wr s2 w2"
    "raw_result (if ?quiet then [] else enc_record t rid [] 0) ?s1 w s2 w2"
    using put_eof [OF s1(2) w(1-3)] raw.res_refl [OF s1(2)] s1(2,5) by (cases ?quiet) auto
  have w2: "rq_requestId w2 = int rid" "rq_appStatus w2 = rq_appStatus w" "rq_nWriters w2 = rq_nWriters w"
    using s2(3) w(1) by (auto simp: raw_result_def)
  obtain s3 w3 where s3: "(if rq_nWriters w2 = 1 then do {
          header \<leftarrow> MakeHeader FCGI_END_REQUEST (rq_requestId w2) 8 0;
          let body = MakeEndRequestBody (rq_appStatus w2) FCGI_REQUEST_COMPLETE;
          (_, s, w') \<leftarrow> FCGX_PutStr wr (header_mem header @ end_body_mem body) s2 w2;
          Some (s, w')} else Some (s2, w2)) = Some (s3, w3)" "raw_ok wr s3 w3"
    "raw_result (if rq_nWriters w = 1 then end_record rid (rq_appStatus w) else []) s2 w2 s3 w3"
    using put_end [OF s2(2) w2(1) w(2)] raw.res_refl [OF s2(2)] s2(2) w2 by (cases "rq_nWriters w = 1") auto
  from raw_result_trans [OF s2(3) s3(3)] obtain out k where out:
    "w3 = w\<lparr>w_written := w_written w @ out, w_writes := k\<rparr>"
    "close_records t rid s w = out @ take (s_wrNext s3) (d_buff s3)"
    using s1(3) by (auto simp: raw_result_def close_records_def)
  have close: "WriteCloseRecords wr s1 w = Some (s3, w3\<lparr>rq_nWriters := rq_nWriters w3 - 1\<rparr>)"
    by (simp only: WriteCloseRecords_def Let_def quiet s2(1) Option.bind.simps prod.case s3(1) [unfolded Let_def])
  let ?w3 = "w3\<lparr>rq_nWriters := rq_nWriters w3 - 1\<rparr>"
  have "raw_ok wr s3 ?w3" using s3(2) by (simp add: raw_ok_def)
  then obtain s4 w4 where s4: "EmptyBuffProc_open wr s3 ?w3 = Some (s4, w4)" "raw_ok wr s4 w4"
    "raw_result [] s3 ?w3 s4 w4" using raw.flush by blast
  have raw3: "empty_header s3 ?w3 = Some s3" using s3(2) by (simp add: raw_ok_def empty_header_def)
  then have ew: "empty_write wr s3 ?w3 = Some (s4, w4)" using s4(1) by (simp add: EmptyBuffProc_open_def)
  have "s_wrNext s4 = 0"
    using ew s3(2) s4(2) by (auto simp: empty_write_def raw_ok_def Let_def opt_iff SetError_def split: if_splits)
  then obtain l where l: "w4 = ?w3\<lparr>w_written := w_written ?w3 @ take (s_wrNext s3) (d_buff s3), w_writes := l\<rparr>"
    using s4(3) by (auto simp: raw_result_def)
  have "EmptyBuffProc wr True s w = Some (s4, w4)"
    using s1(1) close ew by (simp add: EmptyBuffProc_def)
  then have "FCGX_FClose wr s w = Some (0, s4\<lparr>s_wasFCloseCalled := True, s_isClosed := True,
      s_rdNext := s_wrNext s4, s_stop := s_wrNext s4\<rparr>, w4)"
    using w(4,5) s4(2) by (simp add: FCGX_FClose_def raw_ok_def Let_def)
  moreover have "w4 = w\<lparr>w_written := w_written w @ close_records t rid s w, w_writes := l,
      rq_nWriters := rq_nWriters w - 1\<rparr>"
    unfolding l out(1) by (simp add: out(2))
  ultimately show ?thesis by (intro exI conjI) (simp, simp_all)
qed

section \<open>New writers\<close>

lemma NewStream_len:
  "8 dvd d_bufflen (NewStream m g b r t)" "24 \<le> d_bufflen (NewStream m g b r t)"
  "d_bufflen (NewStream m g b r t) \<le> 65536"
proof -
  define n where "n = nat (min (max b 32) 65536)"
  have n: "32 \<le> n" "n \<le> 65536" "min (max b 32) (FCGX_MAX_LENGTH + 1) = int n"
    by (auto simp: n_def FCGX_MAX_LENGTH_def)
  let ?k = "(n + 7) div 8"
  have k: "4 \<le> ?k" "?k \<le> 8192" using n by linarith+
  let ?len = "nat (if AlignPtr8 m \<noteq> m then int (8 * ?k) - 8 else int (8 * ?k))"
  have "?len = 8 * (if AlignPtr8 m \<noteq> m then ?k - 1 else ?k)" using k by auto
  then have len: "8 dvd ?len" "24 \<le> ?len" "?len \<le> 65536" using k by auto
  have s: "d_bufflen (NewStream m g b r t) = ?len"
    unfolding NewStream_def n(3) AlignInt8_eq [OF n(2)] by (simp add: Let_def)
  show "8 dvd d_bufflen (NewStream m g b r t)" "24 \<le> d_bufflen (NewStream m g b r t)"
    "d_bufflen (NewStream m g b r t) \<le> 65536"
    unfolding s by (rule len)+
qed

lemma NewWriter_ok:
  assumes "t < 256"
  shows "writer_ok t (NewWriter m g b (int t))" "payload (NewWriter m g b (int t)) = []"
    "\<not> d_isAnythingWritten (NewWriter m g b (int t))"
proof -
  have f: "\<not> s_isReader (NewWriter m g b (int t)) \<and> \<not> s_isClosed (NewWriter m g b (int t)) \<and>
    \<not> s_wasFCloseCalled (NewWriter m g b (int t)) \<and> s_errno (NewWriter m g b (int t)) = 0 \<and>
    \<not> d_rawWrite (NewWriter m g b (int t)) \<and>
    length (d_buff (NewWriter m g b (int t))) = d_bufflen (NewWriter m g b (int t)) \<and>
    s_stop (NewWriter m g b (int t)) = d_bufflen (NewWriter m g b (int t)) \<and>
    s_wrNext (NewWriter m g b (int t)) = 8 \<and> d_type (NewWriter m g b (int t)) = int t \<and>
    \<not> d_isAnythingWritten (NewWriter m g b (int t))"
    by (auto simp: NewWriter_def NewStream_def Let_def FCGI_HEADER_LEN_def min_def)
  show "writer_ok t (NewWriter m g b (int t))"
    using f assms NewStream_len [of m g b False "int t"] unfolding writer_ok_def NewWriter_def by simp
  show "payload (NewWriter m g b (int t)) = []" "\<not> d_isAnythingWritten (NewWriter m g b (int t))"
    using f by (simp_all add: payload_def)
qed

text \<open>Writing several texts.\<close>

primrec put_all ::
  "(nat \<Rightarrow> nat \<Rightarrow> int) \<Rightarrow> bytes list \<Rightarrow> FCGX_Stream \<Rightarrow> fcgx_conn \<Rightarrow> (int list \<times> FCGX_Stream \<times> fcgx_conn) option" where
  "put_all wr [] s w = Some ([], s, w)"
| "put_all wr (x # xs) s w = do {
     (n, s1, w1) \<leftarrow> FCGX_PutStr wr x s w;
     (ns, s2, w2) \<leftarrow> put_all wr xs s1 w1;
     Some (n # ns, s2, w2)
   }"

lemma put_texts_ok:
  assumes "framed_ok wr t rid s w"
  shows "\<exists>s' w'. put_all wr strs s w = Some (map (\<lambda>x. int (length x)) strs, s', w') \<and>
    framed_ok wr t rid s' w' \<and> put_result t rid (concat strs) s w s' w'"
  using assms
proof (induction strs arbitrary: s w)
  case Nil
  with framed.res_refl show ?case by simp
next
  case (Cons x xs)
  obtain s1 w1 where 1: "FCGX_PutStr wr x s w = Some (int (length x), s1, w1)" "framed_ok wr t rid s1 w1"
    "put_result t rid x s w s1 w1" using framed.puts [OF Cons.prems] by blast
  obtain s2 w2 where 2: "put_all wr xs s1 w1 = Some (map (\<lambda>x. int (length x)) xs, s2, w2)"
    "framed_ok wr t rid s2 w2" "put_result t rid (concat xs) s1 w1 s2 w2" using Cons.IH [OF 1(2)] by blast
  from 1(1) 2(1,2) put_result_trans [OF 1(3) 2(3)] show ?case by simp
qed

lemma split_stream_records:
  assumes "list_all chunk_ok cs" "t < 256" "split_records xs = (fs, r)"
  shows "split_records (concat (map (stream_record t rid) cs) @ xs) = (map (Frame t) cs @ fs, r)"
  using assms(1)
proof (induction cs)
  case (Cons c cs)
  then have "split_records (stream_record t rid c @ concat (map (stream_record t rid) cs) @ xs) =
      (Frame t c # map (Frame t) cs @ fs, r)"
    using pad_to_8_less [of "length c"] assms(2) unfolding stream_record_def
    by (intro split_records_enc) (auto simp: chunk_ok_def)
  then show ?case by simp
qed (simp add: assms(3))

lemma length_stream_record: "8 dvd length (stream_record t rid c)"
  using pad_to_8_dvd [of "length c"] unfolding stream_record_def length_enc_record
  by (metis add.assoc dvd_add_triv_left_iff)

text \<open>The records of a stream of type \<open>t\<close> that carries \<open>txt\<close>, up to its end.\<close>

definition eof_frames :: "nat \<Rightarrow> bytes \<Rightarrow> frame list" where
  "eof_frames t txt = (if t = 7 \<and> txt = [] then [] else [Frame t []])"

definition end_frames :: "fcgx_conn \<Rightarrow> frame list" where
  "end_frames w = (if rq_nWriters w = 1
     then [Frame 3 (end_body_mem (MakeEndRequestBody (rq_appStatus w) 0))] else [])"

lemma close_output:
  assumes "list_all chunk_ok cs" "t < 256" "writer_ok t s" "d_isAnythingWritten s = (cs \<noteq> [])"
  shows "\<exists>ds. list_all chunk_ok ds \<and> concat ds = concat cs @ payload s \<and>
    split_records (concat (map (stream_record t rid) cs) @ close_records t rid s w) =
      (map (Frame t) ds @ eof_frames t (concat cs @ payload s) @ end_frames w, []) \<and>
    8 dvd length (concat (map (stream_record t rid) cs) @ close_records t rid s w)"
proof -
  let ?ds = "cs @ (if payload s = [] then [] else [payload s])"
  let ?eof = "if t = 7 \<and> concat cs @ payload s = [] then [] else enc_record t rid [] 0"
  let ?fin = "if rq_nWriters w = 1 then end_record rid (rq_appStatus w) else []"
  have ds: "list_all chunk_ok ?ds" "concat ?ds = concat cs @ payload s"
    using assms(1) payload_chunk [OF assms(3)] by simp_all
  have ne: "concat cs = [] \<longleftrightarrow> cs = []" using assms(1) by (cases cs) (auto simp: chunk_ok_def)
  have all: "concat (map (stream_record t rid) cs) @ close_records t rid s w =
      concat (map (stream_record t rid) ?ds) @ ?eof @ ?fin"
    using assms(4) ne by (auto simp: close_records_def)
  have nil: "split_records [] = ([], [])" by (simp add: split_records.simps take_record_def)
  have "split_records ?fin = (end_frames w, [])"
    using split_records_enc [of 3 "end_body_mem (MakeEndRequestBody (rq_appStatus w) 0)" 0 "[]" "[]" "[]" rid]
    by (simp add: end_frames_def end_record_def nil end_body_mem_def)
  then have "split_records (?eof @ ?fin) = (eof_frames t (concat cs @ payload s) @ end_frames w, [])"
    using split_records_enc [of t "[]" 0 ?fin "end_frames w" "[]" rid] assms(2) unfolding eof_frames_def
    by (cases "t = 7 \<and> concat cs @ payload s = []")
      (simp_all only: if_True if_False append_Nil append_Cons list.size, simp_all)
  from split_stream_records [OF ds(1) assms(2) this] have
    "split_records (concat (map (stream_record t rid) cs) @ close_records t rid s w) =
      (map (Frame t) ?ds @ eof_frames t (concat cs @ payload s) @ end_frames w, [])"
    unfolding all .
  moreover have "8 dvd length (concat (map (stream_record t rid) ds))" for ds
    by (induction ds) (simp_all add: length_stream_record)
  then have "8 dvd length (concat (map (stream_record t rid) cs) @ close_records t rid s w)"
    unfolding all length_append
    by (intro dvd_add) (simp_all add: end_record_def length_enc_record end_body_mem_def)
  ultimately show ?thesis using ds by blast
qed

section \<open>Properties\<close>

text \<open>
  C9: Texts written to a new stream of the FastCGI library, of any buffer size and wherever its
  buffer lies, and the close of the stream: every \<^verbatim>\<open>FCGX_PutStr\<close> returns the number of its
  bytes and \<^verbatim>\<open>FCGX_FClose\<close> returns zero; the bytes on the connection are well-formed records
  of the stream, none empty and none too long, whose contents are exactly the texts in order,
  then the record that ends the stream (unless it is an error stream without text), then, for
  the last open writer, the record that ends the request. Their length is a multiple of eight.
\<close>

theorem fcgx_output_roundtrip:
  assumes "writes_all wr" "t < 256" "rid < 65536" "rq_requestId w = int rid"
  shows "\<exists>s1 w1 s2 w2 out cs.
    put_all wr strs (NewWriter m g b (int t)) w = Some (map (\<lambda>x. int (length x)) strs, s1, w1) \<and>
    FCGX_FClose wr s1 w1 = Some (0, s2, w2) \<and> w_written w2 = w_written w @ out \<and>
    split_records out = (map (Frame t) cs @ eof_frames t (concat strs) @ end_frames w, []) \<and>
    concat cs = concat strs \<and> list_all chunk_ok cs \<and> 8 dvd length out \<and>
    rq_nWriters w2 = rq_nWriters w - 1 \<and> s_isClosed s2"
proof -
  let ?s = "NewWriter m g b (int t)"
  note new = NewWriter_ok [OF assms(2), of m g b]
  have "framed_ok wr t rid ?s w" using assms new(1) by (simp add: framed_ok_def)
  from put_texts_ok [OF this, of strs] obtain s1 w1 where 1:
    "put_all wr strs ?s w = Some (map (\<lambda>x. int (length x)) strs, s1, w1)" "framed_ok wr t rid s1 w1"
    "put_result t rid (concat strs) ?s w s1 w1" by blast
  from 1(3) new(2,3) obtain cs k where cs: "list_all chunk_ok cs" "concat strs = concat cs @ payload s1"
    "w1 = w\<lparr>w_written := w_written w @ concat (map (stream_record t rid) cs), w_writes := k\<rparr>"
    "d_isAnythingWritten s1 = (cs \<noteq> [])" unfolding put_result_def by auto
  obtain s2 l where 2: "FCGX_FClose wr s1 w1 = Some (0, s2, w1\<lparr>w_written := w_written w1 @ close_records t rid s1 w1,
      w_writes := l, rq_nWriters := rq_nWriters w1 - 1\<rparr>)" "s_isClosed s2"
    using FClose_ok [OF 1(2)] by blast
  have "writer_ok t s1" using 1(2) by (simp add: framed_ok_def)
  from close_output [OF cs(1) assms(2) this cs(4), of rid w1]
  obtain ds where ds: "list_all chunk_ok ds" "concat ds = concat strs"
    "split_records (concat (map (stream_record t rid) cs) @ close_records t rid s1 w1) =
      (map (Frame t) ds @ eof_frames t (concat strs) @ end_frames w1, [])"
    "8 dvd length (concat (map (stream_record t rid) cs) @ close_records t rid s1 w1)"
    unfolding cs(2) by blast
  have "end_frames w1 = end_frames w" "rq_nWriters w1 = rq_nWriters w" by (simp_all add: cs(3) end_frames_def)
  moreover let ?out = "concat (map (stream_record t rid) cs) @ close_records t rid s1 w1"
  let ?w2 = "w1\<lparr>w_written := w_written w1 @ close_records t rid s1 w1, w_writes := l,
    rq_nWriters := rq_nWriters w1 - 1\<rparr>"
  have "w_written ?w2 = w_written w @ ?out" by (simp add: cs(3))
  moreover have "rq_nWriters ?w2 = rq_nWriters w1 - 1" by simp
  ultimately show ?thesis
    using 1(1) 2 ds by (intro exI [of _ s1] exI [of _ w1] exI [of _ s2] exI [of _ ?w2] exI [of _ ?out]
        exI [of _ ds]) (simp only:)
qed

text \<open>A connection without a request, for examples.\<close>

definition idle_conn :: fcgx_conn where
  "idle_conn = \<lparr>rq_requestId = 1, rq_role = 1, rq_in = None, rq_out = None, rq_err = None, rq_envp = None, rq_paramsPtr = None,
     rq_ipcFd = 3, rq_isBeginProcessed = True, rq_keepConnection = 0, rq_appStatus = 0, rq_nWriters = 1,
     rq_flags = 0, rq_listen_sock = 0, w_unread = [], w_reads = 0, w_written = [], w_writes = 0,
     w_accepts = 0, w_mallocs = 0, w_closed = []\<rparr>"

theorem fcgx_output_roundtrip_witness:
  "\<exists>s1 w1 s2 w2 out cs.
    put_all (\<lambda>i n. 1) [''ab'', ''c''] (NewWriter 0x10 [] 8192 (int 6)) idle_conn = Some ([2, 1], s1, w1) \<and>
    FCGX_FClose (\<lambda>i n. 1) s1 w1 = Some (0, s2, w2) \<and> w_written w2 = out \<and>
    split_records out = (map (Frame 6) cs @ [Frame 6 [], Frame 3 (end_body_mem (MakeEndRequestBody 0 0))], []) \<and>
    concat cs = ''abc'' \<and> list_all chunk_ok cs \<and> 8 dvd length out \<and> rq_nWriters w2 = 0 \<and> s_isClosed s2"
  using fcgx_output_roundtrip [of "\<lambda>i n. 1" 6 1 idle_conn "[''ab'', ''c'']" "0x10" "[]" 8192]
  by (simp add: writes_all_def idle_conn_def eof_frames_def end_frames_def)

lemma PutChar_ok:
  assumes "framed_ok wr t rid s w"
  shows "\<exists>s' w'. FCGX_PutChar wr c s w = Some (uint (word_of_int c :: u8), s', w') \<and> framed_ok wr t rid s' w' \<and>
    put_result t rid [char_of (unat (word_of_int c :: u8))] s w s' w'"
proof -
  let ?c = "char_of (unat (word_of_int c :: u8))"
  have byte: "\<exists>s'. put_byte c s = Some (uint (word_of_int c :: u8), s') \<and> framed_ok wr t rid s' w \<and>
      put_result t rid [?c] s w s' w" if "framed_ok wr t rid s w" "s_wrNext s < s_stop s" for s w
  proof -
    have "s_wrNext s + length [?c] \<le> d_bufflen s" using framed.ok_open [OF that(1)] that(2) by simp
    from framed.store [OF that(1) this] show ?thesis by (auto simp: put_byte_def Let_def)
  qed
  show ?thesis
  proof (cases "s_wrNext s = s_stop s")
    case False
    then have "s_wrNext s < s_stop s" using framed.ok_open [OF assms] by simp
    from byte [OF assms this] False show ?thesis by (auto simp: FCGX_PutChar_def)
  next
    case True
    obtain s1 w1 where 1: "EmptyBuffProc_open wr s w = Some (s1, w1)" "framed_ok wr t rid s1 w1"
      "put_result t rid [] s w s1 w1" "s_wrNext s1 < s_stop s1" using framed.flush [OF assms] by blast
    obtain s2 where 2: "put_byte c s1 = Some (uint (word_of_int c :: u8), s2)" "framed_ok wr t rid s2 w1"
      "put_result t rid [?c] s1 w1 s2 w1" using byte [OF 1(2,4)] by blast
    have "put_result t rid [?c] s w s2 w1" using put_result_trans [OF 1(3) 2(3)] by simp
    moreover have "FCGX_PutChar wr c s w = Some (uint (word_of_int c :: u8), s2, w1)"
      using True framed.ok_open [OF assms] 1(1,4) 2(1) by (simp add: FCGX_PutChar_def)
    ultimately show ?thesis using 2(2) by blast
  qed
qed

lemma FFlush_ok:
  assumes "framed_ok wr t rid s w"
  shows "\<exists>s' w'. FCGX_FFlush wr s w = Some (0, s', w') \<and> framed_ok wr t rid s' w' \<and>
    put_result t rid [] s w s' w' \<and> payload s' = []"
proof -
  have eq: "EmptyBuffProc wr False s w = EmptyBuffProc_open wr s w"
    by (auto simp: EmptyBuffProc_def EmptyBuffProc_open_def split: Option.bind_splits)
  obtain s' w' where 1: "EmptyBuffProc_open wr s w = Some (s', w')" "put_result t rid [] s w s' w'" "s_wrNext s' = 8"
    using put_flush [of wr t s w rid] assms by (auto simp: framed_ok_def)
  have "framed_ok wr t rid s' w'" using put_result_ok [OF 1(2) assms] .
  moreover have "FCGX_FFlush wr s w = Some (0, s', w')"
    using framed.ok_open [OF assms] framed.ok_open [OF calculation] 1(1) by (simp add: FCGX_FFlush_def eq)
  ultimately show ?thesis using 1(2,3) by (auto simp: payload_def)
qed



text \<open>
  C33: A write that fails while a stream is flushed is reported: the call returns \<open>-1\<close>, nothing
  has been added to what was written, the stream is closed and holds the error number, which
  later errors do not replace, and a later flush writes nothing.
\<close>

theorem fcgx_write_error_reported:
  assumes "writer_ok t s" "rq_requestId w = int rid" "rid < 65536" "payload s \<noteq> []"
    and "wr (w_writes w) (length (stream_record t rid (payload s))) = - e" "0 < e"
  shows "\<exists>s' w'. FCGX_FFlush wr s w = Some (- 1, s', w') \<and> w_written w' = w_written w \<and>
    s_isClosed s' \<and> FCGX_GetError s' = e \<and> FCGX_GetError (SetError s' e') = e \<and>
    FCGX_FFlush wr s' w' = Some (0, s', w')"
proof -
  obtain b where b: "empty_header s w = Some (s\<lparr>d_buff := b, s_wrNext := s_wrNext s + pad_to_8 (length (payload s))\<rparr>)"
    "take (s_wrNext s + pad_to_8 (length (payload s))) b = stream_record t rid (payload s)"
    using empty_header_data [OF assms(1-4)] by blast
  have ne: "stream_record t rid (payload s) \<noteq> []" by (simp add: stream_record_def enc_record_def)
  have w: "write_it_all wr (stream_record t rid (payload s)) w = Some (- e, w\<lparr>w_writes := Suc (w_writes w)\<rparr>)"
    using ne assms(5,6) by (subst write_it_all.simps) (simp add: Let_def)
  have s: "\<not> s_isReader s" "\<not> s_isClosed s" "s_errno s = 0" "8 \<le> s_wrNext s"
    using assms(1) by (simp_all add: writer_ok_def)
  show ?thesis
    using b w s assms(6)
    by (simp add: FCGX_FFlush_def EmptyBuffProc_def empty_write_def SetError_def FCGX_GetError_def Let_def)
qed

theorem fcgx_write_error_reported_witness:
  "\<exists>s w s' w'. FCGX_PutStr (\<lambda>i n. - 32) ''abc'' (NewWriter 0x10 [] 8192 (int 6)) idle_conn = Some (3, s, w) \<and>
    FCGX_FFlush (\<lambda>i n. - 32) s w = Some (- 1, s', w') \<and> w_written w' = w_written w \<and>
    s_isClosed s' \<and> FCGX_GetError s' = 32"
proof -
  let ?s = "NewWriter 0x10 [] 8192 (int 6)"
  have ok: "writer_ok 6 ?s" "payload ?s = []" using NewWriter_ok [of 6 "0x10" "[]" 8192] by simp_all
  have wr: "s_wrNext ?s = 8" "s_stop ?s = d_bufflen ?s"
    by (simp_all add: NewWriter_def NewStream_def FCGI_HEADER_LEN_def Let_def)
  have fit: "s_wrNext ?s + length ''abc'' \<le> d_bufflen ?s" using ok(1) wr(1) by (simp add: writer_ok_def)
  let ?t = "?s\<lparr>d_buff := overwrite (s_wrNext ?s) ''abc'' (d_buff ?s), s_wrNext := s_wrNext ?s + length ''abc''\<rparr>"
  have put: "FCGX_PutStr (\<lambda>i n. - 32) ''abc'' ?s idle_conn = Some (3, ?t, idle_conn)"
    using fit put_bytes(1) [OF ok(1) fit] wr(2) by (simp add: FCGX_PutStr_def Let_def)
  have t: "writer_ok 6 ?t" "payload ?t = ''abc''"
    using put_bytes(2) [OF ok(1) fit, of 1 idle_conn] put_bytes(3) [OF ok(1) fit] ok(2)
    by (simp_all add: put_result_def)
  from fcgx_write_error_reported [OF t(1), of idle_conn 1 "\<lambda>i n. - 32" 32 0] put t(2) show ?thesis
    by (auto simp: idle_conn_def)
qed
end
