(* ===== verification/Fcgiapp_Reader.thy ===== *)
theory Fcgiapp_Reader
  imports Fcgiapp_Stream
begin

unbundle bit_operations_syntax

text \<open>
  The reading side of the FastCGI library, \<^verbatim>\<open>src/fastcgi/fastcgi_lib/fcgiapp.cpp\<close>: the
  functions that take bytes from a stream, the parameters, the interpretation of record headers
  and \<^verbatim>\<open>FillBuffProc\<close>, which supplies a stream with the content of its records.

  The functions that read take the stream's \<^verbatim>\<open>fillBuffProc\<close> as an argument. While a header is
  processed \<^verbatim>\<open>eorStop\<close> is set and \<^verbatim>\<open>FillBuffProc\<close> returns before it comes to a header, so the
  call it makes of itself through \<^verbatim>\<open>ProcessHeader\<close> is to the loop without headers.
\<close>

section \<open>Taking bytes\<close>

type_synonym filler = "FCGX_Stream \<Rightarrow> fcgx_conn \<Rightarrow> (FCGX_Stream \<times> fcgx_conn) option"

definition EOF :: int where "EOF = - 1"

definition next_byte :: "FCGX_Stream \<Rightarrow> fcgx_conn \<Rightarrow> (int \<times> FCGX_Stream \<times> fcgx_conn) option" where
  "next_byte stream w = do {
     b \<leftarrow> mem_at (d_buff stream) (s_rdNext stream);
     Some (int (ord b), stream\<lparr>s_rdNext := s_rdNext stream + 1\<rparr>, w)
   }"

definition FCGX_GetChar :: "filler \<Rightarrow> FCGX_Stream \<Rightarrow> fcgx_conn \<Rightarrow> (int \<times> FCGX_Stream \<times> fcgx_conn) option" where
  "FCGX_GetChar fill stream w =
     (if s_isClosed stream \<or> \<not> s_isReader stream then Some (EOF, stream, w)
      else if s_rdNext stream \<noteq> s_stop stream then next_byte stream w
      else do {
        (s1, w1) \<leftarrow> fill stream w;
        if s_isClosed s1 then Some (EOF, s1, w1)
        else do {
          let s2 = s1\<lparr>s_stopUnget := s_rdNext s1\<rparr>;
          if s_rdNext s2 \<noteq> s_stop s2 then next_byte s2 w1
          else do { assert_opt (s_isClosed s2); Some (EOF, s2, w1) }
        }
      })"

text \<open>The bytes between \<^verbatim>\<open>rdNext\<close> and \<open>n\<close> further on, within the buffer.\<close>

definition peek_bytes :: "nat \<Rightarrow> FCGX_Stream \<Rightarrow> bytes option" where
  "peek_bytes n stream =
     (if s_rdNext stream + n \<le> length (d_buff stream)
      then Some (take n (drop (s_rdNext stream) (d_buff stream))) else None)"

partial_function (option) get_loop ::
  "filler \<Rightarrow> nat \<Rightarrow> bytes \<Rightarrow> FCGX_Stream \<Rightarrow> fcgx_conn \<Rightarrow> (int \<times> bytes \<times> FCGX_Stream \<times> fcgx_conn) option" where
  "get_loop fill n str stream w =
     Option.bind
       (if s_rdNext stream \<noteq> s_stop stream then
          (let m = min (n - length str) (s_stop stream - s_rdNext stream) in
           Option.bind (peek_bytes m stream) (\<lambda>bs.
             Some (str @ bs, stream\<lparr>s_rdNext := s_rdNext stream + m\<rparr>)))
        else Some (str, stream))
       (\<lambda>(str1, s1).
          if s_rdNext stream \<noteq> s_stop stream \<and> length str1 = n then Some (int n, str1, s1, w)
          else if s_isClosed s1 \<or> \<not> s_isReader s1 then Some (int (length str1), str1, s1, w)
          else Option.bind (fill s1 w) (\<lambda>(s2, w2).
            if s_isClosed s2 then Some (int (length str1), str1, s2, w2)
            else get_loop fill n str1 (s2\<lparr>s_stopUnget := s_rdNext s2\<rparr>) w2))"

text \<open>The number of bytes read and the bytes.\<close>

definition FCGX_GetStr ::
  "filler \<Rightarrow> int \<Rightarrow> FCGX_Stream \<Rightarrow> fcgx_conn \<Rightarrow> (int \<times> bytes \<times> FCGX_Stream \<times> fcgx_conn) option" where
  "FCGX_GetStr fill n stream w =
     (if s_isClosed stream \<or> \<not> s_isReader stream \<or> n \<le> 0 then Some (0, [], stream, w)
      else if n \<le> int (s_stop stream) - int (s_rdNext stream) then do {
        bs \<leftarrow> peek_bytes (nat n) stream;
        Some (n, bs, stream\<lparr>s_rdNext := s_rdNext stream + nat n\<rparr>, w)
      }
      else get_loop fill (nat n) [] stream w)"

text \<open>A line of at most \<open>n\<close> bytes; the text, or nothing at the end of the stream.\<close>

fun get_line ::
  "filler \<Rightarrow> nat \<Rightarrow> bytes \<Rightarrow> FCGX_Stream \<Rightarrow> fcgx_conn \<Rightarrow> (bytes option \<times> FCGX_Stream \<times> fcgx_conn) option" where
  "get_line fill 0 p stream w = Some (Some p, stream, w)"
| "get_line fill (Suc n) p stream w = do {
     (c, s1, w1) \<leftarrow> FCGX_GetChar fill stream w;
     if c = EOF then Some (if p = [] then None else Some p, s1, w1)
     else if c = 10 then Some (Some (p @ [char_of (nat c)]), s1, w1)
     else get_line fill n (p @ [char_of (nat c)]) s1 w1
   }"

definition FCGX_GetLine ::
  "filler \<Rightarrow> int \<Rightarrow> FCGX_Stream \<Rightarrow> fcgx_conn \<Rightarrow> (bytes option \<times> FCGX_Stream \<times> fcgx_conn) option" where
  "FCGX_GetLine fill n stream w = get_line fill (nat (n - 1)) [] stream w"

definition FCGX_UnGetChar :: "int \<Rightarrow> FCGX_Stream \<Rightarrow> (int \<times> FCGX_Stream) option" where
  "FCGX_UnGetChar c stream =
     (if c = EOF \<or> s_isClosed stream \<or> \<not> s_isReader stream \<or> s_rdNext stream = s_stopUnget stream
      then Some (EOF, stream)
      else do {
        assert_opt (0 < s_rdNext stream);
        b \<leftarrow> poke (s_rdNext stream - 1) [char_of (unat (word_of_int c :: u8))] (d_buff stream);
        Some (c, stream\<lparr>s_rdNext := s_rdNext stream - 1, d_buff := b\<rparr>)
      })"

section \<open>Parameters\<close>

definition NewParams :: "nat \<Rightarrow> Params" where
  "NewParams len = \<lparr>pp_vec = [], pp_length = len\<rparr>"

definition PutParam :: "Params \<Rightarrow> bytes \<Rightarrow> Params" where
  "PutParam p nameValue =
     (let vec = pp_vec p @ [nameValue]; size = length vec in
      \<lparr>pp_vec = vec, pp_length = (if pp_length p \<le> size then pp_length p * 2 else pp_length p)\<rparr>)"

definition c_string :: "bytes \<Rightarrow> bytes" where
  "c_string bs = takeWhile (\<lambda>c. c \<noteq> NUL) bs"

text \<open>Each entry of the environment is a C string; \<open>None\<close> stands for \<^verbatim>\<open>NULL\<close>.\<close>

fun find_param :: "bytes \<Rightarrow> bytes list \<Rightarrow> bytes option" where
  "find_param name [] = None"
| "find_param name (p # ps) =
     (if take (length name) (c_string p) = name \<and> length name < length (c_string p) \<and>
         c_string p ! length name = CHR ''=''
      then Some (drop (length name + 1) (c_string p))
      else find_param name ps)"

definition FCGX_GetParam :: "bytes option \<Rightarrow> bytes list option \<Rightarrow> bytes option" where
  "FCGX_GetParam name envp =
     (case (name, envp) of (Some n, Some ps) \<Rightarrow> find_param (c_string n) ps | _ \<Rightarrow> None)"

text \<open>A length of one or four bytes whose first byte is \<open>b\<close>.\<close>

definition read_length ::
  "filler \<Rightarrow> int \<Rightarrow> FCGX_Stream \<Rightarrow> fcgx_conn \<Rightarrow> (int option \<times> FCGX_Stream \<times> fcgx_conn) option" where
  "read_length fill b stream w =
     (if b AND 0x80 \<noteq> 0 then do {
        (n, lenBuff, s1, w1) \<leftarrow> FCGX_GetStr fill 3 stream w;
        if n \<noteq> 3 then Some (None, SetError s1 FCGX_PARAMS_ERROR, w1)
        else Some (Some (push_bit 24 (b AND 0x7f) + push_bit 16 (int (ord (lenBuff ! 0)))
                         + push_bit 8 (int (ord (lenBuff ! 1))) + int (ord (lenBuff ! 2))), s1, w1)
      }
      else Some (Some b, stream, w))"

text \<open>
  \<^verbatim>\<open>Malloc(nameLen + valueLen + 2)\<close>: the sum is an \<^verbatim>\<open>int\<close>, and one that does not fit overflows.
\<close>

definition malloc_ok :: "int \<Rightarrow> bool" where
  "malloc_ok n \<longleftrightarrow> n < 2 ^ 31"

text \<open>One round of \<^verbatim>\<open>ReadParams\<close> after the first byte: the new entry, or an error.\<close>

definition read_pair ::
  "filler \<Rightarrow> int \<Rightarrow> FCGX_Stream \<Rightarrow> fcgx_conn \<Rightarrow> (bytes option \<times> FCGX_Stream \<times> fcgx_conn) option" where
  "read_pair fill c stream w = do {
     (nl, s1, w1) \<leftarrow> read_length fill c stream w;
     case nl of
       None \<Rightarrow> Some (None, s1, w1)
     | Some nameLen \<Rightarrow> do {
         (v, s2, w2) \<leftarrow> FCGX_GetChar fill s1 w1;
         if v = EOF then Some (None, SetError s2 FCGX_PARAMS_ERROR, w2)
         else do {
           (vl, s3, w3) \<leftarrow> read_length fill v s2 w2;
           case vl of
             None \<Rightarrow> Some (None, s3, w3)
           | Some valueLen \<Rightarrow> do {
               assert_opt (malloc_ok (nameLen + valueLen + 2));
               (n, name, s4, w4) \<leftarrow> FCGX_GetStr fill nameLen s3 w3;
               if n \<noteq> nameLen then Some (None, SetError s4 FCGX_PARAMS_ERROR, w4)
               else do {
                 (m, val, s5, w5) \<leftarrow> FCGX_GetStr fill valueLen s4 w4;
                 if m \<noteq> valueLen then Some (None, SetError s5 FCGX_PARAMS_ERROR, w5)
                 else Some (Some (name @ ''='' @ val), s5, w5)
               }
             }
         }
       }
   }"

partial_function (option) ReadParams ::
  "filler \<Rightarrow> Params \<Rightarrow> FCGX_Stream \<Rightarrow> fcgx_conn \<Rightarrow> (int \<times> Params \<times> FCGX_Stream \<times> fcgx_conn) option" where
  "ReadParams fill p stream w =
     Option.bind (FCGX_GetChar fill stream w) (\<lambda>(c, s1, w1).
       if c = EOF then Some (0, p, s1, w1)
       else Option.bind (read_pair fill c s1 w1) (\<lambda>(entry, s2, w2).
         case entry of
           None \<Rightarrow> Some (- 1, p, s2, w2)
         | Some nameValue \<Rightarrow> ReadParams fill (PutParam p nameValue) s2 w2))"

section \<open>Filling the buffer\<close>

text \<open>\<^verbatim>\<open>OS_Read\<close> of at most \<open>n\<close> bytes: a failure, or some of the bytes to be read.\<close>

definition OS_Read :: "(nat \<Rightarrow> nat \<Rightarrow> int) \<Rightarrow> nat \<Rightarrow> fcgx_conn \<Rightarrow> int \<times> bytes \<times> fcgx_conn" where
  "OS_Read rd n w =
     (let r = rd (w_reads w) n; w1 = w\<lparr>w_reads := Suc (w_reads w)\<rparr> in
      if r < 0 then (r, [], w1)
      else (let bs = take (nat r) (w_unread w) in
            (int (length bs), bs, w1\<lparr>w_unread := drop (nat r) (w_unread w)\<rparr>)))"

text \<open>The first part of a round: an empty buffer is filled. The flag says whether to go on.\<close>

definition fill_input ::
  "(nat \<Rightarrow> nat \<Rightarrow> int) \<Rightarrow> FCGX_Stream \<Rightarrow> fcgx_conn \<Rightarrow> (bool \<times> FCGX_Stream \<times> fcgx_conn) option" where
  "fill_input rd stream w =
     (if s_rdNext stream = d_buffStop stream then
        (case OS_Read rd (d_bufflen stream) w of (count, bs, w1) \<Rightarrow>
           if count \<le> 0
           then Some (False, SetError stream (if count = 0 then FCGX_PROTOCOL_ERROR else - count), w1)
           else do {
             b \<leftarrow> poke 0 bs (d_buff stream);
             Some (True, stream\<lparr>d_buff := b, s_rdNext := 0, d_buffStop := nat count\<rparr>, w1)
           })
      else Some (True, stream, w))"

datatype fill_next = FillReturn | FillAgain | FillHeader

text \<open>The second part: content is delivered or skipped.\<close>

definition fill_padding :: "FCGX_Stream \<Rightarrow> fill_next \<times> FCGX_Stream" where
  "fill_padding stream =
     (let count = min (d_paddingLen stream) (d_buffStop stream - s_rdNext stream);
          s1 = (if 0 < d_paddingLen stream
                then stream\<lparr>d_paddingLen := d_paddingLen stream - count, s_rdNext := s_rdNext stream + count\<rparr>
                else stream)
      in if 0 < d_paddingLen stream \<and> 0 < d_paddingLen s1 then (FillAgain, s1)
         else if d_eorStop s1 then (FillReturn, s1\<lparr>s_stop := s_rdNext s1, s_isClosed := True\<rparr>)
         else (FillHeader, s1))"

definition fill_content :: "FCGX_Stream \<Rightarrow> fill_next \<times> FCGX_Stream" where
  "fill_content stream =
     (if 0 < d_contentLen stream then
        (let count = min (d_contentLen stream) (d_buffStop stream - s_rdNext stream);
             s1 = stream\<lparr>d_contentLen := d_contentLen stream - count\<rparr>
         in if \<not> d_skip s1
            then (FillReturn, s1\<lparr>s_wrNext := s_rdNext s1 + count, s_stop := s_rdNext s1 + count\<rparr>)
            else (let s2 = s1\<lparr>s_rdNext := s_rdNext s1 + count\<rparr> in
                  if 0 < d_contentLen s2 then (FillAgain, s2)
                  else fill_padding (s2\<lparr>d_skip := False\<rparr>)))
      else fill_padding stream)"

definition header_of :: "bytes \<Rightarrow> FCGI_Header" where
  "header_of bs =
     \<lparr>version = of_char (bs ! 0), hd_type = of_char (bs ! 1), requestIdB1 = of_char (bs ! 2),
      requestIdB0 = of_char (bs ! 3), contentLengthB1 = of_char (bs ! 4), contentLengthB0 = of_char (bs ! 5),
      paddingLength = of_char (bs ! 6), reserved = of_char (bs ! 7)\<rparr>"

definition STREAM_RECORD :: int where "STREAM_RECORD = 0"
definition SKIP :: int where "SKIP = 1"
definition BEGIN_RECORD :: int where "BEGIN_RECORD = 2"
definition MGMT_RECORD :: int where "MGMT_RECORD = 3"

lemmas fill_status = STREAM_RECORD_def SKIP_def BEGIN_RECORD_def MGMT_RECORD_def

type_synonym header_processor =
  "FCGI_Header \<Rightarrow> FCGX_Stream \<Rightarrow> fcgx_conn \<Rightarrow> (int \<times> FCGX_Stream \<times> fcgx_conn) option"

text \<open>The loop of \<^verbatim>\<open>FillBuffProc\<close>, with the bytes of the header that have been read so far.\<close>

partial_function (option) fill_loop ::
  "(nat \<Rightarrow> nat \<Rightarrow> int) \<Rightarrow> header_processor \<Rightarrow> bytes \<Rightarrow> FCGX_Stream \<Rightarrow> fcgx_conn
   \<Rightarrow> (FCGX_Stream \<times> fcgx_conn) option" where
  "fill_loop rd process header stream w =
     Option.bind (fill_input rd stream w) (\<lambda>(go, s1, w1).
       if \<not> go then Some (s1, w1)
       else case fill_content s1 of
           (FillReturn, s2) \<Rightarrow> Some (s2, w1)
         | (FillAgain, s2) \<Rightarrow> fill_loop rd process header s2 w1
         | (FillHeader, s2) \<Rightarrow>
             Option.bind (peek_bytes (min (FCGI_HEADER_LEN - length header) (d_buffStop s2 - s_rdNext s2)) s2) (\<lambda>bs.
               let s3 = s2\<lparr>s_rdNext := s_rdNext s2 + length bs\<rparr>; header1 = header @ bs in
               if length header1 < FCGI_HEADER_LEN then fill_loop rd process header1 s3 w1
               else Option.bind (process (header_of header1) (s3\<lparr>d_eorStop := True, s_stop := s_rdNext s3\<rparr>) w1)
                 (\<lambda>(status, s4, w4).
                    let s5 = s4\<lparr>d_eorStop := False, s_isClosed := False\<rparr> in
                    if status = STREAM_RECORD then
                      (if d_contentLen s5 = 0
                       then Some (s5\<lparr>s_wrNext := s_rdNext s5, s_stop := s_rdNext s5, s_isClosed := True\<rparr>, w4)
                       else fill_loop rd process [] s5 w4)
                    else if status = SKIP then fill_loop rd process [] (s5\<lparr>d_skip := True\<rparr>) w4
                    else if status = BEGIN_RECORD then Some (s5, w4)
                    else if status = MGMT_RECORD then fill_loop rd process [] s5 w4
                    else if status < 0 then Some (SetError s5 status, w4)
                    else None)))"

text \<open>\<^verbatim>\<open>FillBuffProc\<close> while \<^verbatim>\<open>eorStop\<close> is set.\<close>

definition FillBuffProc_eor :: "(nat \<Rightarrow> nat \<Rightarrow> int) \<Rightarrow> filler" where
  "FillBuffProc_eor rd stream w = fill_loop rd (\<lambda>_ _ _. None) [] stream w"

section \<open>Headers\<close>

text \<open>
  The buffer of a reply to a management record has 64 bytes, and \<^verbatim>\<open>sprintf\<close> adds a null byte. The
  padding of the reply, which the code does not set, is taken to be null bytes.
\<close>

definition values_entry :: "bytes \<Rightarrow> bytes \<Rightarrow> bytes option" where
  "values_entry nameValue resp = do {
     assert_opt (CHR ''='' \<in> set (c_string nameValue));
     let name = takeWhile (\<lambda>c. c \<noteq> CHR ''='') nameValue;
     let reply = (\<lambda>v. char_of (length name) # char_of (1 :: nat) # name @ [v]);
     let resp1 = (if name = ''FCGI_MAX_CONNS'' then resp @ reply (CHR ''1'')
                  else if name = ''FCGI_MAX_REQS'' then resp @ reply (CHR ''1'')
                  else if name = ''FCGI_MPXS_CONNS'' then resp @ reply (CHR ''0'')
                  else resp);
     assert_opt (resp1 = resp \<or> FCGI_HEADER_LEN + length resp1 + 1 \<le> 64);
     Some resp1
   }"

fun values_reply :: "bytes list \<Rightarrow> bytes \<Rightarrow> bytes option" where
  "values_reply [] resp = Some resp"
| "values_reply (p # ps) resp = do { resp1 \<leftarrow> values_entry p resp; values_reply ps resp1 }"

definition ProcessManagementRecord ::
  "(nat \<Rightarrow> nat \<Rightarrow> int) \<Rightarrow> (nat \<Rightarrow> nat \<Rightarrow> int) \<Rightarrow> int \<Rightarrow> FCGX_Stream \<Rightarrow> fcgx_conn
   \<Rightarrow> (int \<times> FCGX_Stream \<times> fcgx_conn) option" where
  "ProcessManagementRecord rd wr type stream w =
     (let finish = (\<lambda>response s1 w1. do {
          (r, w2) \<leftarrow> write_it_all wr response w1;
          if r < 0 then Some (- 1, SetError s1 (- r), w2) else Some (MGMT_RECORD, s1, w2)
        }) in
      if type = FCGI_GET_VALUES then do {
        (_, params, s1, w1) \<leftarrow> ReadParams (FillBuffProc_eor rd) (NewParams 3) stream w;
        if FCGX_GetError s1 \<noteq> 0 \<or> d_contentLen s1 \<noteq> 0 then Some (FCGX_PROTOCOL_ERROR, s1, w1)
        else do {
          resp \<leftarrow> values_reply (pp_vec params) [];
          let len = int (length resp);
          let paddedLen = AlignInt8 (word_of_int len);
          header \<leftarrow> MakeHeader FCGI_GET_VALUES_RESULT FCGI_NULL_REQUEST_ID len (paddedLen - len);
          finish (header_mem header @ resp @ replicate (nat (paddedLen - len)) NUL) s1 w1
        }
      }
      else do {
        header \<leftarrow> MakeHeader FCGI_UNKNOWN_TYPE FCGI_NULL_REQUEST_ID 8 0;
        finish (header_mem header @ MakeUnknownTypeBody type) stream w
      })"

definition ProcessBeginRecord ::
  "(nat \<Rightarrow> nat \<Rightarrow> int) \<Rightarrow> (nat \<Rightarrow> nat \<Rightarrow> int) \<Rightarrow> int \<Rightarrow> FCGX_Stream \<Rightarrow> fcgx_conn
   \<Rightarrow> (int \<times> FCGX_Stream \<times> fcgx_conn) option" where
  "ProcessBeginRecord rd wr requestId stream w =
     (if requestId = 0 \<or> d_contentLen stream \<noteq> 8 then Some (FCGX_PROTOCOL_ERROR, stream, w)
      else if rq_isBeginProcessed w then do {
        header \<leftarrow> MakeHeader FCGI_END_REQUEST requestId 8 0;
        let body = MakeEndRequestBody 0 FCGI_CANT_MPX_CONN;
        (r, w1) \<leftarrow> write_it_all wr (header_mem header @ end_body_mem body) w;
        if r < 0 then Some (- 1, SetError stream (- r), w1) else Some (SKIP, stream, w1)
      }
      else do {
        let w1 = w\<lparr>rq_requestId := requestId\<rparr>;
        (n, body, s2, w2) \<leftarrow> FCGX_GetStr (FillBuffProc_eor rd) 8 stream w1;
        if n \<noteq> 8 then Some (FCGX_PROTOCOL_ERROR, s2, w2)
        else Some (BEGIN_RECORD, s2,
               w2\<lparr>rq_keepConnection := int (ord (body ! 2)) AND FCGI_KEEP_CONN,
                  rq_role := push_bit 8 (int (ord (body ! 0))) + int (ord (body ! 1)),
                  rq_isBeginProcessed := True\<rparr>)
      })"

definition ProcessHeader ::
  "(nat \<Rightarrow> nat \<Rightarrow> int) \<Rightarrow> (nat \<Rightarrow> nat \<Rightarrow> int) \<Rightarrow> header_processor" where
  "ProcessHeader rd wr header stream w =
     (if version header \<noteq> 1 then Some (FCGX_UNSUPPORTED_VERSION, stream, w)
      else
        let requestId = push_bit 8 (uint (requestIdB1 header)) + uint (requestIdB0 header);
            s1 = stream\<lparr>d_contentLen := nat (push_bit 8 (uint (contentLengthB1 header)) + uint (contentLengthB0 header)),
                        d_paddingLen := unat (paddingLength header)\<rparr>
        in if uint (hd_type header) = FCGI_BEGIN_REQUEST then ProcessBeginRecord rd wr requestId s1 w
           else if requestId = FCGI_NULL_REQUEST_ID
           then ProcessManagementRecord rd wr (uint (hd_type header)) s1 w
           else if requestId \<noteq> rq_requestId w then Some (SKIP, s1, w)
           else if uint (hd_type header) \<noteq> d_type s1 then Some (FCGX_PROTOCOL_ERROR, s1, w)
           else Some (STREAM_RECORD, s1, w))"

definition FillBuffProc :: "(nat \<Rightarrow> nat \<Rightarrow> int) \<Rightarrow> (nat \<Rightarrow> nat \<Rightarrow> int) \<Rightarrow> filler" where
  "FillBuffProc rd wr stream w = fill_loop rd (ProcessHeader rd wr) [] stream w"

definition SetReaderType :: "FCGX_Stream \<Rightarrow> int \<Rightarrow> FCGX_Stream option" where
  "SetReaderType stream streamType = do {
     assert_opt (s_isReader stream);
     Some (stream\<lparr>d_type := streamType, d_eorStop := False, d_skip := False, d_contentLen := 0,
                  d_paddingLen := 0, s_wrNext := s_rdNext stream, s_stop := s_rdNext stream,
                  s_isClosed := False\<rparr>)
   }"

definition FCGX_StartFilterData :: "FCGX_Stream \<Rightarrow> fcgx_conn \<Rightarrow> (int \<times> FCGX_Stream) option" where
  "FCGX_StartFilterData stream w =
     (if rq_role w \<noteq> FCGI_FILTER \<or> \<not> s_isReader stream \<or> \<not> s_isClosed stream \<or> d_type stream \<noteq> FCGI_STDIN
      then Some (- 1, SetError stream FCGX_CALL_SEQ_ERROR)
      else do { s1 \<leftarrow> SetReaderType stream FCGI_DATA; Some (0, s1) })"


section \<open>What is still to be read\<close>

text \<open>What \<^verbatim>\<open>read\<close> promises when there is something to read and it does not fail.\<close>

definition reads_ok :: "(nat \<Rightarrow> nat \<Rightarrow> int) \<Rightarrow> bool" where
  "reads_ok rd \<longleftrightarrow> (\<forall>i n. 0 < n \<longrightarrow> 0 < rd i n \<and> rd i n \<le> int n)"

definition bufok :: "FCGX_Stream \<Rightarrow> bool" where
  "bufok s \<longleftrightarrow> s_rdNext s \<le> d_buffStop s \<and> d_buffStop s \<le> d_bufflen s \<and> length (d_buff s) = d_bufflen s \<and>
     0 < d_bufflen s"

text \<open>The bytes of the connection that have not been consumed, those in the buffer first.\<close>

definition to_read :: "FCGX_Stream \<Rightarrow> fcgx_conn \<Rightarrow> bytes" where
  "to_read s w = take (d_buffStop s - s_rdNext s) (drop (s_rdNext s) (d_buff s)) @ w_unread w"

text \<open>The bytes that the stream offers without a call of \<^verbatim>\<open>fillBuffProc\<close>.\<close>

definition offered :: "FCGX_Stream \<Rightarrow> bytes" where
  "offered s = take (s_stop s - s_rdNext s) (drop (s_rdNext s) (d_buff s))"

text \<open>The same connection, apart from what has been read.\<close>

definition same_conn :: "fcgx_conn \<Rightarrow> fcgx_conn \<Rightarrow> bool" where
  "same_conn w0 w \<longleftrightarrow> (\<exists>u k. w = w0\<lparr>w_unread := u, w_reads := k\<rparr>)"

lemma same_connI: "w = w0\<lparr>w_unread := u, w_reads := k\<rparr> \<Longrightarrow> same_conn w0 w"
  unfolding same_conn_def by (intro exI)

lemma same_conn_refl [simp]: "same_conn w w"
  by (rule same_connI [where u = "w_unread w" and k = "w_reads w"]) simp

lemma same_conn_trans:
  assumes "same_conn w0 w1" "same_conn w1 w2"
  shows "same_conn w0 w2"
proof -
  obtain u k where 1: "w1 = w0\<lparr>w_unread := u, w_reads := k\<rparr>" using assms(1) unfolding same_conn_def by (elim exE)
  obtain u' k' where 2: "w2 = w1\<lparr>w_unread := u', w_reads := k'\<rparr>" using assms(2) unfolding same_conn_def by (elim exE)
  show ?thesis by (rule same_connI [where u = u' and k = k']) (simp add: 1 2)
qed

lemma same_conn_fields:
  assumes "same_conn w0 w"
  shows "rq_requestId w = rq_requestId w0" "rq_isBeginProcessed w = rq_isBeginProcessed w0"
    "w_written w = w_written w0" "w_writes w = w_writes w0"
  using assms unfolding same_conn_def by auto

end
