(* ===== verification/Fcgiapp_Filling.thy ===== *)
theory Fcgiapp_Filling
  imports Fcgiapp_Reader
begin

unbundle bit_operations_syntax

text \<open>
  The loop of \<^verbatim>\<open>FillBuffProc\<close> in \<^verbatim>\<open>src/fastcgi/fastcgi_lib/fcgiapp.cpp\<close>, over padding, skipped
  records, headers and content, for every way in which \<^verbatim>\<open>read\<close> cuts the bytes. \<open>moved\<close> relates a
  stream to itself after bytes have been consumed; each lemma says where the loop gets to and that
  it does.
\<close>

section \<open>Consuming bytes\<close>

lemma length_to_read: "bufok s \<Longrightarrow> length (to_read s w) = d_buffStop s - s_rdNext s + length (w_unread w)"
  by (auto simp: to_read_def bufok_def)

lemma to_read_advance:
  assumes "bufok s" "n \<le> d_buffStop s - s_rdNext s"
  shows "to_read (s\<lparr>s_rdNext := s_rdNext s + n\<rparr>) w = drop n (to_read s w)"
proof -
  have "d_buffStop s - (s_rdNext s + n) = d_buffStop s - s_rdNext s - n" by simp
  moreover have "length (drop (s_rdNext s) (d_buff s)) \<ge> n" using assms by (auto simp: bufok_def)
  ultimately show ?thesis using assms
    by (simp add: to_read_def drop_take add.commute bufok_def)
qed

lemma peek_to_read:
  assumes "bufok s" "n \<le> d_buffStop s - s_rdNext s"
  shows "peek_bytes n s = Some (take n (to_read s w))"
  using assms by (auto simp: peek_bytes_def to_read_def bufok_def)

lemma to_read_filled:
  "to_read (s\<lparr>d_buff := overwrite 0 bs (d_buff s), s_rdNext := 0, d_buffStop := length bs\<rparr>)
     (w\<lparr>w_unread := u, w_reads := k\<rparr>) = bs @ u"
  by (simp add: to_read_def overwrite_def)

text \<open>
  \<open>moved\<close>: the stream and the connection after some bytes have been consumed and only \<open>R\<close> is
  left; the rest of the stream is as before.
\<close>

definition moved :: "FCGX_Stream \<Rightarrow> fcgx_conn \<Rightarrow> bytes \<Rightarrow> FCGX_Stream \<Rightarrow> fcgx_conn \<Rightarrow> bool" where
  "moved s w R s' w' \<longleftrightarrow> (\<exists>b i j. s' = s\<lparr>d_buff := b, s_rdNext := i, d_buffStop := j\<rparr> \<and> length b = length (d_buff s)) \<and>
     same_conn w w' \<and> bufok s' \<and> to_read s' w' = R"

lemma movedI:
  assumes "s' = s\<lparr>d_buff := b, s_rdNext := i, d_buffStop := j\<rparr>" "length b = length (d_buff s)" "same_conn w w'"
    and "bufok s'" "to_read s' w' = R"
  shows "moved s w R s' w'"
  using assms unfolding moved_def by blast

lemma moved_refl: "bufok s \<Longrightarrow> moved s w (to_read s w) s w"
  by (rule movedI [where b = "d_buff s" and i = "s_rdNext s" and j = "d_buffStop s"]) simp_all

lemma moved_trans:
  assumes "moved s w R1 s1 w1" "moved s1 w1 R2 s2 w2"
  shows "moved s w R2 s2 w2"
proof -
  obtain b i j where 1: "s1 = s\<lparr>d_buff := b, s_rdNext := i, d_buffStop := j\<rparr>" "length b = length (d_buff s)" "same_conn w w1"
    using assms(1) unfolding moved_def by blast
  obtain c k l where 2: "s2 = s1\<lparr>d_buff := c, s_rdNext := k, d_buffStop := l\<rparr>" "length c = length (d_buff s1)" "same_conn w1 w2"
    "bufok s2" "to_read s2 w2 = R2"
    using assms(2) unfolding moved_def by blast
  have "s2 = s\<lparr>d_buff := c, s_rdNext := k, d_buffStop := l\<rparr>" using 1(1) 2(1) by simp
  from movedI [OF this _ same_conn_trans [OF 1(3) 2(3)] 2(4,5)] 1(1,2) 2(2) show ?thesis by simp
qed

lemma moved_facts:
  assumes "moved s w R s' w'"
  shows "bufok s'" "to_read s' w' = R" "same_conn w w'"
    and "s_stop s' = s_stop s" "s_isReader s' = s_isReader s" "s_isClosed s' = s_isClosed s" "s_errno s' = s_errno s"
    "d_type s' = d_type s" "d_eorStop s' = d_eorStop s" "d_skip s' = d_skip s" "d_contentLen s' = d_contentLen s"
    "d_paddingLen s' = d_paddingLen s"
  using assms unfolding moved_def by auto

lemma bufok_update [simp]:
  "bufok (s\<lparr>d_paddingLen := p\<rparr>) = bufok s" "bufok (s\<lparr>d_contentLen := p\<rparr>) = bufok s" "bufok (s\<lparr>d_skip := f\<rparr>) = bufok s"
  "bufok (s\<lparr>s_stop := p\<rparr>) = bufok s" "bufok (s\<lparr>s_wrNext := p\<rparr>) = bufok s" "bufok (s\<lparr>d_eorStop := f\<rparr>) = bufok s"
  "bufok (s\<lparr>s_isClosed := f\<rparr>) = bufok s" "bufok (s\<lparr>s_stopUnget := p\<rparr>) = bufok s"
  by (simp_all add: bufok_def)

lemma to_read_update [simp]:
  "to_read (s\<lparr>d_paddingLen := p\<rparr>) w = to_read s w" "to_read (s\<lparr>d_contentLen := p\<rparr>) w = to_read s w"
  "to_read (s\<lparr>d_skip := f\<rparr>) w = to_read s w" "to_read (s\<lparr>s_stop := p\<rparr>) w = to_read s w"
  "to_read (s\<lparr>s_wrNext := p\<rparr>) w = to_read s w" "to_read (s\<lparr>d_eorStop := f\<rparr>) w = to_read s w"
  "to_read (s\<lparr>s_isClosed := f\<rparr>) w = to_read s w" "to_read (s\<lparr>s_stopUnget := p\<rparr>) w = to_read s w"
  by (simp_all add: to_read_def)

lemma moved_update:
  assumes "moved s w R s' w'"
  shows "moved (s\<lparr>d_paddingLen := p\<rparr>) w R (s'\<lparr>d_paddingLen := p\<rparr>) w'"
    "moved (s\<lparr>d_contentLen := p\<rparr>) w R (s'\<lparr>d_contentLen := p\<rparr>) w'"
    "moved (s\<lparr>d_skip := f\<rparr>) w R (s'\<lparr>d_skip := f\<rparr>) w'"
proof -
  obtain b i j where 1: "s' = s\<lparr>d_buff := b, s_rdNext := i, d_buffStop := j\<rparr>" "length b = length (d_buff s)" "same_conn w w'"
    "bufok s'" "to_read s' w' = R"
    using assms unfolding moved_def by blast
  show "moved (s\<lparr>d_paddingLen := p\<rparr>) w R (s'\<lparr>d_paddingLen := p\<rparr>) w'"
    by (rule movedI [where b = b and i = i and j = j]) (use 1(2-5) in \<open>simp_all add: 1(1)\<close>)
  show "moved (s\<lparr>d_contentLen := p\<rparr>) w R (s'\<lparr>d_contentLen := p\<rparr>) w'"
    by (rule movedI [where b = b and i = i and j = j]) (use 1(2-5) in \<open>simp_all add: 1(1)\<close>)
  show "moved (s\<lparr>d_skip := f\<rparr>) w R (s'\<lparr>d_skip := f\<rparr>) w'"
    by (rule movedI [where b = b and i = i and j = j]) (use 1(2-5) in \<open>simp_all add: 1(1)\<close>)
qed

lemma moved_advance:
  assumes "bufok s" "n \<le> d_buffStop s - s_rdNext s"
  shows "moved s w (drop n (to_read s w)) (s\<lparr>s_rdNext := s_rdNext s + n\<rparr>) w"
proof -
  have "bufok (s\<lparr>s_rdNext := s_rdNext s + n\<rparr>)" using assms by (auto simp: bufok_def)
  then show ?thesis
    by (intro movedI [where b = "d_buff s" and i = "s_rdNext s + n" and j = "d_buffStop s"])
      (simp_all add: to_read_advance [OF assms])
qed

text \<open>An empty buffer is filled with the next bytes of the connection.\<close>

lemma fill_input_ok:
  assumes "reads_ok rd" "bufok s" "to_read s w \<noteq> []"
  shows "\<exists>s' w'. fill_input rd s w = Some (True, s', w') \<and> moved s w (to_read s w) s' w' \<and>
    s_rdNext s' < d_buffStop s'"
proof (cases "s_rdNext s = d_buffStop s")
  case False
  with moved_refl [OF assms(2)] assms(2) show ?thesis by (auto simp: fill_input_def bufok_def)
next
  case True
  let ?r = "rd (w_reads w) (d_bufflen s)"
  have r: "0 < ?r" "?r \<le> int (d_bufflen s)" using assms(1,2) by (simp_all add: reads_ok_def bufok_def)
  have u: "w_unread w \<noteq> []" using assms(2,3) True by (simp add: to_read_def bufok_def)
  let ?bs = "take (nat ?r) (w_unread w)"
  have bs: "?bs \<noteq> []" "length ?bs \<le> d_bufflen s" using r u by auto
  have p: "poke 0 ?bs (d_buff s) = Some (overwrite 0 ?bs (d_buff s))"
    using bs(2) assms(2) by (simp add: poke_def bufok_def)
  let ?s = "s\<lparr>d_buff := overwrite 0 ?bs (d_buff s), s_rdNext := 0, d_buffStop := length ?bs\<rparr>"
  let ?w = "w\<lparr>w_unread := drop (nat ?r) (w_unread w), w_reads := Suc (w_reads w)\<rparr>"
  have os: "OS_Read rd (d_bufflen s) w = (int (length ?bs), ?bs, ?w)"
    using r by (simp add: OS_Read_def Let_def)
  have nz: "\<not> int (length ?bs) \<le> 0" using bs(1) by simp
  have f: "fill_input rd s w = Some (True, ?s, ?w)"
    unfolding fill_input_def if_P [OF True] os prod.case if_not_P [OF nz] p by simp
  have bo: "bufok ?s" using bs(2) assms(2) by (simp add: bufok_def)
  have tr: "to_read ?s ?w = to_read s w"
  proof -
    have "to_read ?s ?w = ?bs @ drop (nat ?r) (w_unread w)" by (rule to_read_filled)
    then have "to_read ?s ?w = w_unread w" by simp
    moreover have "to_read s w = w_unread w" using True by (simp add: to_read_def)
    ultimately show ?thesis by simp
  qed
  have "length (overwrite 0 ?bs (d_buff s)) = length (d_buff s)" using bs(2) assms(2) by (simp add: bufok_def)
  from movedI [OF refl this same_connI [OF refl] bo tr] have "moved s w (to_read s w) ?s ?w" .
  moreover have "s_rdNext ?s < d_buffStop ?s" using bs(1) by simp
  ultimately show ?thesis using f by (intro exI conjI)
qed

section \<open>The loop of \<^verbatim>\<open>FillBuffProc\<close>\<close>

text \<open>The end of a round of the loop, once the header is complete.\<close>

definition after_header ::
  "(nat \<Rightarrow> nat \<Rightarrow> int) \<Rightarrow> header_processor \<Rightarrow> int \<times> FCGX_Stream \<times> fcgx_conn \<Rightarrow> (FCGX_Stream \<times> fcgx_conn) option" where
  "after_header rd process = (\<lambda>(status, s4, w4).
     let s5 = s4\<lparr>d_eorStop := False, s_isClosed := False\<rparr> in
     if status = STREAM_RECORD then
       (if d_contentLen s5 = 0
        then Some (s5\<lparr>s_wrNext := s_rdNext s5, s_stop := s_rdNext s5, s_isClosed := True\<rparr>, w4)
        else fill_loop rd process [] s5 w4)
     else if status = SKIP then fill_loop rd process [] (s5\<lparr>d_skip := True\<rparr>) w4
     else if status = BEGIN_RECORD then Some (s5, w4)
     else if status = MGMT_RECORD then fill_loop rd process [] s5 w4
     else if status < 0 then Some (SetError s5 status, w4)
     else None)"

definition fill_header ::
  "(nat \<Rightarrow> nat \<Rightarrow> int) \<Rightarrow> header_processor \<Rightarrow> bytes \<Rightarrow> FCGX_Stream \<Rightarrow> fcgx_conn \<Rightarrow> (FCGX_Stream \<times> fcgx_conn) option" where
  "fill_header rd process header s2 w1 =
     Option.bind (peek_bytes (min (FCGI_HEADER_LEN - length header) (d_buffStop s2 - s_rdNext s2)) s2) (\<lambda>bs.
       let s3 = s2\<lparr>s_rdNext := s_rdNext s2 + length bs\<rparr>; header1 = header @ bs in
       if length header1 < FCGI_HEADER_LEN then fill_loop rd process header1 s3 w1
       else Option.bind (process (header_of header1) (s3\<lparr>d_eorStop := True, s_stop := s_rdNext s3\<rparr>) w1)
         (after_header rd process))"

lemma fill_round:
  assumes "fill_input rd s w = Some (True, s1, w1)"
  shows "fill_loop rd process header s w =
    (case fill_content s1 of
       (FillReturn, s2) \<Rightarrow> Some (s2, w1)
     | (FillAgain, s2) \<Rightarrow> fill_loop rd process header s2 w1
     | (FillHeader, s2) \<Rightarrow> fill_header rd process header s2 w1)"
  unfolding fill_header_def after_header_def
  by (subst fill_loop.simps) (simp only: assms Option.bind.simps prod.case not_True_eq_False if_False)


lemma fill_header_eq:
  assumes "bufok s" "d_contentLen s = 0" "d_paddingLen s = 0" "\<not> d_eorStop s" "length h < 8"
  shows "fill_header rd process h s w = fill_loop rd process h s w"
proof (cases "s_rdNext s = d_buffStop s")
  case True
  have "peek_bytes 0 s = Some []" using assms(1) by (auto simp: peek_bytes_def bufok_def)
  moreover have "s\<lparr>s_rdNext := d_buffStop s\<rparr> = s" using True by (intro FCGX_Stream.equality) simp_all
  moreover have "fill_header rd process h s w = fill_loop rd process h (s\<lparr>s_rdNext := d_buffStop s\<rparr>) w"
    if "peek_bytes 0 s = Some []" using that True assms(5) by (simp add: fill_header_def FCGI_HEADER_LEN_def)
  ultimately show ?thesis by (simp only:)
next
  case False
  then have "fill_input rd s w = Some (True, s, w)" by (simp add: fill_input_def)
  moreover have "fill_content s = (FillHeader, s)" using assms(2-4) by (simp add: fill_content_def fill_padding_def)
  ultimately show ?thesis by (simp add: fill_round)
qed

text \<open>Padding is passed over, in as many rounds as the reads make necessary.\<close>

lemma fill_padding_skips:
  assumes "reads_ok rd" "bufok s" "d_contentLen s = 0" "\<not> d_skip s" "\<not> d_eorStop s" "d_paddingLen s = length pad"
    and "to_read s w = pad @ R" "R \<noteq> []" "length h < 8"
  shows "\<exists>s' w'. (case fill_padding s of (FillReturn, s2) \<Rightarrow> Some (s2, w)
        | (FillAgain, s2) \<Rightarrow> fill_loop rd process h s2 w | (FillHeader, s2) \<Rightarrow> fill_header rd process h s2 w) =
      fill_loop rd process h s' w' \<and> moved (s\<lparr>d_paddingLen := 0\<rparr>) w R s' w'"
  using assms(2-)
proof (induction "2 * length (to_read s w) + (if s_rdNext s = d_buffStop s then 1 else 0)" arbitrary: s w pad
    rule: less_induct)
  case less
  let ?n = "min (length pad) (d_buffStop s - s_rdNext s)"
  let ?s = "s\<lparr>s_rdNext := s_rdNext s + ?n, d_paddingLen := length pad - ?n\<rparr>"
  have m: "moved s w (drop ?n pad @ R) (s\<lparr>s_rdNext := s_rdNext s + ?n\<rparr>) w"
    using moved_advance [OF less.prems(1), of ?n w] less.prems(6) by simp
  note m1 = moved_update(1) [OF m]
  show ?case
  proof (cases "?n < length pad")
    case False
    then have n: "?n = length pad" by linarith
    let ?t = "s\<lparr>s_rdNext := s_rdNext s + length pad, d_paddingLen := 0\<rparr>"
    have t: "moved (s\<lparr>d_paddingLen := 0\<rparr>) w R ?t w" using m1 [of 0] unfolding n by simp
    have "fill_padding s = (FillHeader, ?t)"
      unfolding fill_padding_def less.prems(5) n Let_def using less.prems(4,5)
      by (auto intro!: FCGX_Stream.equality)
    moreover have "fill_header rd process h ?t w = fill_loop rd process h ?t w"
      by (rule fill_header_eq) (use moved_facts [OF t] less.prems(2,4,8) in simp_all)
    ultimately have "(case fill_padding s of (FillReturn, s2) \<Rightarrow> Some (s2, w)
        | (FillAgain, s2) \<Rightarrow> fill_loop rd process h s2 w | (FillHeader, s2) \<Rightarrow> fill_header rd process h s2 w) =
      fill_loop rd process h ?t w" by (simp only: prod.case fill_next.case)
    with t show ?thesis by (intro exI conjI)
  next
    case True
    then have n: "?n = d_buffStop s - s_rdNext s" by linarith
    have "fill_padding s = (FillAgain, s\<lparr>d_paddingLen := length pad - ?n, s_rdNext := s_rdNext s + ?n\<rparr>)"
      unfolding fill_padding_def less.prems(5) Let_def using True by auto
    moreover have "s\<lparr>d_paddingLen := x, s_rdNext := y\<rparr> = s\<lparr>s_rdNext := y, d_paddingLen := x\<rparr>" for x y by simp
    ultimately have fp: "fill_padding s = (FillAgain, ?s)" by (simp only:)
    have ms: "moved (s\<lparr>d_paddingLen := length pad - ?n\<rparr>) w (drop ?n pad @ R) ?s w"
      by (rule m1)
    then have "to_read ?s w \<noteq> []" using less.prems(7) moved_facts(2) [OF ms] by simp
    from fill_input_ok [OF assms(1) moved_facts(1) [OF ms] this] obtain s1 w1 where
      f: "fill_input rd ?s w = Some (True, s1, w1)" and m2: "moved ?s w (drop ?n pad @ R) s1 w1"
      and ij: "s_rdNext s1 < d_buffStop s1"
      unfolding moved_facts(2) [OF ms] by blast
    note s1 = moved_facts [OF m2]
    have fc: "fill_content s1 = fill_padding s1" using less.prems(2) s1 by (simp add: fill_content_def)
    have p1: "d_contentLen s1 = 0" "\<not> d_skip s1" "\<not> d_eorStop s1" "d_paddingLen s1 = length (drop ?n pad)"
      using s1(9-12) less.prems(2-4) by simp_all
    have lt: "2 * length (to_read s1 w1) + (if s_rdNext s1 = d_buffStop s1 then 1 else 0) <
      2 * length (to_read s w) + (if s_rdNext s = d_buffStop s then 1 else 0)"
    proof (cases "?n = 0")
      case True
      then have "s_rdNext s = d_buffStop s" using n less.prems(1) by (simp add: bufok_def)
      with True ij less.prems(6) s1(2) show ?thesis by simp
    next
      case False
      with ij less.prems(6) s1(2) True show ?thesis by simp
    qed
    have "\<exists>s' w'. (case fill_padding s1 of (FillReturn, s2) \<Rightarrow> Some (s2, w1)
        | (FillAgain, s2) \<Rightarrow> fill_loop rd process h s2 w1 | (FillHeader, s2) \<Rightarrow> fill_header rd process h s2 w1) =
      fill_loop rd process h s' w' \<and> moved (s1\<lparr>d_paddingLen := 0\<rparr>) w1 R s' w'"
      by (rule less.hyps [OF lt s1(1) p1 s1(2) less.prems(7,8)])
    then obtain s' w' where r: "(case fill_padding s1 of (FillReturn, s2) \<Rightarrow> Some (s2, w1)
        | (FillAgain, s2) \<Rightarrow> fill_loop rd process h s2 w1 | (FillHeader, s2) \<Rightarrow> fill_header rd process h s2 w1) =
      fill_loop rd process h s' w'" "moved (s1\<lparr>d_paddingLen := 0\<rparr>) w1 R s' w'" by (elim exE conjE) (rule that)
    from fill_round [OF f, of process h] have l: "fill_loop rd process h ?s w = fill_loop rd process h s' w'"
      unfolding fc r(1) .
    have "moved (s\<lparr>d_paddingLen := 0\<rparr>) w (drop ?n pad @ R) (?s\<lparr>d_paddingLen := 0\<rparr>) w"
      using m1 [of 0] by simp
    from moved_trans [OF moved_trans [OF this moved_update(1) [OF m2]] r(2)] l show ?thesis
      unfolding fp prod.case fill_next.case by (intro exI conjI)
  qed
qed

lemma fill_pad:
  assumes "reads_ok rd" "bufok s" "d_contentLen s = 0" "\<not> d_skip s" "\<not> d_eorStop s" "d_paddingLen s = length pad"
    and "to_read s w = pad @ R" "R \<noteq> []" "length h < 8"
  shows "\<exists>s' w'. fill_loop rd process h s w = fill_loop rd process h s' w' \<and> moved (s\<lparr>d_paddingLen := 0\<rparr>) w R s' w'"
proof -
  have "to_read s w \<noteq> []" using assms(7,8) by simp
  from fill_input_ok [OF assms(1,2) this] obtain s1 w1 where
    f: "fill_input rd s w = Some (True, s1, w1)" and m: "moved s w (pad @ R) s1 w1"
    unfolding assms(7) by (elim exE conjE) (rule that)
  note s1 = moved_facts [OF m]
  have p: "d_contentLen s1 = 0" "\<not> d_skip s1" "\<not> d_eorStop s1" "d_paddingLen s1 = length pad"
    using s1(9-12) assms(3-6) by simp_all
  obtain s' w' where r: "(case fill_padding s1 of (FillReturn, s2) \<Rightarrow> Some (s2, w1)
        | (FillAgain, s2) \<Rightarrow> fill_loop rd process h s2 w1 | (FillHeader, s2) \<Rightarrow> fill_header rd process h s2 w1) =
      fill_loop rd process h s' w'" "moved (s1\<lparr>d_paddingLen := 0\<rparr>) w1 R s' w'"
    using fill_padding_skips [OF assms(1) s1(1) p s1(2) assms(8,9), of process] by (elim exE conjE) (rule that)
  have fc: "fill_content s1 = fill_padding s1" using p(1) by (simp add: fill_content_def)
  from fill_round [OF f, of process h] have "fill_loop rd process h s w = fill_loop rd process h s' w'"
    unfolding fc r(1) .
  with moved_trans [OF moved_update(1) [OF m] r(2)] show ?thesis by (intro exI conjI)
qed

lemma fill_content_skip:
  assumes "0 < d_contentLen s" "d_skip s" "n = min (d_contentLen s) (d_buffStop s - s_rdNext s)"
  shows "fill_content s =
    (if n < d_contentLen s then (FillAgain, s\<lparr>s_rdNext := s_rdNext s + n, d_contentLen := d_contentLen s - n\<rparr>)
     else fill_padding (s\<lparr>s_rdNext := s_rdNext s + n, d_contentLen := d_contentLen s - n, d_skip := False\<rparr>))"
proof -
  have c: "s\<lparr>d_contentLen := x, s_rdNext := y\<rparr> = s\<lparr>s_rdNext := y, d_contentLen := x\<rparr>" for x y by simp
  have "0 < d_contentLen s - n \<longleftrightarrow> n < d_contentLen s" by linarith
  then show ?thesis
    unfolding fill_content_def if_P [OF assms(1)] assms(3) [symmetric] Let_def using assms(2)
    by (simp add: c)
qed

text \<open>So is the content of a record that is to be skipped.\<close>

lemma fill_skip_record:
  assumes "reads_ok rd" "bufok s" "d_contentLen s = length X" "X \<noteq> []" "d_skip s" "\<not> d_eorStop s"
    "d_paddingLen s = length pad" "to_read s w = X @ pad @ R" "R \<noteq> []" "length h < 8"
  shows "\<exists>s' w'. fill_loop rd process h s w = fill_loop rd process h s' w' \<and>
    moved (s\<lparr>d_contentLen := 0, d_skip := False, d_paddingLen := 0\<rparr>) w R s' w'"
  using assms(2-)
proof (induction "length X" arbitrary: s w X rule: less_induct)
  case less
  have "to_read s w \<noteq> []" using less.prems(7,8) by simp
  from fill_input_ok [OF assms(1) less.prems(1) this] obtain s1 w1 where
    f: "fill_input rd s w = Some (True, s1, w1)" and m: "moved s w (X @ pad @ R) s1 w1" and ij: "s_rdNext s1 < d_buffStop s1"
    unfolding less.prems(7) by (elim exE conjE) (rule that)
  note s1 = moved_facts [OF m]
  let ?n = "min (length X) (d_buffStop s1 - s_rdNext s1)"
  let ?s2 = "s1\<lparr>s_rdNext := s_rdNext s1 + ?n, d_contentLen := length X - ?n\<rparr>"
  have "moved s1 w1 (drop ?n X @ pad @ R) (s1\<lparr>s_rdNext := s_rdNext s1 + ?n\<rparr>) w1"
    using moved_advance [OF s1(1), of ?n w1] unfolding s1(2) by simp
  from moved_trans [OF m this] have ms: "moved s w (drop ?n X @ pad @ R) (s1\<lparr>s_rdNext := s_rdNext s1 + ?n\<rparr>) w1" .
  have m2: "moved (s\<lparr>d_contentLen := x\<rparr>) w (drop ?n X @ pad @ R) (s1\<lparr>s_rdNext := s_rdNext s1 + ?n, d_contentLen := x\<rparr>) w1" for x
    by (rule moved_update(2) [OF ms])
  note s2 = moved_facts [OF m2 [of "length X - ?n"]]
  have q: "0 < d_contentLen s1" "d_contentLen s1 = length X" "d_skip s1" "d_paddingLen s1 = length pad" "\<not> d_eorStop s1"
    using s1(9-12) less.prems(2-6) by simp_all
  show ?case
  proof (cases "?n < length X")
    case True
    then have t: "0 < length X - ?n" "?n \<noteq> 0" using ij by simp_all
    have fc: "fill_content s1 = (FillAgain, ?s2)"
      using fill_content_skip [OF q(1,3) refl] True unfolding q(2) by (simp only: if_True)
    have lt: "length (drop ?n X) < length X" using t by simp
    have p: "d_contentLen ?s2 = length (drop ?n X)" "drop ?n X \<noteq> []" "d_skip ?s2" "\<not> d_eorStop ?s2" "d_paddingLen ?s2 = length pad"
      using q True by simp_all
    obtain s' w' where r: "fill_loop rd process h ?s2 w1 = fill_loop rd process h s' w'"
      "moved (?s2\<lparr>d_contentLen := 0, d_skip := False, d_paddingLen := 0\<rparr>) w1 R s' w'"
      using less.hyps [OF lt s2(1) p s2(2) less.prems(8,9)] by (elim exE conjE) (rule that)
    have "fill_loop rd process h s w = fill_loop rd process h s' w'"
      unfolding fill_round [OF f] fc prod.case fill_next.case by (rule r(1))
    moreover have "moved (s\<lparr>d_contentLen := 0, d_skip := False, d_paddingLen := 0\<rparr>) w (drop ?n X @ pad @ R)
        (?s2\<lparr>d_contentLen := 0, d_skip := False, d_paddingLen := 0\<rparr>) w1"
      using moved_update(1) [OF moved_update(3) [OF m2 [of 0]], of 0 False] by simp
    ultimately show ?thesis using moved_trans [OF _ r(2)] by (intro exI conjI)
  next
    case False
    then have n: "?n = length X" by simp
    let ?t = "?s2\<lparr>d_skip := False\<rparr>"
    have t: "moved (s\<lparr>d_contentLen := 0, d_skip := False\<rparr>) w (pad @ R) ?t w1"
      using moved_update(3) [OF m2 [of 0], of False] unfolding n by simp
    note tf = moved_facts [OF t]
    have fc: "fill_content s1 = fill_padding ?t"
      using fill_content_skip [OF q(1,3) refl] False unfolding q(2) by (simp only: if_False)
    have p: "d_contentLen ?t = 0" "\<not> d_skip ?t" "\<not> d_eorStop ?t" "d_paddingLen ?t = length pad"
      using q n by simp_all
    obtain s' w' where r: "(case fill_padding ?t of (FillReturn, s2) \<Rightarrow> Some (s2, w1)
        | (FillAgain, s2) \<Rightarrow> fill_loop rd process h s2 w1 | (FillHeader, s2) \<Rightarrow> fill_header rd process h s2 w1) =
      fill_loop rd process h s' w'" "moved (?t\<lparr>d_paddingLen := 0\<rparr>) w1 R s' w'"
      using fill_padding_skips [OF assms(1) tf(1) p tf(2) less.prems(8,9), of process] by (elim exE conjE) (rule that)
    from fill_round [OF f, of process h] have "fill_loop rd process h s w = fill_loop rd process h s' w'"
      unfolding fc r(1) .
    moreover have "moved (s\<lparr>d_contentLen := 0, d_skip := False, d_paddingLen := 0\<rparr>) w (pad @ R) (?t\<lparr>d_paddingLen := 0\<rparr>) w1"
      by (rule moved_update(1) [OF t])
    ultimately show ?thesis using moved_trans [OF _ r(2)] by (intro exI conjI)
  qed
qed

text \<open>A header is collected, in as many rounds as the reads make necessary, and then processed.\<close>

lemma fill_gets_header:
  assumes "reads_ok rd" "bufok s" "d_contentLen s = 0" "d_paddingLen s = 0" "\<not> d_eorStop s"
    "to_read s w = H @ R" "H \<noteq> []" "length h + length H = 8"
  shows "\<exists>s' w'. fill_loop rd process h s w =
      Option.bind (process (header_of (h @ H)) (s'\<lparr>d_eorStop := True, s_stop := s_rdNext s'\<rparr>) w') (after_header rd process) \<and>
    moved s w R s' w'"
  using assms(2-)
proof (induction "length H" arbitrary: s w h H rule: less_induct)
  case less
  have "to_read s w \<noteq> []" using less.prems(5,6) by simp
  from fill_input_ok [OF assms(1) less.prems(1) this] obtain s1 w1 where
    f: "fill_input rd s w = Some (True, s1, w1)" and m: "moved s w (H @ R) s1 w1" and ij: "s_rdNext s1 < d_buffStop s1"
    unfolding less.prems(5) by (elim exE conjE) (rule that)
  note s1 = moved_facts [OF m]
  have p: "d_contentLen s1 = 0" "d_paddingLen s1 = 0" "\<not> d_eorStop s1" using s1(9-12) less.prems(2-4) by simp_all
  then have fc: "fill_content s1 = (FillHeader, s1)" by (simp add: fill_content_def fill_padding_def)
  let ?n = "min (length H) (d_buffStop s1 - s_rdNext s1)"
  have n: "FCGI_HEADER_LEN - length h = length H" using less.prems(7) by (simp add: FCGI_HEADER_LEN_def)
  have pk: "peek_bytes ?n s1 = Some (take ?n H)"
    using peek_to_read [OF s1(1), of ?n w1] unfolding s1(2) by simp
  let ?s3 = "s1\<lparr>s_rdNext := s_rdNext s1 + ?n\<rparr>"
  have "moved s1 w1 (drop ?n H @ R) ?s3 w1"
    using moved_advance [OF s1(1), of ?n w1] unfolding s1(2) by simp
  from moved_trans [OF m this] have ms: "moved s w (drop ?n H @ R) ?s3 w1" .
  note s3 = moved_facts [OF ms]
  have len: "length (take ?n H) = ?n" by simp
  have step: "fill_loop rd process h s w =
    (if length (h @ take ?n H) < FCGI_HEADER_LEN then fill_loop rd process (h @ take ?n H) ?s3 w1
     else Option.bind (process (header_of (h @ take ?n H)) (?s3\<lparr>d_eorStop := True, s_stop := s_rdNext ?s3\<rparr>) w1)
       (after_header rd process))"
    unfolding fill_round [OF f] fc prod.case fill_next.case fill_header_def n pk Option.bind.simps Let_def len ..
  show ?case
  proof (cases "?n < length H")
    case True
    then have lt: "length (drop ?n H) < length H" using ij by simp
    have a: "drop ?n H \<noteq> []" "length (h @ take ?n H) + length (drop ?n H) = 8" using True less.prems(7) by simp_all
    have s: "length (h @ take ?n H) < FCGI_HEADER_LEN" using a by (simp add: FCGI_HEADER_LEN_def)
    have "(h @ take ?n H) @ drop ?n H = h @ H" by simp
    with less.hyps [OF lt s3(1) _ _ _ s3(2) a] p obtain s' w' where
      r: "fill_loop rd process (h @ take ?n H) ?s3 w1 =
        Option.bind (process (header_of (h @ H)) (s'\<lparr>d_eorStop := True, s_stop := s_rdNext s'\<rparr>) w') (after_header rd process)"
      "moved ?s3 w1 R s' w'" by auto
    from step have "fill_loop rd process h s w =
        Option.bind (process (header_of (h @ H)) (s'\<lparr>d_eorStop := True, s_stop := s_rdNext s'\<rparr>) w') (after_header rd process)"
      unfolding if_P [OF s] r(1) .
    with moved_trans [OF ms r(2)] show ?thesis by (intro exI conjI)
  next
    case False
    then have n': "?n = length H" by simp
    then have l: "\<not> length (h @ take ?n H) < FCGI_HEADER_LEN" "h @ take ?n H = h @ H" "drop ?n H @ R = R"
      using less.prems(7) by (simp_all add: FCGI_HEADER_LEN_def)
    from step have "fill_loop rd process h s w =
        Option.bind (process (header_of (h @ H)) (?s3\<lparr>d_eorStop := True, s_stop := s_rdNext ?s3\<rparr>) w1) (after_header rd process)"
      by (simp only: if_not_P [OF l(1)]) (simp only: l(2))
    with ms show ?thesis unfolding l(3) by (intro exI conjI)
  qed
qed

text \<open>The content of a record is offered to the reader.\<close>

lemma offered_to_read:
  assumes "n \<le> d_buffStop s - s_rdNext s" "bufok s"
  shows "offered (s\<lparr>s_stop := s_rdNext s + n\<rparr>) = take n (to_read s w)"
  using assms by (auto simp: offered_def to_read_def bufok_def)

lemma fill_delivers:
  assumes "reads_ok rd" "bufok s" "d_contentLen s = length X" "X \<noteq> []" "\<not> d_skip s" "to_read s w = X @ rest"
  shows "\<exists>s1 w1 n. fill_loop rd process h s w =
      Some (s1\<lparr>d_contentLen := length (drop n X), s_wrNext := s_rdNext s1 + n, s_stop := s_rdNext s1 + n\<rparr>, w1) \<and>
    moved s w (X @ rest) s1 w1 \<and> 0 < n \<and> n \<le> length X \<and> n \<le> d_buffStop s1 - s_rdNext s1"
proof -
  have "to_read s w \<noteq> []" using assms(4,6) by simp
  from fill_input_ok [OF assms(1,2) this] obtain s1 w1 where
    f: "fill_input rd s w = Some (True, s1, w1)" and m: "moved s w (X @ rest) s1 w1" and ij: "s_rdNext s1 < d_buffStop s1"
    unfolding assms(6) by (elim exE conjE) (rule that)
  note s1 = moved_facts [OF m]
  let ?n = "min (length X) (d_buffStop s1 - s_rdNext s1)"
  have q: "0 < d_contentLen s1" "d_contentLen s1 = length X" "\<not> d_skip s1" using s1(10,11) assms(3-5) by simp_all
  have "fill_content s1 = (FillReturn, s1\<lparr>d_contentLen := length (drop ?n X), s_wrNext := s_rdNext s1 + ?n, s_stop := s_rdNext s1 + ?n\<rparr>)"
    unfolding fill_content_def if_P [OF q(1)] q(2) Let_def using q(3) assms(4) by simp
  then have "fill_loop rd process h s w =
      Some (s1\<lparr>d_contentLen := length (drop ?n X), s_wrNext := s_rdNext s1 + ?n, s_stop := s_rdNext s1 + ?n\<rparr>, w1)"
    unfolding fill_round [OF f] by (simp only: prod.case fill_next.case)
  moreover have "0 < ?n" "?n \<le> length X" "?n \<le> d_buffStop s1 - s_rdNext s1" using ij assms(4) by simp_all
  ultimately show ?thesis using m by (intro exI conjI)
qed

text \<open>Within the body of a record the loop ends behind its padding.\<close>

lemma fill_ends_record:
  assumes "reads_ok rd" "bufok s" "d_contentLen s = 0" "d_eorStop s" "d_paddingLen s = length pad"
    "to_read s w = pad @ R" "pad @ R \<noteq> []"
  shows "\<exists>s' w'. fill_loop rd process h s w = Some (s'\<lparr>s_stop := s_rdNext s', s_isClosed := True\<rparr>, w') \<and>
    moved (s\<lparr>d_paddingLen := 0\<rparr>) w R s' w'"
  using assms(2-)
proof (induction "length pad" arbitrary: s w pad rule: less_induct)
  case less
  have "to_read s w \<noteq> []" using less.prems(5,6) by simp
  from fill_input_ok [OF assms(1) less.prems(1) this] obtain s1 w1 where
    f: "fill_input rd s w = Some (True, s1, w1)" and m: "moved s w (pad @ R) s1 w1" and ij: "s_rdNext s1 < d_buffStop s1"
    unfolding less.prems(5) by (elim exE conjE) (rule that)
  note s1 = moved_facts [OF m]
  have q: "d_contentLen s1 = 0" "d_eorStop s1" "d_paddingLen s1 = length pad" using s1(9,11,12) less.prems(2-4) by simp_all
  let ?n = "min (length pad) (d_buffStop s1 - s_rdNext s1)"
  have fc: "fill_content s1 = fill_padding s1" using q(1) by (simp add: fill_content_def)
  have "moved s1 w1 (drop ?n pad @ R) (s1\<lparr>s_rdNext := s_rdNext s1 + ?n\<rparr>) w1"
    using moved_advance [OF s1(1), of ?n w1] unfolding s1(2) by simp
  from moved_trans [OF m this] have ms: "moved s w (drop ?n pad @ R) (s1\<lparr>s_rdNext := s_rdNext s1 + ?n\<rparr>) w1" .
  note m1 = moved_update(1) [OF ms]
  have c: "s1\<lparr>d_paddingLen := x, s_rdNext := y\<rparr> = s1\<lparr>s_rdNext := y, d_paddingLen := x\<rparr>" for x y by simp
  let ?t = "\<lambda>p. s1\<lparr>s_rdNext := s_rdNext s1 + ?n, d_paddingLen := p\<rparr>"
  show ?case
  proof (cases "?n < length pad")
    case True
    have "fill_padding s1 = (FillAgain, s1\<lparr>d_paddingLen := length pad - ?n, s_rdNext := s_rdNext s1 + ?n\<rparr>)"
      unfolding fill_padding_def q(3) Let_def using True by auto
    then have fp: "fill_padding s1 = (FillAgain, ?t (length pad - ?n))" by (simp only: c)
    note t = moved_facts [OF m1 [of "length pad - ?n"]]
    have lt: "length (drop ?n pad) < length pad" using True ij by simp
    have p: "d_contentLen (?t (length pad - ?n)) = 0" "d_eorStop (?t (length pad - ?n))"
      "d_paddingLen (?t (length pad - ?n)) = length (drop ?n pad)" using q(1,2) by simp_all
    have ne: "drop ?n pad @ R \<noteq> []" using True by auto
    obtain s' w' where r: "fill_loop rd process h (?t (length pad - ?n)) w1 = Some (s'\<lparr>s_stop := s_rdNext s', s_isClosed := True\<rparr>, w')"
      "moved (?t (length pad - ?n)\<lparr>d_paddingLen := 0\<rparr>) w1 R s' w'"
      using less.hyps [OF lt t(1) p t(2) ne] by (elim exE conjE) (rule that)
    have "moved (s\<lparr>d_paddingLen := 0\<rparr>) w (drop ?n pad @ R) (?t (length pad - ?n)\<lparr>d_paddingLen := 0\<rparr>) w1"
      using m1 [of 0] by simp
    from moved_trans [OF this r(2)] r(1) show ?thesis
      unfolding fill_round [OF f] fc fp prod.case fill_next.case by (intro exI conjI)
  next
    case False
    then have n: "?n = length pad" by simp
    have "fill_padding s1 = (FillReturn, (?t 0)\<lparr>s_stop := s_rdNext (?t 0), s_isClosed := True\<rparr>)"
      unfolding fill_padding_def q(3) n Let_def using q(2,3)
      by (cases "pad = []") (auto intro!: FCGX_Stream.equality)
    then have "fill_loop rd process h s w = Some ((?t 0)\<lparr>s_stop := s_rdNext (?t 0), s_isClosed := True\<rparr>, w1)"
      unfolding fill_round [OF f] fc by (simp only: prod.case fill_next.case)
    moreover have "moved (s\<lparr>d_paddingLen := 0\<rparr>) w R (?t 0) w1" using m1 [of 0] unfolding n by simp
    ultimately show ?thesis by (intro exI conjI)
  qed
qed

end
