(* ===== verification/Fcgiapp_Source.thy ===== *)
theory Fcgiapp_Source
  imports Fcgiapp_Filling
begin

unbundle bit_operations_syntax

text \<open>
  What a reading stream of \<^verbatim>\<open>src/fastcgi/fastcgi_lib/fcgiapp.cpp\<close> delivers: the locale
  \<open>byte_source\<close>, the interface between \<^verbatim>\<open>fillBuffProc\<close> and the functions that read, and its two
  interpretations, on the body of one record and on a whole stream of records.
\<close>

section \<open>Lengths and pairs\<close>

lemma byte_marker:
  assumes "k < 256"
  shows "int k AND 0x80 = 0 \<longleftrightarrow> k < 128" "int k AND 0x7f = int (k mod 128)"
proof -
  have "int k AND 2 ^ 7 = 0 \<longleftrightarrow> \<not> bit (int k) 7" by (rule and_exp_eq_0_iff_not_bit)
  also have "\<dots> \<longleftrightarrow> even (k div 128)" by (simp add: bit_iff_odd) (metis even_of_nat of_nat_div of_nat_numeral)
  also have "\<dots> \<longleftrightarrow> k < 128"
  proof (cases "k < 128")
    case False
    then have "k div 128 = 1" using assms by (intro div_nat_eqI) simp_all
    with False show ?thesis by simp
  qed simp
  finally show "int k AND 0x80 = 0 \<longleftrightarrow> k < 128" by simp
  show "int k AND 0x7f = int (k mod 128)"
    using take_bit_eq_mask [of 7 "int k"] by (simp add: take_bit_eq_mod mask_eq_exp_minus_1 zmod_int)
qed

lemma enc_len_long:
  assumes "128 \<le> n" "n < 2 ^ 31" "enc_len n = b # bs"
  shows "length bs = 3" "128 \<le> ord b"
    "push_bit 24 (int (ord b) AND 0x7f) + push_bit 16 (int (ord (bs ! 0))) + push_bit 8 (int (ord (bs ! 1)))
      + int (ord (bs ! 2)) = int n"
proof -
  have b: "b = char_of (128 + n div 2 ^ 24)" and bs: "bs = [char_of (n div 2 ^ 16), char_of (n div 2 ^ 8), char_of n]"
    using assms(1,3) by (simp_all add: enc_len_def)
  have lt: "n div 2 ^ 24 < 128" using assms(2) by simp
  then have ob: "ord b = 128 + n div 2 ^ 24" by (simp add: b)
  then show "length bs = 3" "128 \<le> ord b" by (simp_all add: bs)
  have "ord b mod 128 = n div 2 ^ 24" using lt ob by simp
  then have h: "int (ord b) AND 0x7f = int (n div 2 ^ 24)" using byte_marker(2) [of "ord b"] by simp
  have e: "n = ((n div 16777216 * 256 + n div 65536 mod 256) * 256 + n div 256 mod 256) * 256 + n mod 256"
    using base256_digits [of n] by simp
  then have "int n = ((int (n div 16777216) * 256 + int (n div 65536 mod 256)) * 256 + int (n div 256 mod 256)) * 256 + int (n mod 256)"
    by (metis of_nat_add of_nat_mult of_nat_numeral)
  then show "push_bit 24 (int (ord b) AND 0x7f) + push_bit 16 (int (ord (bs ! 0))) + push_bit 8 (int (ord (bs ! 1)))
      + int (ord (bs ! 2)) = int n"
    unfolding h bs push_bit_eq_mult by simp
qed

lemma enc_len_Cons: "\<exists>b bs. enc_len n = b # bs"
  by (simp add: enc_len_def)

lemma enc_pair_Cons: "\<exists>b bs. enc_pair kv = b # bs"
  using enc_len_Cons [of "length (fst kv)"] by (auto simp: enc_pair_def)

lemma char_of_10: "char_of (10 :: nat) = CHR 0x0A"
  by (simp add: char_of_def bit_iff_odd)

lemma newline_iff: "ord x = 10 \<longleftrightarrow> x = CHR 0x0A"
proof
  assume "ord x = 10"
  then have "char_of (ord x) = (char_of (10 :: nat) :: char)" by simp
  then show "x = CHR 0x0A" by (simp add: char_of_10)
qed simp

text \<open>The parameters after the pairs have been put, each as one string.\<close>

definition put_params :: "(bytes \<times> bytes) list \<Rightarrow> Params \<Rightarrow> Params" where
  "put_params kvs p = fold (\<lambda>(k, v) p. PutParam p (k @ ''='' @ v)) kvs p"

section \<open>Reading from a source\<close>

text \<open>
  The contract between \<^verbatim>\<open>fillBuffProc\<close> and the functions that read. \<open>gives xs s w\<close> says that the
  stream will deliver exactly the bytes \<open>xs\<close>, and \<open>ended\<close> that it has delivered all.
\<close>

locale byte_source =
  fixes fill :: filler
    and gives :: "bytes \<Rightarrow> FCGX_Stream \<Rightarrow> fcgx_conn \<Rightarrow> bool"
    and ended :: "FCGX_Stream \<Rightarrow> fcgx_conn \<Rightarrow> bool"
  assumes gives_open: "gives xs s w \<Longrightarrow> \<not> s_isClosed s \<and> s_isReader s \<and> s_rdNext s \<le> s_stop s \<and>
      s_stop s \<le> length (d_buff s) \<and> take (s_stop s - s_rdNext s) xs = offered s"
    and consume: "gives xs s w \<Longrightarrow> n \<le> s_stop s - s_rdNext s \<Longrightarrow> gives (drop n xs) (s\<lparr>s_rdNext := s_rdNext s + n\<rparr>) w"
    and unget: "gives xs s w \<Longrightarrow> gives xs (s\<lparr>s_stopUnget := k\<rparr>) w"
    and refill: "gives xs s w \<Longrightarrow> s_rdNext s = s_stop s \<Longrightarrow>
      \<exists>s' w'. fill s w = Some (s', w') \<and>
        (if xs = [] then ended s' w' else gives xs s' w' \<and> s_rdNext s' \<noteq> s_stop s')"
    and ended_closed: "ended s w \<Longrightarrow> s_isClosed s"
begin

lemma length_offered: "gives xs s w \<Longrightarrow> length (offered s) = s_stop s - s_rdNext s"
  using gives_open [of xs s w] by (auto simp: offered_def)

lemma available: "gives xs s w \<Longrightarrow> s_stop s - s_rdNext s \<le> length xs"
  using gives_open [of xs s w] length_offered [of xs s w] by (metis length_take min.absorb_iff2 min.commute)

lemma next_byte_ok:
  assumes "gives (c # cs) s w" "s_rdNext s \<noteq> s_stop s"
  shows "\<exists>s'. next_byte s w = Some (int (ord c), s', w) \<and> gives cs s' w"
proof -
  note o = gives_open [OF assms(1)]
  then have lt: "s_rdNext s < length (d_buff s)" "0 < s_stop s - s_rdNext s" using assms(2) by auto
  have "d_buff s ! s_rdNext s = hd (offered s)"
    using lt by (simp add: offered_def hd_drop_conv_nth hd_take)
  also have "\<dots> = c" using o lt(2) by (metis hd_take list.sel(1))
  finally have "next_byte s w = Some (int (ord c), s\<lparr>s_rdNext := s_rdNext s + 1\<rparr>, w)"
    using lt(1) by (simp add: next_byte_def)
  with consume [OF assms(1), of 1] lt(2) show ?thesis by (intro exI conjI) (assumption, simp)
qed

lemma GetChar_more:
  assumes "gives (c # cs) s w"
  shows "\<exists>s' w'. FCGX_GetChar fill s w = Some (int (ord c), s', w') \<and> gives cs s' w'"
proof (cases "s_rdNext s = s_stop s")
  case False
  obtain s' where "next_byte s w = Some (int (ord c), s', w)" "gives cs s' w"
    using next_byte_ok [OF assms False] by (elim exE conjE) (rule that)
  with False gives_open [OF assms] show ?thesis by (simp add: FCGX_GetChar_def)
next
  case True
  obtain s1 w1 where f: "fill s w = Some (s1, w1)" and g: "gives (c # cs) s1 w1" and ne: "s_rdNext s1 \<noteq> s_stop s1"
    using refill [OF assms True] by auto
  have g2: "gives (c # cs) (s1\<lparr>s_stopUnget := s_rdNext s1\<rparr>) w1" by (rule unget [OF g])
  obtain s' where "next_byte (s1\<lparr>s_stopUnget := s_rdNext s1\<rparr>) w1 = Some (int (ord c), s', w1)" "gives cs s' w1"
    using next_byte_ok [OF g2] ne by auto
  with True f ne gives_open [OF assms] gives_open [OF g] show ?thesis by (simp add: FCGX_GetChar_def Let_def)
qed

lemma GetChar_end:
  assumes "gives [] s w"
  shows "\<exists>s' w'. FCGX_GetChar fill s w = Some (EOF, s', w') \<and> ended s' w'"
proof -
  have "s_rdNext s = s_stop s" using available [OF assms] gives_open [OF assms] by simp
  moreover obtain s1 w1 where "fill s w = Some (s1, w1)" "ended s1 w1"
    using refill [OF assms calculation] by auto
  ultimately show ?thesis using gives_open [OF assms] ended_closed [of s1 w1] by (simp add: FCGX_GetChar_def)
qed

lemma peek_gives:
  assumes "gives xs s w" "n \<le> s_stop s - s_rdNext s"
  shows "peek_bytes n s = Some (take n xs)"
proof -
  note o = gives_open [OF assms(1)]
  have "take n (drop (s_rdNext s) (d_buff s)) = take n (offered s)" using assms(2) by (simp add: offered_def)
  also have "\<dots> = take n xs" using o assms(2) by (metis min.absorb1 take_take)
  finally show ?thesis using o assms(2) by (auto simp: peek_bytes_def)
qed

text \<open>The part of a round of \<^verbatim>\<open>FCGX_GetStr\<close> that copies what is offered.\<close>

lemma get_round:
  assumes "gives xs s w" "length str < n"
    and m: "m = min (n - length str) (s_stop s - s_rdNext s)"
  shows "get_loop fill n str s w =
    (if length str + m = n then Some (int n, str @ take m xs, s\<lparr>s_rdNext := s_rdNext s + m\<rparr>, w)
     else Option.bind (fill (s\<lparr>s_rdNext := s_rdNext s + m\<rparr>) w) (\<lambda>(s2, w2).
       if s_isClosed s2 then Some (int (length (str @ take m xs)), str @ take m xs, s2, w2)
       else get_loop fill n (str @ take m xs) (s2\<lparr>s_stopUnget := s_rdNext s2\<rparr>) w2))"
proof -
  note o = gives_open [OF assms(1)]
  have len: "length (take m xs) = m" using available [OF assms(1)] m by simp
  show ?thesis
  proof (cases "s_rdNext s = s_stop s")
    case True
    then have m0: "m = 0" using m by simp
    then have eq: "s\<lparr>s_rdNext := s_rdNext s + m\<rparr> = s" by simp
    have "get_loop fill n str s w = Option.bind (fill s w) (\<lambda>(s2, w2).
       if s_isClosed s2 then Some (int (length str), str, s2, w2)
       else get_loop fill n str (s2\<lparr>s_stopUnget := s_rdNext s2\<rparr>) w2)"
      by (subst get_loop.simps) (use True o assms(2) in simp)
    moreover have "length str + m \<noteq> n" using m0 assms(2) by simp
    ultimately show ?thesis unfolding eq unfolding m0 take_0 append_Nil2 by simp
  next
    case False
    have p: "peek_bytes m s = Some (take m xs)" using peek_gives [OF assms(1)] m by simp
    have c: "\<not> s_isClosed (s\<lparr>s_rdNext := k\<rparr>)" "s_isReader (s\<lparr>s_rdNext := k\<rparr>)" for k using o by simp_all
    show ?thesis
      by (subst get_loop.simps)
        (use False p len c in \<open>simp only: m [symmetric] not_False_eq_True simp_thms if_True Let_def
          Option.bind.simps prod.case if_False length_append\<close>)
  qed
qed

lemma get_loop_ok:
  assumes "gives xs s w" "length str < n"
  shows "\<exists>s' w'. get_loop fill n str s w =
      Some (int (min n (length str + length xs)), str @ take (n - length str) xs, s', w') \<and>
    (if n \<le> length str + length xs then gives (drop (n - length str) xs) s' w' else ended s' w')"
  using assms
proof (induction "2 * length xs + (if s_rdNext s = s_stop s then 1 else 0)" arbitrary: xs s w str rule: less_induct)
  case less
  define m where "m = min (n - length str) (s_stop s - s_rdNext s)"
  note r = get_round [OF less.prems m_def]
  have av: "m \<le> s_stop s - s_rdNext s" "m \<le> length xs" using available [OF less.prems(1)] by (simp_all add: m_def)
  let ?s = "s\<lparr>s_rdNext := s_rdNext s + m\<rparr>"
  have g: "gives (drop m xs) ?s w" by (rule consume [OF less.prems(1) av(1)])
  show ?case
  proof (cases "length str + m = n")
    case True
    then have "n - length str = m" "n \<le> length str + length xs" using av by simp_all
    with r True g show ?thesis by simp
  next
    case False
    then have m: "m = s_stop s - s_rdNext s" "length str + m < n" using less.prems(2) by (auto simp: m_def)
    then have "s_rdNext ?s = s_stop ?s" using gives_open [OF less.prems(1)] by simp
    from refill [OF g this] obtain s2 w2 where f: "fill ?s w = Some (s2, w2)" and
      g2: "if drop m xs = [] then ended s2 w2 else gives (drop m xs) s2 w2 \<and> s_rdNext s2 \<noteq> s_stop s2"
      by (elim exE conjE) (rule that)
    have len: "length (str @ take m xs) = length str + m" using av(2) by simp
    show ?thesis
    proof (cases "drop m xs = []")
      case True
      then have "length xs = m" using av(2) by simp
      moreover have "s_isClosed s2" "ended s2 w2" using g2 True ended_closed by auto
      moreover have "get_loop fill n str s w = Some (int (length str + m), str @ take m xs, s2, w2)"
        using r False f calculation(2) len by simp
      ultimately show ?thesis using m(2) by (intro exI [of _ s2] exI [of _ w2]) simp
    next
      case ne: False
      then have g3: "gives (drop m xs) s2 w2" "s_rdNext s2 \<noteq> s_stop s2" using g2 by simp_all
      let ?s3 = "s2\<lparr>s_stopUnget := s_rdNext s2\<rparr>"
      have g4: "gives (drop m xs) ?s3 w2" by (rule unget [OF g3(1)])
      have open2: "\<not> s_isClosed s2" using gives_open [OF g3(1)] by simp
      have lt: "2 * length (drop m xs) + (if s_rdNext ?s3 = s_stop ?s3 then 1 else 0) <
        2 * length xs + (if s_rdNext s = s_stop s then 1 else 0)"
      proof (cases "m = 0")
        case True
        then have "s_rdNext s = s_stop s" using m(1) gives_open [OF less.prems(1)] by simp
        with True g3(2) show ?thesis by simp
      next
        case False
        with g3(2) av(2) show ?thesis by simp
      qed
      have l: "length (str @ take m xs) < n" using m(2) len by simp
      obtain s' w' where e: "get_loop fill n (str @ take m xs) ?s3 w2 =
          Some (int (min n (length (str @ take m xs) + length (drop m xs))),
            (str @ take m xs) @ take (n - length (str @ take m xs)) (drop m xs), s', w')"
        "if n \<le> length (str @ take m xs) + length (drop m xs)
         then gives (drop (n - length (str @ take m xs)) (drop m xs)) s' w' else ended s' w'"
        using less.hyps [OF lt g4 l] by (elim exE conjE) (rule that)
      have t: "length (str @ take m xs) + length (drop m xs) = length str + length xs"
        "take m xs @ take (n - length (str @ take m xs)) (drop m xs) = take (n - length str) xs"
        "drop (n - length (str @ take m xs)) (drop m xs) = drop (n - length str) xs"
        using av(2) m(2) take_add_drop [of m xs "n - (length str + m)"] by (simp_all add: len del: length_append)
      have "get_loop fill n str s w = get_loop fill n (str @ take m xs) ?s3 w2"
        using r False f open2 by simp
      with e show ?thesis unfolding t append.assoc by (intro exI conjI) simp_all
    qed
  qed
qed

lemma GetStr_more:
  assumes "gives (xs @ ys) s w"
  shows "\<exists>s' w'. FCGX_GetStr fill (int (length xs)) s w = Some (int (length xs), xs, s', w') \<and> gives ys s' w'"
proof -
  note o = gives_open [OF assms]
  consider "xs = []" | "xs \<noteq> []" "length xs \<le> s_stop s - s_rdNext s" | "xs \<noteq> []" "s_stop s - s_rdNext s < length xs" by linarith
  then show ?thesis
  proof cases
    case 1
    with assms show ?thesis by (simp add: FCGX_GetStr_def)
  next
    case 2
    then have "int (length xs) \<le> int (s_stop s) - int (s_rdNext s)" using o by linarith
    with 2 o peek_gives [OF assms 2(2)] consume [OF assms 2(2)] show ?thesis by (simp add: FCGX_GetStr_def)
  next
    case 3
    then have "\<not> int (length xs) \<le> int (s_stop s) - int (s_rdNext s)" using o by linarith
    with 3 o get_loop_ok [OF assms, of "[]" "length xs"] show ?thesis by (simp add: FCGX_GetStr_def)
  qed
qed

text \<open>A source that ends too early delivers what it has.\<close>

lemma GetStr_short:
  assumes "gives xs s w" "length xs < n"
  shows "\<exists>s' w'. FCGX_GetStr fill (int n) s w = Some (int (length xs), xs, s', w') \<and> ended s' w'"
proof -
  note o = gives_open [OF assms(1)]
  have "\<not> int n \<le> int (s_stop s) - int (s_rdNext s)" using o available [OF assms(1)] assms(2) by linarith
  moreover have "0 < n" using assms(2) by simp
  ultimately show ?thesis using o get_loop_ok [OF assms(1), of "[]" n] assms(2) by (simp add: FCGX_GetStr_def)
qed

lemma read_length_ok:
  assumes "gives (bs @ ys) s w" "enc_len n = b # bs" "n < 2 ^ 31"
  shows "\<exists>s' w'. read_length fill (int (ord b)) s w = Some (Some (int n), s', w') \<and> gives ys s' w'"
proof (cases "n < 128")
  case True
  then have "bs = []" "ord b = n" using assms(2) by (auto simp: enc_len_def)
  with True assms(1) byte_marker(1) [of n] show ?thesis by (simp add: read_length_def)
next
  case False
  note d = enc_len_long [OF _ assms(3,2)] False
  have l: "length bs = 3" using d by simp
  obtain s' w' where g: "FCGX_GetStr fill (int (length bs)) s w = Some (int (length bs), bs, s', w')" "gives ys s' w'"
    using GetStr_more [OF assms(1)] by (elim exE conjE) (rule that)
  have "int (ord b) AND 0x80 \<noteq> 0" using d byte_marker(1) [of "ord b"] by simp
  with g d show ?thesis unfolding read_length_def by (simp add: l)
qed

lemma read_pair_ok:
  assumes "gives (tl (enc_pair (k, v)) @ ys) s w" "length k + length v + 2 < 2 ^ 31"
  shows "\<exists>s' w'. read_pair fill (int (ord (hd (enc_pair (k, v))))) s w =
    Some (Some (k @ ''='' @ v), s', w') \<and> gives ys s' w'"
proof -
  obtain b bs c cs where e: "enc_len (length k) = b # bs" "enc_len (length v) = c # cs"
    by (metis enc_len_Cons)
  have kv: "length k < 2 ^ 31" "length v < 2 ^ 31" using assms(2) by simp_all
  have g0: "gives (bs @ c # cs @ k @ v @ ys) s w" using assms(1) by (simp add: enc_pair_def e)
  obtain s1 w1 where 1: "read_length fill (int (ord b)) s w = Some (Some (int (length k)), s1, w1)" "gives (c # cs @ k @ v @ ys) s1 w1"
    using read_length_ok [OF g0 e(1) kv(1)] by (elim exE conjE) (rule that)
  obtain s2 w2 where 2: "FCGX_GetChar fill s1 w1 = Some (int (ord c), s2, w2)" "gives (cs @ k @ v @ ys) s2 w2"
    using GetChar_more [OF 1(2)] by (elim exE conjE) (rule that)
  obtain s3 w3 where 3: "read_length fill (int (ord c)) s2 w2 = Some (Some (int (length v)), s3, w3)" "gives (k @ v @ ys) s3 w3"
    using read_length_ok [OF 2(2) e(2) kv(2)] by (elim exE conjE) (rule that)
  obtain s4 w4 where 4: "FCGX_GetStr fill (int (length k)) s3 w3 = Some (int (length k), k, s4, w4)" "gives (v @ ys) s4 w4"
    using GetStr_more [OF 3(2)] by (elim exE conjE) (rule that)
  obtain s5 w5 where 5: "FCGX_GetStr fill (int (length v)) s4 w4 = Some (int (length v), v, s5, w5)" "gives ys s5 w5"
    using GetStr_more [OF 4(2)] by (elim exE conjE) (rule that)
  have ne: "int (ord c) \<noteq> EOF" by (simp add: EOF_def)
  have m: "malloc_ok (int (length k) + int (length v) + 2)" using assms(2) by (simp add: malloc_ok_def)
  have "read_pair fill (int (ord b)) s w = Some (Some (k @ ''='' @ v), s5, w5)"
    using 1(1) 2(1) 3(1) 4(1) 5(1) ne m by (simp add: read_pair_def)
  with 5(2) show ?thesis by (simp add: enc_pair_def e)
qed

lemma ReadParams_ok:
  assumes "gives (enc_pairs kvs) s w" "\<And>k v. (k, v) \<in> set kvs \<Longrightarrow> length k + length v + 2 < 2 ^ 31"
  shows "\<exists>s' w'. ReadParams fill p s w = Some (0, put_params kvs p, s', w') \<and> ended s' w'"
  using assms
proof (induction kvs arbitrary: s w p)
  case Nil
  obtain s' w' where "FCGX_GetChar fill s w = Some (EOF, s', w')" "ended s' w'"
    using GetChar_end [of s w] Nil.prems(1) by (auto simp: enc_pairs_def)
  then show ?case by (subst ReadParams.simps) (simp add: put_params_def)
next
  case (Cons kv kvs)
  obtain k v where kv: "kv = (k, v)" by (cases kv)
  obtain c cs where e: "enc_pair (k, v) = c # cs" by (metis enc_pair_Cons)
  have "gives (c # cs @ enc_pairs kvs) s w" using Cons.prems(1) by (simp add: enc_pairs_def kv e)
  from GetChar_more [OF this] obtain s1 w1 where
    1: "FCGX_GetChar fill s w = Some (int (ord c), s1, w1)" "gives (cs @ enc_pairs kvs) s1 w1"
    by (elim exE conjE) (rule that)
  have b: "length k + length v + 2 < 2 ^ 31" using Cons.prems(2) [of k v] by (simp add: kv)
  obtain s2 w2 where 2: "read_pair fill (int (ord c)) s1 w1 = Some (Some (k @ ''='' @ v), s2, w2)" "gives (enc_pairs kvs) s2 w2"
    using read_pair_ok [of k v "enc_pairs kvs" s1 w1] 1(2) b by (auto simp: e)
  have ne: "int (ord c) \<noteq> EOF" by (simp add: EOF_def)
  have "ReadParams fill p s w = ReadParams fill (PutParam p (k @ ''='' @ v)) s2 w2"
    by (subst ReadParams.simps) (use 1(1) 2(1) ne in simp)
  moreover obtain s' w' where "ReadParams fill (PutParam p (k @ ''='' @ v)) s2 w2 =
      Some (0, put_params kvs (PutParam p (k @ ''='' @ v)), s', w')" "ended s' w'"
    using Cons.IH [OF 2(2)] Cons.prems(2) by (metis list.set_intros(2))
  ultimately show ?case by (simp add: put_params_def kv)
qed

text \<open>Lines: up to a newline, up to the limit, or up to the end.\<close>

lemma get_line_newline:
  assumes "gives (xs @ CHR 0x0A # ys) s w" "CHR 0x0A \<notin> set xs" "length xs < n"
  shows "\<exists>s' w'. get_line fill n p s w = Some (Some (p @ xs @ [CHR 0x0A]), s', w') \<and> gives ys s' w'"
  using assms
proof (induction xs arbitrary: n p s w)
  case Nil
  obtain m where n: "n = Suc m" using Nil.prems(3) by (cases n) auto
  obtain s' w' where "FCGX_GetChar fill s w = Some (int (ord (CHR 0x0A)), s', w')" "gives ys s' w'"
    using GetChar_more [of "CHR 0x0A" ys s w] Nil.prems(1) by auto
  then show ?case by (simp add: n EOF_def char_of_10)
next
  case (Cons x xs)
  obtain m where n: "n = Suc m" using Cons.prems(3) by (cases n) auto
  obtain s1 w1 where 1: "FCGX_GetChar fill s w = Some (int (ord x), s1, w1)" "gives (xs @ CHR 0x0A # ys) s1 w1"
    using GetChar_more [of x "xs @ CHR 0x0A # ys" s w] Cons.prems(1) by auto
  have "ord x \<noteq> 10" using Cons.prems(2) newline_iff [of x] by auto
  with 1(1) Cons.IH [OF 1(2), of m "p @ [x]"] Cons.prems(2,3) show ?case by (simp add: n EOF_def)
qed

lemma get_line_limit:
  assumes "gives (xs @ ys) s w" "CHR 0x0A \<notin> set xs"
  shows "\<exists>s' w'. get_line fill (length xs) p s w = Some (Some (p @ xs), s', w') \<and> gives ys s' w'"
  using assms
proof (induction xs arbitrary: p s w)
  case Nil
  then show ?case by simp
next
  case (Cons x xs)
  obtain s1 w1 where 1: "FCGX_GetChar fill s w = Some (int (ord x), s1, w1)" "gives (xs @ ys) s1 w1"
    using GetChar_more [of x "xs @ ys" s w] Cons.prems(1) by auto
  have "ord x \<noteq> 10" using Cons.prems(2) newline_iff [of x] by auto
  with 1(1) Cons.IH [OF 1(2), of "p @ [x]"] Cons.prems(2) show ?case by (simp add: EOF_def)
qed

lemma get_line_end:
  assumes "gives xs s w" "CHR 0x0A \<notin> set xs" "length xs < n"
  shows "\<exists>s' w'. get_line fill n p s w = Some (if p @ xs = [] then None else Some (p @ xs), s', w') \<and> ended s' w'"
  using assms
proof (induction xs arbitrary: n p s w)
  case Nil
  obtain m where n: "n = Suc m" using Nil.prems(3) by (cases n) auto
  obtain s' w' where "FCGX_GetChar fill s w = Some (EOF, s', w')" "ended s' w'"
    using GetChar_end [of s w] Nil.prems(1) by auto
  then show ?case by (simp add: n)
next
  case (Cons x xs)
  obtain m where n: "n = Suc m" using Cons.prems(3) by (cases n) auto
  obtain s1 w1 where 1: "FCGX_GetChar fill s w = Some (int (ord x), s1, w1)" "gives xs s1 w1"
    using GetChar_more [of x xs s w] Cons.prems(1) by auto
  have "ord x \<noteq> 10" using Cons.prems(2) newline_iff [of x] by auto
  with 1(1) Cons.IH [OF 1(2), of m "p @ [x]"] Cons.prems(2,3) show ?case by (simp add: n EOF_def)
qed

end

section \<open>Sources\<close>

text \<open>A stream that can be read, at the content \<open>X\<close> and the padding of a record, with \<open>R\<close> behind it.\<close>

definition source_ok :: "int \<Rightarrow> FCGX_Stream \<Rightarrow> bool" where
  "source_ok t s \<longleftrightarrow> bufok s \<and> s_isReader s \<and> \<not> s_isClosed s \<and> s_errno s = 0 \<and> \<not> d_skip s \<and> d_type s = t \<and>
     s_rdNext s \<le> s_stop s \<and> s_stop s \<le> d_buffStop s"

definition in_record :: "FCGX_Stream \<Rightarrow> fcgx_conn \<Rightarrow> bytes \<Rightarrow> bytes \<Rightarrow> bytes \<Rightarrow> bool" where
  "in_record s w X pad R \<longleftrightarrow> d_contentLen s = length X \<and> d_paddingLen s = length pad \<and>
     to_read s w = offered s @ X @ pad @ R"

definition source_end :: "int \<Rightarrow> bool \<Rightarrow> bytes \<Rightarrow> FCGX_Stream \<Rightarrow> fcgx_conn \<Rightarrow> bool" where
  "source_end t eor R s w \<longleftrightarrow> bufok s \<and> s_isReader s \<and> s_isClosed s \<and> s_errno s = 0 \<and> \<not> d_skip s \<and> d_type s = t \<and>
     d_eorStop s = eor \<and> d_contentLen s = 0 \<and> d_paddingLen s = 0 \<and> to_read s w = R"

lemma offered_advance:
  assumes "n \<le> s_stop s - s_rdNext s"
  shows "offered (s\<lparr>s_rdNext := s_rdNext s + n\<rparr>) = drop n (offered s)"
  using assms by (simp add: offered_def drop_take add.commute)

lemma offered_none [simp]: "s_rdNext s = s_stop s \<Longrightarrow> offered s = []"
  by (simp add: offered_def)

lemma offered_update [simp]: "offered (s\<lparr>s_stopUnget := k\<rparr>) = offered s"
  by (simp add: offered_def)

lemma source_offers:
  assumes "source_ok t s" "xs = offered s @ ys"
  shows "\<not> s_isClosed s \<and> s_isReader s \<and> s_rdNext s \<le> s_stop s \<and> s_stop s \<le> length (d_buff s) \<and>
    take (s_stop s - s_rdNext s) xs = offered s"
proof -
  have "s_stop s \<le> length (d_buff s)" using assms(1) by (simp add: source_ok_def bufok_def)
  moreover from this have "length (offered s) = s_stop s - s_rdNext s" by (auto simp: offered_def)
  ultimately show ?thesis using assms by (simp add: source_ok_def)
qed

lemma source_advance:
  assumes "source_ok t s" "in_record s w X pad R" "n \<le> s_stop s - s_rdNext s"
  shows "source_ok t (s\<lparr>s_rdNext := s_rdNext s + n\<rparr>)" "in_record (s\<lparr>s_rdNext := s_rdNext s + n\<rparr>) w X pad R"
    "drop n (offered s @ ys) = offered (s\<lparr>s_rdNext := s_rdNext s + n\<rparr>) @ ys"
proof -
  have b: "bufok s" "s_stop s \<le> d_buffStop s" "s_rdNext s \<le> s_stop s" using assms(1) by (simp_all add: source_ok_def)
  have le: "n \<le> d_buffStop s - s_rdNext s" using b(2) assms(3) by linarith
  show 1: "source_ok t (s\<lparr>s_rdNext := s_rdNext s + n\<rparr>)"
    using assms(1,3) by (auto simp: source_ok_def bufok_def)
  have "s_stop s \<le> length (d_buff s)" using b(1,2) by (simp add: bufok_def)
  then have "length (offered s) = s_stop s - s_rdNext s" by (auto simp: offered_def)
  then have d: "drop n (offered s @ zs) = offered (s\<lparr>s_rdNext := s_rdNext s + n\<rparr>) @ zs" for zs
    using assms(3) offered_advance [OF assms(3)] by simp
  then show "drop n (offered s @ ys) = offered (s\<lparr>s_rdNext := s_rdNext s + n\<rparr>) @ ys" .
  show "in_record (s\<lparr>s_rdNext := s_rdNext s + n\<rparr>) w X pad R"
    using assms(2) unfolding in_record_def to_read_advance [OF b(1) le] by (simp add: d [symmetric] del: drop_append)
qed

text \<open>The content of the record is delivered piece by piece.\<close>

lemma source_delivers:
  assumes "reads_ok rd" "bufok s" "s_isReader s" "\<not> s_isClosed s" "s_errno s = 0" "\<not> d_skip s" "d_type s = t"
    "d_contentLen s = length X" "d_paddingLen s = length pad" "X \<noteq> []" "to_read s w = X @ pad @ R"
  shows "\<exists>s' w' Y. fill_loop rd process h s w = Some (s', w') \<and> source_ok t s' \<and> d_eorStop s' = d_eorStop s \<and>
    same_conn w w' \<and> in_record s' w' Y pad R \<and> X = offered s' @ Y \<and> s_rdNext s' \<noteq> s_stop s'"
proof -
  obtain s1 w1 n where f: "fill_loop rd process h s w =
      Some (s1\<lparr>d_contentLen := length (drop n X), s_wrNext := s_rdNext s1 + n, s_stop := s_rdNext s1 + n\<rparr>, w1)"
    and m: "moved s w (X @ pad @ R) s1 w1" and n: "0 < n" "n \<le> length X" "n \<le> d_buffStop s1 - s_rdNext s1"
    using fill_delivers [OF assms(1,2,8,10,6,11), of process h] by (elim exE conjE) (rule that)
  note s1 = moved_facts [OF m]
  let ?s = "s1\<lparr>d_contentLen := length (drop n X), s_wrNext := s_rdNext s1 + n, s_stop := s_rdNext s1 + n\<rparr>"
  have "offered ?s = offered (s1\<lparr>s_stop := s_rdNext s1 + n\<rparr>)" by (simp add: offered_def)
  also have "\<dots> = take n (to_read s1 w1)" by (rule offered_to_read [OF n(3) s1(1)])
  finally have o: "offered ?s = take n X" using s1(2) n(2) by simp
  have "s_rdNext s1 \<le> d_buffStop s1" using s1(1) by (simp add: bufok_def)
  then have "source_ok t ?s" using s1 assms(3-7) n by (simp add: source_ok_def)
  moreover have "in_record ?s w1 (drop n X) pad R"
    unfolding in_record_def o using s1 assms(9) by simp
  moreover have "X = offered ?s @ drop n X" unfolding o by simp
  moreover have "s_rdNext ?s \<noteq> s_stop ?s" "d_eorStop ?s = d_eorStop s" using n(1) s1 by simp_all
  ultimately show ?thesis using f s1(3) by (intro exI conjI)
qed

text \<open>The body of one record, while its header is being processed.\<close>

definition body_gives :: "(nat \<Rightarrow> nat \<Rightarrow> int) \<Rightarrow> int \<Rightarrow> fcgx_conn \<Rightarrow> bytes \<Rightarrow> bytes \<Rightarrow> bytes \<Rightarrow> FCGX_Stream \<Rightarrow> fcgx_conn \<Rightarrow> bool" where
  "body_gives rd t w0 pad R xs s w \<longleftrightarrow> reads_ok rd \<and> source_ok t s \<and> d_eorStop s \<and> same_conn w0 w \<and>
     (\<exists>X. in_record s w X pad R \<and> xs = offered s @ X)"

text \<open>
  Before it finds the end of a record that has no padding, the loop fills an empty buffer; if
  nothing comes, the stream ends with an error.
\<close>

definition body_ended :: "int \<Rightarrow> fcgx_conn \<Rightarrow> bytes \<Rightarrow> bytes \<Rightarrow> FCGX_Stream \<Rightarrow> fcgx_conn \<Rightarrow> bool" where
  "body_ended t w0 pad R s w \<longleftrightarrow> same_conn w0 w \<and>
     (if pad @ R = [] then s_isClosed s \<and> s_errno s = FCGX_PROTOCOL_ERROR else source_end t True R s w)"

lemma fill_starves:
  assumes "bufok s" "to_read s w = []" "s_errno s = 0"
  shows "\<exists>w'. fill_loop rd process h s w = Some (SetError s (if rd (w_reads w) (d_bufflen s) < 0 then - rd (w_reads w) (d_bufflen s)
      else FCGX_PROTOCOL_ERROR), w') \<and> same_conn w w'"
proof -
  have e: "s_rdNext s = d_buffStop s" "w_unread w = []" using assms(1,2) by (auto simp: to_read_def bufok_def)
  let ?r = "rd (w_reads w) (d_bufflen s)"
  let ?w = "w\<lparr>w_unread := [], w_reads := Suc (w_reads w)\<rparr>"
  have "w\<lparr>w_reads := Suc (w_reads w)\<rparr> = ?w" using e(2) by (intro fcgx_conn.equality) simp_all
  then have "OS_Read rd (d_bufflen s) w = ((if ?r < 0 then ?r else 0), [], ?w)"
    using e(2) by (simp add: OS_Read_def Let_def)
  then have "fill_input rd s w = Some (False, SetError s (if ?r < 0 then - ?r else FCGX_PROTOCOL_ERROR), ?w)"
    using e(1) by (simp add: fill_input_def)
  then have "fill_loop rd process h s w = Some (SetError s (if ?r < 0 then - ?r else FCGX_PROTOCOL_ERROR), ?w)"
    by (subst fill_loop.simps) simp
  moreover have "same_conn w ?w" by (rule same_connI [OF refl])
  ultimately show ?thesis by blast
qed

lemma body_refill:
  assumes "body_gives rd t w0 pad R xs s w" "s_rdNext s = s_stop s"
  shows "\<exists>s' w'. FillBuffProc_eor rd s w = Some (s', w') \<and>
    (if xs = [] then body_ended t w0 pad R s' w' else body_gives rd t w0 pad R xs s' w' \<and> s_rdNext s' \<noteq> s_stop s')"
proof -
  obtain X where r: "reads_ok rd" "source_ok t s" "d_eorStop s" "same_conn w0 w" "in_record s w X pad R" "xs = X"
    using assms by (auto simp: body_gives_def)
  have i: "d_contentLen s = length X" "d_paddingLen s = length pad" "to_read s w = X @ pad @ R"
    using r(5) assms(2) by (simp_all add: in_record_def)
  have s: "bufok s" "s_isReader s" "\<not> s_isClosed s" "s_errno s = 0" "\<not> d_skip s" "d_type s = t"
    using r(2) by (simp_all add: source_ok_def)
  show ?thesis
  proof (cases "X = []")
    case True
    have e: "d_contentLen s = 0" "to_read s w = pad @ R" using i(1,3) True by simp_all
    show ?thesis
    proof (cases "pad @ R = []")
      case starved: True
      then have "to_read s w = []" using e(2) by simp
      from fill_starves [OF s(1) this s(4), of rd "\<lambda>_ _ _. None" "[]"] obtain w' where
        f: "FillBuffProc_eor rd s w = Some (SetError s (if rd (w_reads w) (d_bufflen s) < 0 then - rd (w_reads w) (d_bufflen s)
          else FCGX_PROTOCOL_ERROR), w')" "same_conn w w'"
        unfolding FillBuffProc_eor_def [symmetric] by (elim exE conjE) (rule that)
      have "0 < rd (w_reads w) (d_bufflen s)" using r(1) s(1) by (simp add: reads_ok_def bufok_def)
      then have "FillBuffProc_eor rd s w = Some (SetError s FCGX_PROTOCOL_ERROR, w')" using f(1) by simp
      moreover have "body_ended t w0 pad R (SetError s FCGX_PROTOCOL_ERROR) w'"
        using starved same_conn_trans [OF r(4) f(2)] s(4) by (simp add: body_ended_def SetError_def)
      ultimately show ?thesis using True r(6) by simp
    next
      case more: False
      obtain s' w' where f: "FillBuffProc_eor rd s w = Some (s'\<lparr>s_stop := s_rdNext s', s_isClosed := True\<rparr>, w')"
        "moved (s\<lparr>d_paddingLen := 0\<rparr>) w R s' w'"
        using fill_ends_record [OF r(1) s(1) e(1) r(3) i(2) e(2) more, of "\<lambda>_ _ _. None" "[]"]
        unfolding FillBuffProc_eor_def [symmetric] by (elim exE conjE) (rule that)
      note m = moved_facts [OF f(2)]
      have "body_ended t w0 pad R (s'\<lparr>s_stop := s_rdNext s', s_isClosed := True\<rparr>) w'"
        using m s r(3) e more same_conn_trans [OF r(4) m(3)] by (auto simp: body_ended_def source_end_def)
      with f(1) True r(6) show ?thesis by simp
    qed
  next
    case False
    obtain s' w' Y where d: "FillBuffProc_eor rd s w = Some (s', w')" "source_ok t s'" "d_eorStop s' = d_eorStop s"
      "same_conn w w'" "in_record s' w' Y pad R" "X = offered s' @ Y" "s_rdNext s' \<noteq> s_stop s'"
      using source_delivers [OF r(1) s i(1,2) False i(3), of "\<lambda>_ _ _. None" "[]"] unfolding FillBuffProc_eor_def [symmetric] by (elim exE conjE) (rule that)
    have "body_gives rd t w0 pad R xs s' w'"
      unfolding body_gives_def r(6) using d r(1,3) same_conn_trans [OF r(4) d(4)] by (intro conjI exI) simp_all
    with d(1,7) False r(6) show ?thesis by simp
  qed
qed

interpretation body: byte_source "FillBuffProc_eor rd" "body_gives rd t w0 pad R" "body_ended t w0 pad R" for rd t w0 pad R
proof unfold_locales
  fix xs s w
  assume g: "body_gives rd t w0 pad R xs s w"
  then obtain X where r: "source_ok t s" "in_record s w X pad R" "xs = offered s @ X" by (auto simp: body_gives_def)
  show "\<not> s_isClosed s \<and> s_isReader s \<and> s_rdNext s \<le> s_stop s \<and> s_stop s \<le> length (d_buff s) \<and>
      take (s_stop s - s_rdNext s) xs = offered s" by (rule source_offers [OF r(1,3)])
  show "body_gives rd t w0 pad R (drop n xs) (s\<lparr>s_rdNext := s_rdNext s + n\<rparr>) w" if "n \<le> s_stop s - s_rdNext s" for n
    using g source_advance [OF r(1,2) that] r(3) unfolding body_gives_def by auto
  show "body_gives rd t w0 pad R xs (s\<lparr>s_stopUnget := k\<rparr>) w" for k
    using g by (simp add: body_gives_def source_ok_def in_record_def)
  show "\<exists>s' w'. FillBuffProc_eor rd s w = Some (s', w') \<and>
      (if xs = [] then body_ended t w0 pad R s' w' else body_gives rd t w0 pad R xs s' w' \<and> s_rdNext s' \<noteq> s_stop s')"
    if "s_rdNext s = s_stop s" by (rule body_refill [OF g that])
qed (auto simp: body_ended_def source_end_def split: if_splits)

section \<open>Streams of records\<close>

text \<open>Records as they come on a connection: type, request id, content and length of the padding.\<close>

type_synonym wire_record = "nat \<times> nat \<times> bytes \<times> nat"

definition wire :: "wire_record list \<Rightarrow> bytes" where
  "wire rs = concat (map (\<lambda>(t, rid, c, pad). enc_record t rid c pad) rs)"

text \<open>The contents that belong to a request.\<close>

definition own :: "nat \<Rightarrow> wire_record list \<Rightarrow> bytes" where
  "own rid rs = concat (map (\<lambda>(t, r, c, pad). if r = rid then c else []) rs)"

text \<open>A record with content, of the stream \<open>t\<close> of the request or of another request.\<close>

definition rec_fine :: "nat \<Rightarrow> nat \<Rightarrow> wire_record \<Rightarrow> bool" where
  "rec_fine t rid = (\<lambda>(t', r, c, pad). chunk_ok c \<and> pad < 256 \<and> t' < 256 \<and> t' \<noteq> 1 \<and> 0 < r \<and> r < 65536 \<and>
     (r = rid \<longrightarrow> t' = t))"

definition hdr8 :: "nat \<Rightarrow> nat \<Rightarrow> nat \<Rightarrow> nat \<Rightarrow> bytes" where
  "hdr8 t rid n pad = [char_of (1::nat), char_of t, char_of (rid div 256), char_of rid,
     char_of (n div 256), char_of n, char_of pad, NUL]"

lemma enc_record_hdr8: "enc_record t rid c pad = hdr8 t rid (length c) pad @ c @ replicate pad NUL"
  by (simp add: enc_record_def hdr8_def)

lemma length_hdr8 [simp]: "length (hdr8 t rid n pad) = 8"
  by (simp add: hdr8_def)

lemma two_bytes:
  assumes "n < 65536"
  shows "push_bit 8 (int (n div 256)) + int (n mod 256) = int n"
proof -
  have "int (n div 256 * 256 + n mod 256) = int n" by (simp only: div_mult_mod_eq)
  then show ?thesis by (simp only: of_nat_add of_nat_mult push_bit_eq_mult) simp
qed

lemma header_of_hdr8:
  assumes "t < 256" "rid < 65536" "n < 65536" "pad < 256"
  shows "version (header_of (hdr8 t rid n pad)) = 1"
    "uint (hd_type (header_of (hdr8 t rid n pad))) = int t"
    "push_bit 8 (uint (requestIdB1 (header_of (hdr8 t rid n pad)))) + uint (requestIdB0 (header_of (hdr8 t rid n pad))) = int rid"
    "nat (push_bit 8 (uint (contentLengthB1 (header_of (hdr8 t rid n pad)))) + uint (contentLengthB0 (header_of (hdr8 t rid n pad)))) = n"
    "unat (paddingLength (header_of (hdr8 t rid n pad))) = pad"
proof -
  have u: "uint (of_char c :: u8) = int (ord c)" for c by (simp add: uint_nat)
  have "unat (of_char (char_of (1 :: nat) :: char) :: u8) = unat (1 :: u8)" by simp
  then have one: "of_char (char_of (Suc 0) :: char) = (1 :: u8)" by (simp only: word_unat_eq_iff [symmetric] One_nat_def)
  have "rid div 256 < 256" "n div 256 < 256" using assms by simp_all
  then show "version (header_of (hdr8 t rid n pad)) = 1"
    "uint (hd_type (header_of (hdr8 t rid n pad))) = int t"
    "push_bit 8 (uint (requestIdB1 (header_of (hdr8 t rid n pad)))) + uint (requestIdB0 (header_of (hdr8 t rid n pad))) = int rid"
    "nat (push_bit 8 (uint (contentLengthB1 (header_of (hdr8 t rid n pad)))) + uint (contentLengthB0 (header_of (hdr8 t rid n pad)))) = n"
    "unat (paddingLength (header_of (hdr8 t rid n pad))) = pad"
    using assms two_bytes [of rid] two_bytes [of n] by (simp_all add: header_of_def hdr8_def u one)
qed

lemma process_own:
  assumes "t < 256" "t \<noteq> 1" "0 < rid" "rid < 65536" "n < 65536" "pad < 256" "rq_requestId w = int rid" "d_type s = int t"
  shows "ProcessHeader rd wr (header_of (hdr8 t rid n pad)) s w =
    Some (STREAM_RECORD, s\<lparr>d_contentLen := n, d_paddingLen := pad\<rparr>, w)"
  using header_of_hdr8 [OF assms(1,4-6)] assms
  by (simp add: ProcessHeader_def Let_def FCGI_BEGIN_REQUEST_def FCGI_NULL_REQUEST_ID_def)

lemma process_other:
  assumes "t < 256" "t \<noteq> 1" "0 < r" "r < 65536" "n < 65536" "pad < 256" "rq_requestId w = int rid" "r \<noteq> rid"
  shows "ProcessHeader rd wr (header_of (hdr8 t r n pad)) s w =
    Some (SKIP, s\<lparr>d_contentLen := n, d_paddingLen := pad\<rparr>, w)"
  using header_of_hdr8 [OF assms(1,4-6)] assms
  by (simp add: ProcessHeader_def Let_def FCGI_BEGIN_REQUEST_def FCGI_NULL_REQUEST_ID_def)

definition stream_of :: "nat \<Rightarrow> nat \<Rightarrow> fcgx_conn \<Rightarrow> bool" where
  "stream_of t rid w0 \<longleftrightarrow> t < 256 \<and> t \<noteq> 1 \<and> 0 < rid \<and> rid < 65536 \<and> rq_requestId w0 = int rid"

definition stream_gives :: "(nat \<Rightarrow> nat \<Rightarrow> int) \<Rightarrow> nat \<Rightarrow> nat \<Rightarrow> fcgx_conn \<Rightarrow> bytes \<Rightarrow> bytes \<Rightarrow> FCGX_Stream \<Rightarrow> fcgx_conn \<Rightarrow> bool" where
  "stream_gives rd t rid w0 tail xs s w \<longleftrightarrow> reads_ok rd \<and> stream_of t rid w0 \<and> source_ok (int t) s \<and> \<not> d_eorStop s \<and>
     same_conn w0 w \<and> (\<exists>X pad rs. list_all (rec_fine t rid) rs \<and>
       in_record s w X pad (wire rs @ enc_record t rid [] 0 @ tail) \<and> xs = offered s @ X @ own rid rs)"

definition stream_ended :: "nat \<Rightarrow> fcgx_conn \<Rightarrow> bytes \<Rightarrow> FCGX_Stream \<Rightarrow> fcgx_conn \<Rightarrow> bool" where
  "stream_ended t w0 tail s w \<longleftrightarrow> same_conn w0 w \<and> source_end (int t) False tail s w"

text \<open>A stream between two records.\<close>

definition at_record :: "nat \<Rightarrow> FCGX_Stream \<Rightarrow> bool" where
  "at_record t s \<longleftrightarrow> bufok s \<and> s_isReader s \<and> \<not> s_isClosed s \<and> s_errno s = 0 \<and> \<not> d_skip s \<and> d_type s = int t \<and>
     \<not> d_eorStop s \<and> d_contentLen s = 0 \<and> d_paddingLen s = 0"

lemma moved_at_record:
  "moved s w R s' w' \<Longrightarrow> at_record t s \<Longrightarrow> at_record t s' \<and> to_read s' w' = R \<and> same_conn w w'"
  using moved_facts [of s w R s' w'] by (simp add: at_record_def)

text \<open>The header of the next record has been read and interpreted.\<close>

lemma fill_next_header:
  assumes "reads_ok rd" "at_record t s" "to_read s w = hdr8 t' r n pad @ R"
  shows "\<exists>s' w'. fill_loop rd process [] s w =
      Option.bind (process (header_of (hdr8 t' r n pad)) (s'\<lparr>d_eorStop := True, s_stop := s_rdNext s'\<rparr>) w') (after_header rd process) \<and>
    at_record t s' \<and> to_read s' w' = R \<and> same_conn w w'"
proof -
  have a: "bufok s" "d_contentLen s = 0" "d_paddingLen s = 0" "\<not> d_eorStop s" using assms(2) by (simp_all add: at_record_def)
  have h: "hdr8 t' r n pad \<noteq> []" "length ([] :: bytes) + length (hdr8 t' r n pad) = 8" by (simp_all add: hdr8_def)
  obtain s' w' where "fill_loop rd process [] s w =
      Option.bind (process (header_of ([] @ hdr8 t' r n pad)) (s'\<lparr>d_eorStop := True, s_stop := s_rdNext s'\<rparr>) w') (after_header rd process)"
    "moved s w R s' w'"
    using fill_gets_header [OF assms(1) a assms(3) h, of process] by (elim exE conjE) (rule that)
  moreover from moved_at_record [OF this(2) assms(2)] have "at_record t s'" "to_read s' w' = R" "same_conn w w'" by simp_all
  ultimately show ?thesis unfolding append_Nil by (intro exI conjI)
qed

lemma fill_records:
  assumes "reads_ok rd" "stream_of t rid w0" "list_all (rec_fine t rid) rs" "at_record t s"
    "to_read s w = wire rs @ enc_record t rid [] 0 @ tail" "same_conn w0 w"
  shows "\<exists>s' w'. FillBuffProc rd wr s w = Some (s', w') \<and>
    (if own rid rs = [] then stream_ended t w0 tail s' w'
     else stream_gives rd t rid w0 tail (own rid rs) s' w' \<and> s_rdNext s' \<noteq> s_stop s')"
  using assms(3-)
proof (induction rs arbitrary: s w)
  case Nil
  have b: "t < 256" "t \<noteq> 1" "0 < rid" "rid < 65536" "(0::nat) < 65536" "(0::nat) < 256" "rq_requestId w0 = int rid"
    using assms(2) by (simp_all add: stream_of_def)
  have "to_read s w = hdr8 t rid 0 0 @ tail" using Nil.prems(3) by (simp add: wire_def enc_record_hdr8)
  from fill_next_header [OF assms(1) Nil.prems(2) this, of "ProcessHeader rd wr"] obtain s1 w1 where
    f: "FillBuffProc rd wr s w = Option.bind (ProcessHeader rd wr (header_of (hdr8 t rid 0 0))
      (s1\<lparr>d_eorStop := True, s_stop := s_rdNext s1\<rparr>) w1) (after_header rd (ProcessHeader rd wr))"
    and a: "at_record t s1" "to_read s1 w1 = tail" "same_conn w w1"
    unfolding FillBuffProc_def [symmetric] by (elim exE conjE) (rule that)
  have c: "same_conn w0 w1" by (rule same_conn_trans [OF Nil.prems(4) a(3)])
  have q: "rq_requestId w1 = int rid" using same_conn_fields(1) [OF c] b(7) by simp
  let ?s1 = "s1\<lparr>d_eorStop := True, s_stop := s_rdNext s1\<rparr>"
  let ?s2 = "s1\<lparr>d_eorStop := False, s_stop := s_rdNext s1, d_contentLen := 0, d_paddingLen := 0,
      s_wrNext := s_rdNext s1, s_isClosed := True\<rparr>"
  have "d_type ?s1 = int t" using a(1) by (simp add: at_record_def)
  from process_own [OF b(1-6) q this] f have "FillBuffProc rd wr s w = Some (?s2, w1)"
    by (simp add: after_header_def Let_def fill_status)
  moreover have "stream_ended t w0 tail ?s2 w1"
    using a c by (simp add: stream_ended_def source_end_def at_record_def)
  ultimately show ?case by (simp add: own_def)
next
  case (Cons r rs)
  obtain t' r' c pad where r: "r = (t', r', c, pad)" by (cases r)
  have fine: "chunk_ok c" "pad < 256" "t' < 256" "t' \<noteq> 1" "0 < r'" "r' < 65536" "r' = rid \<longrightarrow> t' = t"
    "list_all (rec_fine t rid) rs" using Cons.prems(1) by (simp_all add: r rec_fine_def)
  have c: "c \<noteq> []" "length c < 65536" using fine(1) by (simp_all add: chunk_ok_def)
  let ?R = "wire rs @ enc_record t rid [] 0 @ tail"
  have ne: "?R \<noteq> []" by (simp add: enc_record_def)
  have "to_read s w = hdr8 t' r' (length c) pad @ c @ replicate pad NUL @ ?R"
    using Cons.prems(3) by (simp add: wire_def r enc_record_hdr8)
  from fill_next_header [OF assms(1) Cons.prems(2) this, of "ProcessHeader rd wr"] obtain s1 w1 where
    f: "FillBuffProc rd wr s w = Option.bind (ProcessHeader rd wr (header_of (hdr8 t' r' (length c) pad))
      (s1\<lparr>d_eorStop := True, s_stop := s_rdNext s1\<rparr>) w1) (after_header rd (ProcessHeader rd wr))"
    and a: "at_record t s1" "to_read s1 w1 = c @ replicate pad NUL @ ?R" "same_conn w w1"
    unfolding FillBuffProc_def [symmetric] by (elim exE conjE) (rule that)
  have cn: "same_conn w0 w1" by (rule same_conn_trans [OF Cons.prems(4) a(3)])
  have q: "rq_requestId w1 = int rid" using same_conn_fields(1) [OF cn] assms(2) by (simp add: stream_of_def)
  let ?s1 = "s1\<lparr>d_eorStop := True, s_stop := s_rdNext s1\<rparr>"
  let ?s2 = "s1\<lparr>s_stop := s_rdNext s1, d_contentLen := length c, d_paddingLen := pad, d_eorStop := False, s_isClosed := False\<rparr>"
  have s2: "bufok ?s2" "s_isReader ?s2" "\<not> s_isClosed ?s2" "s_errno ?s2 = 0" "\<not> d_skip ?s2" "d_type ?s2 = int t"
    "d_contentLen ?s2 = length c" "d_paddingLen ?s2 = length (replicate pad NUL)" "\<not> d_eorStop ?s2"
    "to_read ?s2 w1 = c @ replicate pad NUL @ ?R" using a(1,2) by (simp_all add: at_record_def)
  show ?case
  proof (cases "r' = rid")
    case True
    have ty: "d_type ?s1 = int t'" using a(1) True fine(7) by (simp add: at_record_def)
    have e: "FillBuffProc rd wr s w = fill_loop rd (ProcessHeader rd wr) [] ?s2 w1"
      using f process_own [OF fine(3-6) c(2) fine(2) _ ty, of w1 rd wr] q True c(1)
      by (simp add: after_header_def Let_def fill_status)
    obtain s' w' Y where d: "fill_loop rd (ProcessHeader rd wr) [] ?s2 w1 = Some (s', w')" "source_ok (int t) s'"
      "d_eorStop s' = d_eorStop ?s2" "same_conn w1 w'" "in_record s' w' Y (replicate pad NUL) ?R" "c = offered s' @ Y"
      "s_rdNext s' \<noteq> s_stop s'"
      using source_delivers [OF assms(1) s2(1-8) c(1) s2(10), of "ProcessHeader rd wr" "[]"] by (elim exE conjE) (rule that)
    have g: "stream_gives rd t rid w0 tail (c @ own rid rs) s' w'"
      unfolding stream_gives_def
    proof (intro conjI exI)
      show "in_record s' w' Y (replicate pad NUL) ?R" by (rule d(5))
    qed (use assms(1,2) d(2,3,6) fine(8) same_conn_trans [OF cn d(4)] in simp_all)
    have o: "own rid (r # rs) = c @ own rid rs" using True by (simp add: own_def r)
    have "own rid (r # rs) \<noteq> []" using o c(1) by simp
    moreover have "FillBuffProc rd wr s w = Some (s', w')" unfolding e by (rule d(1))
    ultimately show ?thesis using g d(7) unfolding o by (intro exI [of _ s'] exI [of _ w']) (simp only: if_False simp_thms)
  next
    case False
    let ?s3 = "?s2\<lparr>d_skip := True\<rparr>"
    have s3: "bufok ?s3" "d_contentLen ?s3 = length c" "d_skip ?s3" "\<not> d_eorStop ?s3"
      "d_paddingLen ?s3 = length (replicate pad NUL)" "to_read ?s3 w1 = c @ replicate pad NUL @ ?R"
      using s2 by simp_all
    have e: "FillBuffProc rd wr s w = fill_loop rd (ProcessHeader rd wr) [] ?s3 w1"
      using f process_other [OF fine(3-6) c(2) fine(2) q False] by (simp add: after_header_def Let_def fill_status)
    have z: "length ([] :: bytes) < 8" by simp
    obtain s4 w4 where k: "fill_loop rd (ProcessHeader rd wr) [] ?s3 w1 = fill_loop rd (ProcessHeader rd wr) [] s4 w4"
      "moved (?s3\<lparr>d_contentLen := 0, d_skip := False, d_paddingLen := 0\<rparr>) w1 ?R s4 w4"
      using fill_skip_record [OF assms(1) s3(1,2) c(1) s3(3-6) ne z, of "ProcessHeader rd wr"] by (elim exE conjE) (rule that)
    have "at_record t (?s3\<lparr>d_contentLen := 0, d_skip := False, d_paddingLen := 0\<rparr>)" using a(1) by (simp add: at_record_def)
    note m = moved_at_record [OF k(2) this]
    have "FillBuffProc rd wr s w = FillBuffProc rd wr s4 w4"
      unfolding FillBuffProc_def [of rd wr s4] k(1) [symmetric] by (rule e)
    moreover have "own rid (r # rs) = own rid rs" using False by (simp add: own_def r)
    ultimately show ?thesis
      using Cons.IH [OF fine(8), of s4 w4] m same_conn_trans [OF cn, of w4] by (simp only: simp_thms)
  qed
qed

lemma stream_refill:
  assumes "stream_gives rd t rid w0 tail xs s w" "s_rdNext s = s_stop s"
  shows "\<exists>s' w'. FillBuffProc rd wr s w = Some (s', w') \<and>
    (if xs = [] then stream_ended t w0 tail s' w' else stream_gives rd t rid w0 tail xs s' w' \<and> s_rdNext s' \<noteq> s_stop s')"
proof -
  obtain X pad rs where r: "reads_ok rd" "stream_of t rid w0" "source_ok (int t) s" "\<not> d_eorStop s" "same_conn w0 w"
    "list_all (rec_fine t rid) rs" "in_record s w X pad (wire rs @ enc_record t rid [] 0 @ tail)" "xs = X @ own rid rs"
    using assms by (auto simp: stream_gives_def)
  let ?R = "wire rs @ enc_record t rid [] 0 @ tail"
  have i: "d_contentLen s = length X" "d_paddingLen s = length pad" "to_read s w = X @ pad @ ?R"
    using r(7) assms(2) by (simp_all add: in_record_def)
  have s: "bufok s" "s_isReader s" "\<not> s_isClosed s" "s_errno s = 0" "\<not> d_skip s" "d_type s = int t"
    using r(3) by (simp_all add: source_ok_def)
  show ?thesis
  proof (cases "X = []")
    case True
    have e: "d_contentLen s = 0" "to_read s w = pad @ ?R" "?R \<noteq> []" "length ([] :: bytes) < 8"
      using i(1,3) True by (simp_all add: enc_record_def)
    obtain s1 w1 where p: "fill_loop rd (ProcessHeader rd wr) [] s w = fill_loop rd (ProcessHeader rd wr) [] s1 w1"
      "moved (s\<lparr>d_paddingLen := 0\<rparr>) w ?R s1 w1"
      using fill_pad [OF r(1) s(1) e(1) s(5) r(4) i(2) e(2-4), of "ProcessHeader rd wr"] by (elim exE conjE) (rule that)
    have "at_record t (s\<lparr>d_paddingLen := 0\<rparr>)" using s r(4) e(1) by (simp add: at_record_def)
    note m = moved_at_record [OF p(2) this]
    have "FillBuffProc rd wr s w = FillBuffProc rd wr s1 w1" unfolding p(1) FillBuffProc_def ..
    moreover have "xs = own rid rs" using True r(8) by simp
    ultimately show ?thesis
      using fill_records [OF r(1,2,6), of s1 w1 tail wr] m same_conn_trans [OF r(5), of w1] by (simp only: simp_thms)
  next
    case False
    obtain s' w' Y where d: "FillBuffProc rd wr s w = Some (s', w')" "source_ok (int t) s'"
      "d_eorStop s' = d_eorStop s" "same_conn w w'" "in_record s' w' Y pad ?R" "X = offered s' @ Y"
      "s_rdNext s' \<noteq> s_stop s'"
      using source_delivers [OF r(1) s i(1,2) False i(3), of "ProcessHeader rd wr" "[]"]
      unfolding FillBuffProc_def [symmetric] by (elim exE conjE) (rule that)
    have "stream_gives rd t rid w0 tail xs s' w'"
      unfolding stream_gives_def
    proof (intro conjI exI)
      show "in_record s' w' Y pad ?R" by (rule d(5))
      show "xs = offered s' @ Y @ own rid rs" using r(8) d(6) by simp
    qed (use r(1,2,4,6) d(2,3) same_conn_trans [OF r(5) d(4)] in simp_all)
    moreover have "xs \<noteq> []" using False r(8) by simp
    ultimately show ?thesis using d(1,7) by (intro exI [of _ s'] exI [of _ w']) (simp only: if_False simp_thms)
  qed
qed

interpretation stream: byte_source "FillBuffProc rd wr" "stream_gives rd t rid w0 tail" "stream_ended t w0 tail"
  for rd wr t rid w0 tail
proof unfold_locales
  fix xs s w
  assume g: "stream_gives rd t rid w0 tail xs s w"
  then obtain X pad rs where r: "source_ok (int t) s" "in_record s w X pad (wire rs @ enc_record t rid [] 0 @ tail)"
    "list_all (rec_fine t rid) rs" "xs = offered s @ X @ own rid rs" by (auto simp: stream_gives_def)
  show "\<not> s_isClosed s \<and> s_isReader s \<and> s_rdNext s \<le> s_stop s \<and> s_stop s \<le> length (d_buff s) \<and>
      take (s_stop s - s_rdNext s) xs = offered s" by (rule source_offers [OF r(1,4)])
  show "stream_gives rd t rid w0 tail (drop n xs) (s\<lparr>s_rdNext := s_rdNext s + n\<rparr>) w" if "n \<le> s_stop s - s_rdNext s" for n
  proof -
    note a = source_advance [OF r(1,2) that]
    have "drop n xs = offered (s\<lparr>s_rdNext := s_rdNext s + n\<rparr>) @ X @ own rid rs" unfolding r(4) by (rule a(3))
    with g a(1,2) r(3) show ?thesis unfolding stream_gives_def by auto
  qed
  show "stream_gives rd t rid w0 tail xs (s\<lparr>s_stopUnget := k\<rparr>) w" for k
    using g by (simp add: stream_gives_def source_ok_def in_record_def)
  show "\<exists>s' w'. FillBuffProc rd wr s w = Some (s', w') \<and>
      (if xs = [] then stream_ended t w0 tail s' w' else stream_gives rd t rid w0 tail xs s' w' \<and> s_rdNext s' \<noteq> s_stop s')"
    if "s_rdNext s = s_stop s" by (rule stream_refill [OF g that])
qed (simp add: stream_ended_def source_end_def)

end
