(* ===== verification/Fcgiapp_Request.thy ===== *)
theory Fcgiapp_Request
  imports Fcgiapp_Source
begin

unbundle bit_operations_syntax

text \<open>
  The life of a request in \<^verbatim>\<open>src/fastcgi/fastcgi_lib/fcgiapp.cpp\<close>: the initialisation of the library
  and of a request, \<^verbatim>\<open>FCGX_Accept_r\<close> with its loop over connections, \<^verbatim>\<open>FCGX_Finish_r\<close> and the
  release of what a request holds.

  \<open>acc\<close> is what the calls of \<^verbatim>\<open>OS_Accept\<close> return, each a descriptor, the error number and what the
  client will send; \<open>mem\<close> is what the calls of \<^verbatim>\<open>malloc\<close> for the buffers of streams return, each an
  address and what the memory holds.
\<close>

section \<open>The library\<close>

record fcgx_lib =
  lib_libInitialized :: bool
  lib_isFastCGI :: int
  lib_webServerAddressList :: "bytes option"
  lib_the_request :: fcgx_conn

type_synonym accepting = "nat \<Rightarrow> int \<Rightarrow> int \<Rightarrow> bytes option \<Rightarrow> int \<times> int \<times> bytes"
type_synonym allocating = "nat \<Rightarrow> u64 \<times> bytes"

definition FCGI_LISTENSOCK_FILENO :: int where "FCGI_LISTENSOCK_FILENO = 0"
definition FCGI_FAIL_ACCEPT_ON_INTR :: int where "FCGI_FAIL_ACCEPT_ON_INTR = 1"

text \<open>\<^verbatim>\<open>memset\<close> clears the request, not its connection.\<close>

definition FCGX_InitRequest :: "fcgx_conn \<Rightarrow> int \<Rightarrow> int \<Rightarrow> int \<times> fcgx_conn" where
  "FCGX_InitRequest request sock flags =
     (0, request\<lparr>rq_requestId := 0, rq_role := 0, rq_in := None, rq_out := None, rq_err := None, rq_envp := None,
        rq_paramsPtr := None, rq_isBeginProcessed := False, rq_keepConnection := 0, rq_appStatus := 0,
        rq_nWriters := 0, rq_listen_sock := sock, rq_flags := flags, rq_ipcFd := - 1\<rparr>)"

text \<open>\<open>li\<close> is what \<^verbatim>\<open>OS_LibInit\<close> returns, with the error number, and \<open>p\<close> the environment variable.\<close>

definition FCGX_Init :: "int \<times> int \<Rightarrow> bytes option \<Rightarrow> fcgx_lib \<Rightarrow> int \<times> fcgx_lib" where
  "FCGX_Init li p lib =
     (if lib_libInitialized lib then (0, lib)
      else
        let lib1 = lib\<lparr>lib_the_request := snd (FCGX_InitRequest (lib_the_request lib) FCGI_LISTENSOCK_FILENO 0)\<rparr> in
        if fst li = - 1 then (if snd li \<noteq> 0 then snd li else - 9997, lib1)
        else (0, lib1\<lparr>lib_webServerAddressList := p, lib_libInitialized := True\<rparr>))"

text \<open>\<open>Inl\<close> is the status of a call of \<^verbatim>\<open>exit\<close>; \<open>fcgi\<close> is what \<^verbatim>\<open>OS_IsFcgi\<close> returns.\<close>

definition FCGX_IsCGI :: "int \<times> int \<Rightarrow> bytes option \<Rightarrow> int \<Rightarrow> fcgx_lib \<Rightarrow> int + (bool \<times> fcgx_lib)" where
  "FCGX_IsCGI li p fcgi lib =
     (if lib_isFastCGI lib \<noteq> - 1 then Inr (lib_isFastCGI lib = 0, lib)
      else
        let (rc, lib1) = (if \<not> lib_libInitialized lib then FCGX_Init li p lib else (0, lib)) in
        if rc \<noteq> 0 then Inl (if rc < 0 then rc else - rc)
        else Inr (fcgi = 0, lib1\<lparr>lib_isFastCGI := fcgi\<rparr>))"

text \<open>\<open>rc\<close> is what \<^verbatim>\<open>OS_CreateLocalIpcFd\<close> returns.\<close>

definition FCGX_OpenSocket :: "int \<Rightarrow> fcgx_lib \<Rightarrow> int \<times> fcgx_lib" where
  "FCGX_OpenSocket rc lib =
     (rc, if rc = FCGI_LISTENSOCK_FILENO \<and> lib_isFastCGI lib = 0 then lib\<lparr>lib_isFastCGI := 1\<rparr> else lib)"

section \<open>The end of a request\<close>

definition FCGX_FreeStream :: "FCGX_Stream option \<Rightarrow> FCGX_Stream option" where
  "FCGX_FreeStream stream = None"

definition FreeParams :: "Params option \<Rightarrow> Params option" where
  "FreeParams paramsPtr = None"

text \<open>Closing a connection drops what has not been read.\<close>

definition ipc_close :: "fcgx_conn \<Rightarrow> fcgx_conn" where
  "ipc_close w =
     (if rq_ipcFd w = - 1 then w else w\<lparr>w_closed := w_closed w @ [rq_ipcFd w], w_unread := []\<rparr>)"

definition FCGX_Free :: "fcgx_conn \<Rightarrow> bool \<Rightarrow> fcgx_conn" where
  "FCGX_Free request close =
     (let r1 = request\<lparr>rq_in := FCGX_FreeStream (rq_in request), rq_out := FCGX_FreeStream (rq_out request),
        rq_err := FCGX_FreeStream (rq_err request), rq_paramsPtr := FreeParams (rq_paramsPtr request)\<rparr>
      in if close then (ipc_close r1)\<lparr>rq_ipcFd := - 1\<rparr> else r1)"

definition FCGX_Finish_r :: "(nat \<Rightarrow> nat \<Rightarrow> int) \<Rightarrow> fcgx_conn \<Rightarrow> fcgx_conn option" where
  "FCGX_Finish_r wr request = do {
     (close, r1) \<leftarrow>
       (case rq_in request of
          None \<Rightarrow> Some (rq_keepConnection request = 0, request)
        | Some inp \<Rightarrow> do {
            err \<leftarrow> rq_err request;
            (c1, err1, w1) \<leftarrow> FCGX_FClose wr err request;
            out \<leftarrow> rq_out request;
            (c2, out1, w2) \<leftarrow> FCGX_FClose wr out w1;
            Some (rq_keepConnection request = 0 \<or> c1 \<noteq> 0 \<or> c2 \<noteq> 0 \<or> FCGX_GetError inp \<noteq> 0,
                  w2\<lparr>rq_err := Some err1, rq_out := Some out1\<rparr>)
          });
     Some (FCGX_Free r1 close)
   }"

section \<open>Accepting a request\<close>

text \<open>The connection: \<open>Some rc\<close> when \<^verbatim>\<open>FCGX_Accept_r\<close> returns \<open>rc\<close> because there is none.\<close>

definition accept_conn :: "accepting \<Rightarrow> bytes option \<Rightarrow> fcgx_conn \<Rightarrow> int option \<times> fcgx_conn" where
  "accept_conn acc addrs w =
     (if rq_ipcFd w < 0 then
        (case acc (w_accepts w) (rq_listen_sock w) (rq_flags w AND FCGI_FAIL_ACCEPT_ON_INTR) addrs of
           (fd, errno, sent) \<Rightarrow>
             if fd < 0
             then (Some (if 0 < errno then - errno else - 9999), w\<lparr>rq_ipcFd := fd, w_accepts := Suc (w_accepts w)\<rparr>)
             else (None, w\<lparr>rq_ipcFd := fd, w_accepts := Suc (w_accepts w), w_unread := sent\<rparr>))
      else (None, w))"

definition new_stream ::
  "allocating \<Rightarrow> int \<Rightarrow> bool \<Rightarrow> int \<Rightarrow> fcgx_conn \<Rightarrow> FCGX_Stream \<times> fcgx_conn" where
  "new_stream mem bufflen isReader streamType w =
     (case mem (w_mallocs w) of (mBuff, garbage) \<Rightarrow>
        (if isReader then NewReader mBuff garbage bufflen streamType else NewWriter mBuff garbage bufflen streamType,
         w\<lparr>w_mallocs := Suc (w_mallocs w)\<rparr>))"

definition role_string :: "int \<Rightarrow> bytes option" where
  "role_string role =
     (if role = FCGI_RESPONDER then Some ''FCGI_ROLE=RESPONDER''
      else if role = FCGI_AUTHORIZER then Some ''FCGI_ROLE=AUTHORIZER''
      else if role = FCGI_FILTER then Some ''FCGI_ROLE=FILTER''
      else None)"

text \<open>Reading the role and the environment; false when the connection is to be given up.\<close>

definition accept_env ::
  "(nat \<Rightarrow> nat \<Rightarrow> int) \<Rightarrow> (nat \<Rightarrow> nat \<Rightarrow> int) \<Rightarrow> allocating \<Rightarrow> fcgx_conn \<Rightarrow> (bool \<times> fcgx_conn) option" where
  "accept_env rd wr mem w = do {
     let (s0, w0) = new_stream mem 8192 True 0 (w\<lparr>rq_isBeginProcessed := False\<rparr>);
     (s1, w1) \<leftarrow> FillBuffProc rd wr s0 w0;
     if \<not> rq_isBeginProcessed w1 then Some (False, w1\<lparr>rq_in := Some s1\<rparr>)
     else case role_string (rq_role w1) of
         None \<Rightarrow> Some (False, w1\<lparr>rq_in := Some s1\<rparr>)
       | Some roleStr \<Rightarrow> do {
           s2 \<leftarrow> SetReaderType s1 FCGI_PARAMS;
           (r, params, s3, w3) \<leftarrow> ReadParams (FillBuffProc rd wr) (PutParam (NewParams 30) roleStr) s2 w1;
           Some (0 \<le> r, w3\<lparr>rq_in := Some s3, rq_paramsPtr := Some params\<rparr>)
         }
   }"

text \<open>The streams of an accepted request.\<close>

definition accept_streams :: "allocating \<Rightarrow> fcgx_conn \<Rightarrow> (int \<times> fcgx_conn) option" where
  "accept_streams mem w = do {
     s \<leftarrow> rq_in w;
     s1 \<leftarrow> SetReaderType s FCGI_STDIN;
     let (out, w1) = new_stream mem 8192 False FCGI_STDOUT w;
     let (err, w2) = new_stream mem 512 False FCGI_STDERR w1;
     Some (0, w2\<lparr>rq_in := Some s1, rq_out := Some out, rq_err := Some err, rq_nWriters := 2,
                 rq_envp := map_option pp_vec (rq_paramsPtr w2)\<rparr>)
   }"

partial_function (option) accept_loop ::
  "(nat \<Rightarrow> nat \<Rightarrow> int) \<Rightarrow> (nat \<Rightarrow> nat \<Rightarrow> int) \<Rightarrow> accepting \<Rightarrow> allocating \<Rightarrow> bytes option \<Rightarrow> fcgx_conn
   \<Rightarrow> (int \<times> fcgx_conn) option" where
  "accept_loop rd wr acc mem addrs w =
     (case accept_conn acc addrs w of
        (Some rc, w1) \<Rightarrow> Some (rc, w1)
      | (None, w1) \<Rightarrow>
          Option.bind (accept_env rd wr mem w1) (\<lambda>(ok, w2).
            if ok then accept_streams mem w2
            else accept_loop rd wr acc mem addrs (FCGX_Free w2 True)))"

definition FCGX_Accept_r ::
  "(nat \<Rightarrow> nat \<Rightarrow> int) \<Rightarrow> (nat \<Rightarrow> nat \<Rightarrow> int) \<Rightarrow> accepting \<Rightarrow> allocating \<Rightarrow> fcgx_lib \<Rightarrow> fcgx_conn
   \<Rightarrow> (int \<times> fcgx_conn) option" where
  "FCGX_Accept_r rd wr acc mem lib request =
     (if \<not> lib_libInitialized lib then Some (- 9998, request)
      else do {
        w \<leftarrow> FCGX_Finish_r wr request;
        accept_loop rd wr acc mem (lib_webServerAddressList lib) w
      })"

text \<open>The request of the library; its streams and environment are the results of \<^verbatim>\<open>FCGX_Accept\<close>.\<close>

definition FCGX_Accept ::
  "(nat \<Rightarrow> nat \<Rightarrow> int) \<Rightarrow> (nat \<Rightarrow> nat \<Rightarrow> int) \<Rightarrow> accepting \<Rightarrow> allocating \<Rightarrow> int \<times> int \<Rightarrow> bytes option \<Rightarrow> fcgx_lib
   \<Rightarrow> (int \<times> fcgx_lib) option" where
  "FCGX_Accept rd wr acc mem li p lib =
     (let (rc, lib1) = (if \<not> lib_libInitialized lib then FCGX_Init li p lib else (0, lib)) in
      if rc \<noteq> 0 then Some (rc, lib1)
      else do {
        (rc1, r1) \<leftarrow> FCGX_Accept_r rd wr acc mem lib1 (lib_the_request lib1);
        Some (rc1, lib1\<lparr>lib_the_request := r1\<rparr>)
      })"

definition FCGX_Finish :: "(nat \<Rightarrow> nat \<Rightarrow> int) \<Rightarrow> fcgx_lib \<Rightarrow> fcgx_lib option" where
  "FCGX_Finish wr lib = do { r \<leftarrow> FCGX_Finish_r wr (lib_the_request lib); Some (lib\<lparr>lib_the_request := r\<rparr>) }"

section \<open>Reading a request\<close>

lemma NewReader_fields:
  "s_rdNext (NewReader m g b t) = 0" "d_buffStop (NewReader m g b t) = 0" "s_isReader (NewReader m g b t)"
  "\<not> s_isClosed (NewReader m g b t)" "s_errno (NewReader m g b t) = 0" "\<not> d_skip (NewReader m g b t)"
  "d_type (NewReader m g b t) = t" "\<not> d_eorStop (NewReader m g b t)" "d_contentLen (NewReader m g b t) = 0"
  "d_paddingLen (NewReader m g b t) = 0" "length (d_buff (NewReader m g b t)) = d_bufflen (NewReader m g b t)"
proof -
  have len: "length (take n (g @ replicate n NUL)) = n" for n :: nat by (simp add: min_def)
  show "s_rdNext (NewReader m g b t) = 0" "d_buffStop (NewReader m g b t) = 0" "s_isReader (NewReader m g b t)"
  "\<not> s_isClosed (NewReader m g b t)" "s_errno (NewReader m g b t) = 0" "\<not> d_skip (NewReader m g b t)"
  "d_type (NewReader m g b t) = t" "\<not> d_eorStop (NewReader m g b t)" "d_contentLen (NewReader m g b t) = 0"
  "d_paddingLen (NewReader m g b t) = 0" "length (d_buff (NewReader m g b t)) = d_bufflen (NewReader m g b t)"
    by (simp_all only: NewReader_def NewStream_def Let_def FCGX_Stream.simps if_True len simp_thms)
qed

lemma NewReader_stop: "s_stop (NewReader m g b t) = 0"
  by (simp only: NewReader_def NewStream_def Let_def FCGX_Stream.simps if_True)

lemma NewReader_ok:
  "at_record t (NewReader m g b (int t))" "to_read (NewReader m g b (int t)) w = w_unread w"
proof -
  have "0 < d_bufflen (NewReader m g b (int t))" using NewStream_len(2) [of m g b True "int t"] by (simp add: NewReader_def)
  then show "at_record t (NewReader m g b (int t))" by (simp add: at_record_def bufok_def NewReader_fields)
  show "to_read (NewReader m g b (int t)) w = w_unread w" by (simp add: to_read_def NewReader_fields)
qed

text \<open>The start of a stream of another type.\<close>

lemma SetReaderType_gives:
  assumes "reads_ok rd" "bufok s" "s_isReader s" "s_errno s = 0" "stream_of t rid w" "list_all (rec_fine t rid) rs"
    "to_read s w = wire rs @ enc_record t rid [] 0 @ tail"
  shows "\<exists>s'. SetReaderType s (int t) = Some s' \<and> stream_gives rd t rid w tail (own rid rs) s' w"
proof -
  let ?s = "s\<lparr>d_type := int t, d_eorStop := False, d_skip := False, d_contentLen := 0, d_paddingLen := 0,
      s_wrNext := s_rdNext s, s_stop := s_rdNext s, s_isClosed := False\<rparr>"
  have b: "bufok ?s" "to_read ?s w = to_read s w" using assms(2) by (simp_all add: bufok_def to_read_def)
  then have "source_ok (int t) ?s" using assms(3,4) by (simp add: source_ok_def bufok_def)
  moreover have "in_record ?s w [] [] (wire rs @ enc_record t rid [] 0 @ tail)"
    using b(2) assms(7) by (simp add: in_record_def)
  ultimately have "stream_gives rd t rid w tail (own rid rs) ?s w"
    unfolding stream_gives_def using assms(1,5,6) by (intro conjI exI [of _ "[]"] exI [of _ rs]) simp_all
  with assms(3) show ?thesis by (simp add: SetReaderType_def)
qed

lemma same_conn_update:
  assumes "same_conn w0 w"
  shows "same_conn (w0\<lparr>rq_requestId := i, rq_role := r, rq_keepConnection := k, rq_isBeginProcessed := b\<rparr>)
    (w\<lparr>rq_requestId := i, rq_role := r, rq_keepConnection := k, rq_isBeginProcessed := b\<rparr>)"
proof -
  obtain u n where "w = w0\<lparr>w_unread := u, w_reads := n\<rparr>" using assms unfolding same_conn_def by (elim exE)
  then show ?thesis by (intro same_connI [where u = u and k = n]) simp
qed

text \<open>The record that begins a request.\<close>

definition begun :: "nat \<Rightarrow> nat \<Rightarrow> nat \<Rightarrow> fcgx_conn \<Rightarrow> fcgx_conn" where
  "begun rid role flags w = w\<lparr>rq_requestId := int rid, rq_role := int role,
     rq_keepConnection := int flags AND FCGI_KEEP_CONN, rq_isBeginProcessed := True\<rparr>"

lemma process_begin:
  assumes "reads_ok rd" "at_record 0 s" "to_read s w = begin_body role flags @ R" "R \<noteq> []" "0 < rid" "rid < 65536"
    "role < 65536" "flags < 256" "\<not> rq_isBeginProcessed w"
  shows "\<exists>s' w'. ProcessHeader rd wr (header_of (hdr8 1 rid 8 0)) (s\<lparr>d_eorStop := True, s_stop := s_rdNext s\<rparr>) w =
      Some (BEGIN_RECORD, s', w') \<and> at_record 0 (s'\<lparr>d_eorStop := False, s_isClosed := False\<rparr>) \<and> to_read s' w' = R \<and>
    same_conn (begun rid role flags w) w'"
proof -
  let ?s = "s\<lparr>d_eorStop := True, s_stop := s_rdNext s, d_contentLen := 8, d_paddingLen := 0\<rparr>"
  let ?w = "w\<lparr>rq_requestId := int rid\<rparr>"
  let ?b = "begin_body role flags"
  have l: "length ?b = 8" by (simp add: begin_body_def)
  have "source_ok 0 ?s" using assms(2) by (simp add: source_ok_def at_record_def bufok_def)
  moreover have "in_record ?s ?w ?b [] R" using l assms(3) by (simp add: in_record_def to_read_def)
  ultimately have "body_gives rd 0 ?w [] R (?b @ []) ?s ?w"
    unfolding body_gives_def using assms(1,4) by (intro conjI exI [of _ ?b]) simp_all
  from body.GetStr_more [OF this] obtain s' w' where
    g: "FCGX_GetStr (FillBuffProc_eor rd) 8 ?s ?w = Some (8, ?b, s', w')" "body_gives rd 0 ?w [] R [] s' w'"
    unfolding l by (elim exE conjE) (simp add: that)
  have e: "source_ok 0 s'" "same_conn ?w w'" "in_record s' w' [] [] R" "offered s' = []"
    using g(2) by (auto simp: body_gives_def)
  have "role div 256 < 256" using assms(7) by simp
  then have body: "int (ord (?b ! 2)) = int flags" "push_bit 8 (int (ord (?b ! 0))) + int (ord (?b ! 1)) = int role"
    using two_bytes [OF assms(7)] assms(8) by (simp_all add: begin_body_def)
  let ?w' = "w'\<lparr>rq_requestId := int rid, rq_role := int role, rq_keepConnection := int flags AND FCGI_KEEP_CONN, rq_isBeginProcessed := True\<rparr>"
  have id: "rq_requestId w' = int rid" using same_conn_fields(1) [OF e(2)] by simp
  have hb: "uint (hd_type (header_of (hdr8 1 rid 8 0))) = FCGI_BEGIN_REQUEST"
    using header_of_hdr8(2) [of 1 rid 8 0] assms(6) by (simp add: FCGI_BEGIN_REQUEST_def)
  have "ProcessHeader rd wr (header_of (hdr8 1 rid 8 0)) (s\<lparr>d_eorStop := True, s_stop := s_rdNext s\<rparr>) w =
      ProcessBeginRecord rd wr (int rid) ?s w"
    using header_of_hdr8 [of 1 rid 8 0] hb assms(6) by (simp add: ProcessHeader_def Let_def)
  also have "\<dots> = Some (BEGIN_RECORD, s', w'\<lparr>rq_keepConnection := int flags AND FCGI_KEEP_CONN, rq_role := int role, rq_isBeginProcessed := True\<rparr>)"
    unfolding ProcessBeginRecord_def using g(1) body assms(5,9) by (simp add: Let_def)
  also have "w'\<lparr>rq_keepConnection := int flags AND FCGI_KEEP_CONN, rq_role := int role, rq_isBeginProcessed := True\<rparr> = ?w'"
    using id by (intro fcgx_conn.equality) simp_all
  finally have p: "ProcessHeader rd wr (header_of (hdr8 1 rid 8 0)) (s\<lparr>d_eorStop := True, s_stop := s_rdNext s\<rparr>) w =
      Some (BEGIN_RECORD, s', ?w')" .
  have "same_conn (begun rid role flags w) ?w'"
    using same_conn_update [OF e(2), where i = "int rid" and r = "int role" and k = "int flags AND FCGI_KEEP_CONN" and b = True]
    by (simp add: begun_def)
  moreover have "at_record 0 (s'\<lparr>d_eorStop := False, s_isClosed := False\<rparr>)"
    using e by (simp add: at_record_def source_ok_def in_record_def)
  moreover have "to_read s' ?w' = R" using e(3,4) by (simp add: in_record_def to_read_def)
  ultimately show ?thesis using p by (intro exI conjI)
qed

lemma fill_begin:
  assumes "reads_ok rd" "at_record 0 s" "to_read s w = enc_begin rid role flags @ R" "R \<noteq> []" "0 < rid" "rid < 65536"
    "role < 65536" "flags < 256" "\<not> rq_isBeginProcessed w"
  shows "\<exists>s' w'. FillBuffProc rd wr s w = Some (s', w') \<and> at_record 0 s' \<and> to_read s' w' = R \<and>
    same_conn (begun rid role flags w) w'"
proof -
  have "length (begin_body role flags) = 8" by (simp add: begin_body_def)
  then have "to_read s w = hdr8 1 rid 8 0 @ begin_body role flags @ R"
    using assms(3) by (simp add: enc_begin_def enc_record_hdr8)
  from fill_next_header [OF assms(1,2) this, of "ProcessHeader rd wr"] obtain s1 w1 where
    f: "FillBuffProc rd wr s w = Option.bind (ProcessHeader rd wr (header_of (hdr8 1 rid 8 0))
      (s1\<lparr>d_eorStop := True, s_stop := s_rdNext s1\<rparr>) w1) (after_header rd (ProcessHeader rd wr))"
    and a: "at_record 0 s1" "to_read s1 w1 = begin_body role flags @ R" "same_conn w w1"
    unfolding FillBuffProc_def [symmetric] by (elim exE conjE) (rule that)
  have "\<not> rq_isBeginProcessed w1" using same_conn_fields(2) [OF a(3)] assms(9) by simp
  from process_begin [OF assms(1) a(1,2) assms(4-8) this, of wr] obtain s' w' where
    p: "ProcessHeader rd wr (header_of (hdr8 1 rid 8 0)) (s1\<lparr>d_eorStop := True, s_stop := s_rdNext s1\<rparr>) w1 =
      Some (BEGIN_RECORD, s', w')" "at_record 0 (s'\<lparr>d_eorStop := False, s_isClosed := False\<rparr>)" "to_read s' w' = R"
      "same_conn (begun rid role flags w1) w'" by (elim exE conjE) (rule that)
  have c: "same_conn (begun rid role flags w) (begun rid role flags w1)"
    unfolding begun_def by (rule same_conn_update [OF a(3)])
  have "FillBuffProc rd wr s w = Some (s'\<lparr>d_eorStop := False, s_isClosed := False\<rparr>, w')"
    unfolding f p(1) by (simp add: after_header_def Let_def fill_status)
  moreover have "to_read (s'\<lparr>d_eorStop := False, s_isClosed := False\<rparr>) w' = R" using p(3) by simp
  ultimately show ?thesis using p(2) same_conn_trans [OF c p(4)] by (intro exI conjI)
qed

text \<open>
  A request on the wire: the begin record, the parameters and the input, each stream in records
  of any size and padding, among records of other requests.
\<close>

definition request_wire :: "nat \<Rightarrow> nat \<Rightarrow> nat \<Rightarrow> wire_record list \<Rightarrow> wire_record list \<Rightarrow> bytes \<Rightarrow> bytes" where
  "request_wire rid role flags ps ins extra =
     enc_begin rid role flags @ wire ps @ enc_record 4 rid [] 0 @ wire ins @ enc_record 5 rid [] 0 @ extra"

lemma put_params_vec: "pp_vec (put_params kvs p) = pp_vec p @ map (\<lambda>(k, v). k @ ''='' @ v) kvs"
  by (induction kvs arbitrary: p) (auto simp: put_params_def PutParam_def Let_def)

lemma role_string_ok: "role \<in> {1, 2, 3} \<Longrightarrow> \<exists>str. role_string (int role) = Some str"
  by (auto simp: role_string_def FCGI_RESPONDER_def FCGI_AUTHORIZER_def FCGI_FILTER_def)

lemma begun_fields:
  assumes "same_conn (begun rid role flags w) w'"
  shows "rq_requestId w' = int rid" "rq_role w' = int role" "rq_keepConnection w' = int flags AND FCGI_KEEP_CONN"
    "rq_isBeginProcessed w'" "rq_ipcFd w' = rq_ipcFd w" "w_written w' = w_written w"
  using assms unfolding same_conn_def begun_def by auto

lemma accept_env_ok:
  assumes "reads_ok rd" "w_unread w = request_wire rid role flags ps ins extra" "0 < rid" "rid < 65536"
    "role_string (int role) = Some str" "role < 65536" "flags < 256" "list_all (rec_fine 4 rid) ps" "own rid ps = enc_pairs kvs"
    "\<forall>(k, v) \<in> set kvs. length k + length v + 2 < 2 ^ 31"
  shows "\<exists>w' s. accept_env rd wr mem w = Some (True, w'\<lparr>rq_in := Some s,
      rq_paramsPtr := Some (put_params kvs (PutParam (NewParams 30) str))\<rparr>) \<and>
    source_end 4 False (wire ins @ enc_record 5 rid [] 0 @ extra) s w' \<and>
    same_conn (begun rid role flags (w\<lparr>rq_isBeginProcessed := False, w_mallocs := Suc (w_mallocs w)\<rparr>)) w'"
proof -
  let ?R = "wire ps @ enc_record 4 rid [] 0 @ wire ins @ enc_record 5 rid [] 0 @ extra"
  obtain m g where mg: "mem (w_mallocs w) = (m, g)" by (cases "mem (w_mallocs w)")
  let ?w0 = "w\<lparr>rq_isBeginProcessed := False, w_mallocs := Suc (w_mallocs w)\<rparr>"
  have n: "new_stream mem 8192 True 0 (w\<lparr>rq_isBeginProcessed := False\<rparr>) = (NewReader m g 8192 (int 0), ?w0)"
    by (simp add: new_stream_def mg)
  have r0: "at_record 0 (NewReader m g 8192 (int 0))" "to_read (NewReader m g 8192 (int 0)) ?w0 = enc_begin rid role flags @ ?R"
    using NewReader_ok [where t = 0 and m = m and g = g and b = 8192] assms(2) by (simp_all add: request_wire_def)
  have ne: "?R \<noteq> []" by (simp add: enc_record_def)
  have nb: "\<not> rq_isBeginProcessed ?w0" by simp
  obtain s1 w1 where b: "FillBuffProc rd wr (NewReader m g 8192 (int 0)) ?w0 = Some (s1, w1)" "at_record 0 s1"
    "to_read s1 w1 = ?R" "same_conn (begun rid role flags ?w0) w1"
    using fill_begin [OF assms(1) r0 ne assms(3,4,6,7) nb, of wr] by (elim exE conjE) (rule that)
  note w1 = begun_fields [OF b(4)]
  have st: "stream_of 4 rid w1" using assms(3,4) w1(1) by (simp add: stream_of_def)
  have s1: "bufok s1" "s_isReader s1" "s_errno s1 = 0" using b(2) by (simp_all add: at_record_def)
  obtain s2 where t: "SetReaderType s1 FCGI_PARAMS = Some s2"
    "stream_gives rd 4 rid w1 (wire ins @ enc_record 5 rid [] 0 @ extra) (enc_pairs kvs) s2 w1"
    using SetReaderType_gives [OF assms(1) s1 st assms(8) b(3)] unfolding assms(9) FCGI_PARAMS_def by auto
  have kv: "length k + length v + 2 < 2 ^ 31" if "(k, v) \<in> set kvs" for k v using assms(10) that by blast
  obtain s3 w3 where p: "ReadParams (FillBuffProc rd wr) (PutParam (NewParams 30) str) s2 w1 =
      Some (0, put_params kvs (PutParam (NewParams 30) str), s3, w3)" "stream_ended 4 w1 (wire ins @ enc_record 5 rid [] 0 @ extra) s3 w3"
    using stream.ReadParams_ok [OF t(2) kv, of wr "PutParam (NewParams 30) str"] by auto
  have "same_conn w1 w3" "source_end 4 False (wire ins @ enc_record 5 rid [] 0 @ extra) s3 w3"
    using p(2) by (simp_all add: stream_ended_def)
  moreover have "accept_env rd wr mem w = Some (True, w3\<lparr>rq_in := Some s3,
      rq_paramsPtr := Some (put_params kvs (PutParam (NewParams 30) str))\<rparr>)"
    unfolding accept_env_def n Let_def prod.case using b(1) w1 t(1) p(1) assms(5) by simp
  ultimately show ?thesis using same_conn_trans [OF b(4), of w3] by (intro exI [of _ w3] exI [of _ s3]) simp
qed

lemma accept_streams_ok:
  assumes "reads_ok rd" "rq_in w = Some s" "rq_paramsPtr w = Some p" "source_end t False (wire ins @ enc_record 5 rid [] 0 @ extra) s w"
    "0 < rid" "rid < 65536" "rq_requestId w = int rid" "list_all (rec_fine 5 rid) ins"
  shows "\<exists>w' s'. accept_streams mem w = Some (0, w') \<and> rq_in w' = Some s' \<and> rq_envp w' = Some (pp_vec p) \<and>
    stream_gives rd 5 rid w' extra (own rid ins) s' w' \<and> rq_role w' = rq_role w \<and> rq_requestId w' = rq_requestId w \<and>
    rq_keepConnection w' = rq_keepConnection w \<and> rq_ipcFd w' = rq_ipcFd w \<and> w_written w' = w_written w"
proof -
  have s: "bufok s" "s_isReader s" "s_errno s = 0" "to_read s w = wire ins @ enc_record 5 rid [] 0 @ extra"
    using assms(4) by (simp_all add: source_end_def)
  obtain out w1 where o: "new_stream mem 8192 False FCGI_STDOUT w = (out, w1)" by fastforce
  obtain err w2 where e: "new_stream mem 512 False FCGI_STDERR w1 = (err, w2)" by fastforce
  have w2: "w2 = w\<lparr>w_mallocs := Suc (Suc (w_mallocs w))\<rparr>" using o e by (auto simp: new_stream_def split: prod.splits)
  define w' where "w' s1 = w2\<lparr>rq_in := Some s1, rq_out := Some out, rq_err := Some err, rq_nWriters := 2,
                 rq_envp := map_option pp_vec (rq_paramsPtr w2)\<rparr>" for s1
  have tr: "to_read s (w' s1) = wire ins @ enc_record 5 rid [] 0 @ extra" "stream_of 5 rid (w' s1)" for s1
    using s(4) assms(5-7) by (simp_all add: w'_def w2 to_read_def stream_of_def)
  have "SetReaderType s (int 5) \<noteq> None" using s(2) by (simp add: SetReaderType_def)
  then obtain s1 where s1: "SetReaderType s (int 5) = Some s1" by auto
  then have g: "stream_gives rd 5 rid (w' s1) extra (own rid ins) s1 (w' s1)"
    using SetReaderType_gives [OF assms(1) s(1-3) tr(2) assms(8) tr(1)] by auto
  have "accept_streams mem w = Some (0, w' s1)"
    unfolding accept_streams_def FCGI_STDIN_def assms(2) w'_def using s1 o e by simp
  with g assms(3) show ?thesis by (intro exI [of _ "w' s1"] exI [of _ s1]) (simp add: w'_def w2)
qed

lemma gives_GetStr:
  assumes "stream_gives rd t rid w0 tail xs s w"
  shows "\<exists>s' w'. FCGX_GetStr (FillBuffProc rd wr) (int n) s w = Some (int (min n (length xs)), take n xs, s', w') \<and>
    (s_isClosed s' \<longleftrightarrow> length xs < n) \<and> s_errno s' = 0"
proof (cases "n \<le> length xs")
  case True
  then have "gives = stream_gives rd t rid w0 tail \<Longrightarrow> gives (take n xs @ drop n xs) s w" for gives using assms by simp
  from stream.GetStr_more [OF this [OF refl], of wr] obtain s' w' where
    "FCGX_GetStr (FillBuffProc rd wr) (int (length (take n xs))) s w = Some (int (length (take n xs)), take n xs, s', w')"
    "stream_gives rd t rid w0 tail (drop n xs) s' w'" by (elim exE conjE) (rule that)
  moreover from this(2) have "\<not> s_isClosed s'" "s_errno s' = 0" by (auto simp: stream_gives_def source_ok_def)
  moreover have "length (take n xs) = n" "min n (length xs) = n" using True by simp_all
  ultimately show ?thesis using True by (intro exI [of _ s'] exI [of _ w']) (simp only: not_less simp_thms)
next
  case False
  then have "length xs < n" by simp
  from stream.GetStr_short [OF assms this, of wr] obtain s' w' where
    "FCGX_GetStr (FillBuffProc rd wr) (int n) s w = Some (int (length xs), xs, s', w')" "stream_ended t w0 tail s' w'"
    by (elim exE conjE) (rule that)
  moreover from this(2) have "s_isClosed s'" "s_errno s' = 0" by (simp_all add: stream_ended_def source_end_def)
  ultimately show ?thesis using False by (intro exI [of _ s'] exI [of _ w']) simp
qed

lemma accept_first:
  assumes "lib_libInitialized lib" "r = snd (FCGX_InitRequest r0 sock fl)"
  shows "FCGX_Accept_r rd wr acc mem lib r = accept_loop rd wr acc mem (lib_webServerAddressList lib) r"
proof -
  have "FCGX_Finish_r wr r = Some (FCGX_Free r True)" by (simp add: FCGX_Finish_r_def assms(2) FCGX_InitRequest_def)
  moreover have "FCGX_Free r True = r"
    by (simp add: FCGX_Free_def ipc_close_def assms(2) FCGX_InitRequest_def FCGX_FreeStream_def FreeParams_def Let_def)
  ultimately show ?thesis using assms(1) by (simp add: FCGX_Accept_r_def)
qed


definition ready_lib :: fcgx_lib where
  "ready_lib = \<lparr>lib_libInitialized = True, lib_isFastCGI = 1, lib_webServerAddressList = None, lib_the_request = idle_conn\<rparr>"

definition sample_params :: "wire_record list" where
  "sample_params = [(4, 1, enc_pair (''A'', ''bc''), 3), (5, 2, ''other'', 0)]"

definition sample_input :: "wire_record list" where
  "sample_input = [(5, 1, ''hi'', 6)]"

lemma sample_fine:
  "list_all (rec_fine 4 1) sample_params" "list_all (rec_fine 5 1) sample_input" "own 1 sample_params = enc_pairs [(''A'', ''bc'')]"
  by (simp_all add: sample_params_def sample_input_def rec_fine_def chunk_ok_def own_def enc_pairs_def enc_pair_def enc_len_def)


text \<open>
  Looking up parameters: in an environment of entries whose names contain neither null bytes
  nor equal signs, and whose values contain no null bytes, \<^verbatim>\<open>FCGX_GetParam\<close> returns the value of
  the first entry with the name, and \<^verbatim>\<open>NULL\<close> if there is none.
\<close>

theorem fcgx_get_param:
  assumes "\<forall>(k, v) \<in> set kvs. NUL \<notin> set k \<and> CHR ''='' \<notin> set k \<and> NUL \<notin> set v" "NUL \<notin> set name" "CHR ''='' \<notin> set name"
  shows "FCGX_GetParam (Some name) (Some (map (\<lambda>(k, v). k @ ''='' @ v) kvs)) = map_of kvs name"
proof -
  have c: "c_string xs = xs" if "NUL \<notin> set xs" for xs
    using that unfolding c_string_def by (subst takeWhile_eq_all_conv) auto
  have m: "(take (length name) (k @ ''='' @ v) = name \<and> length name < length (k @ ''='' @ v) \<and>
      (k @ ''='' @ v) ! length name = CHR ''='') \<longleftrightarrow> k = name" if "CHR ''='' \<notin> set k" for k v
  proof (cases "length name" "length k" rule: linorder_cases)
    case less
    then have "(k @ ''='' @ v) ! length name \<in> set k" by (simp add: nth_append)
    with that less show ?thesis by (metis less_irrefl)
  next
    case equal
    then show ?thesis by auto
  next
    case greater
    then have "CHR ''='' \<in> set (take (length name) (k @ ''='' @ v))" by (simp add: take_Cons')
    with assms(3) greater show ?thesis by (metis less_irrefl)
  qed
  have "find_param name (map (\<lambda>(k, v). k @ ''='' @ v) kvs) = map_of kvs name"
    using assms(1)
  proof (induction kvs)
    case Nil
    then show ?case by simp
  next
    case (Cons kv kvs)
    obtain k v where kv: "kv = (k, v)" by (cases kv)
    have k: "NUL \<notin> set k" "CHR ''='' \<notin> set k" "NUL \<notin> set v" using Cons.prems by (auto simp: kv)
    then have "c_string (k @ ''='' @ v) = k @ ''='' @ v" by (intro c) simp
    with Cons m [OF k(2), of v] show ?case by (auto simp: kv simp del: append_Cons)
  qed
  then show ?thesis using assms(2) by (simp add: FCGX_GetParam_def c)
qed

theorem fcgx_get_param_witness:
  "FCGX_GetParam (Some ''B'') (Some (map (\<lambda>(k, v). k @ ''='' @ v) [(''A'', ''x''), (''B'', ''y=z''), (''B'', ''t'')])) = Some ''y=z''"
  by (subst fcgx_get_param) simp_all

text \<open>
  C20: A record of another request that has no content, such as the end of one of its streams,
  makes the library lose data: it stays in the mode in which content is skipped, so the whole
  content of the next record of its own request is thrown away. The reader sees the end of the
  stream, without an error and without any byte of the content.
\<close>

theorem fcgx_skip_flag_leaks:
  assumes "reads_ok rd" "stream_of t rid w" "at_record t s" "s_rdNext s = s_stop s" "t' < 256" "t' \<noteq> 1" "0 < r" "r < 65536" "r \<noteq> rid"
    and "chunk_ok c" "to_read s w = enc_record t' r [] 0 @ enc_record t rid c 0 @ enc_record t rid [] 0 @ tail"
  shows "\<exists>s' w'. FCGX_GetChar (FillBuffProc rd wr) s w = Some (EOF, s', w') \<and> s_isClosed s' \<and> FCGX_GetError s' = 0 \<and>
    to_read s' w' = tail"
proof -
  have b: "t < 256" "t \<noteq> 1" "0 < rid" "rid < 65536" "rq_requestId w = int rid" using assms(2) by (simp_all add: stream_of_def)
  have c: "c \<noteq> []" "length c < 65536" using assms(10) by (simp_all add: chunk_ok_def)
  let ?R = "enc_record t rid [] 0 @ tail"
  have "to_read s w = hdr8 t' r 0 0 @ hdr8 t rid (length c) 0 @ c @ ?R" using assms(11) by (simp add: enc_record_hdr8)
  from fill_next_header [OF assms(1,3) this, of "ProcessHeader rd wr"] obtain s1 w1 where
    f1: "FillBuffProc rd wr s w = Option.bind (ProcessHeader rd wr (header_of (hdr8 t' r 0 0))
      (s1\<lparr>d_eorStop := True, s_stop := s_rdNext s1\<rparr>) w1) (after_header rd (ProcessHeader rd wr))"
    and a1: "at_record t s1" "to_read s1 w1 = hdr8 t rid (length c) 0 @ c @ ?R" "same_conn w w1"
    unfolding FillBuffProc_def [symmetric] by (elim exE conjE) (rule that)
  have q1: "rq_requestId w1 = int rid" using same_conn_fields(1) [OF a1(3)] b(5) by simp
  let ?s2 = "s1\<lparr>s_stop := s_rdNext s1, d_contentLen := 0, d_paddingLen := 0, d_eorStop := False, s_isClosed := False, d_skip := True\<rparr>"
  have e1: "FillBuffProc rd wr s w = fill_loop rd (ProcessHeader rd wr) [] ?s2 w1"
    using f1 process_other [OF assms(5-8) _ _ q1 assms(9)] by (simp add: after_header_def Let_def fill_status)
  have s2: "bufok ?s2" "d_contentLen ?s2 = 0" "d_paddingLen ?s2 = 0" "\<not> d_eorStop ?s2"
    "to_read ?s2 w1 = hdr8 t rid (length c) 0 @ c @ ?R" using a1 by (simp_all add: at_record_def)
  have h: "hdr8 t rid (length c) 0 \<noteq> []" "length ([] :: bytes) + length (hdr8 t rid (length c) 0) = 8" by (simp_all add: hdr8_def)
  obtain s3 w3 where f2: "fill_loop rd (ProcessHeader rd wr) [] ?s2 w1 =
      Option.bind (ProcessHeader rd wr (header_of (hdr8 t rid (length c) 0)) (s3\<lparr>d_eorStop := True, s_stop := s_rdNext s3\<rparr>) w3)
        (after_header rd (ProcessHeader rd wr))" "moved ?s2 w1 (c @ ?R) s3 w3"
    using fill_gets_header [OF assms(1) s2 h, of "ProcessHeader rd wr"] unfolding append_Nil by (elim exE conjE) (rule that)
  note m3 = moved_facts [OF f2(2)]
  have c3: "same_conn w w3" by (rule same_conn_trans [OF a1(3) m3(3)])
  have q3: "rq_requestId w3 = int rid" using same_conn_fields(1) [OF c3] b(5) by simp
  let ?s4 = "s3\<lparr>s_stop := s_rdNext s3, d_contentLen := length c, d_paddingLen := 0, d_eorStop := False, s_isClosed := False\<rparr>"
  have ty: "d_type (s3\<lparr>d_eorStop := True, s_stop := s_rdNext s3\<rparr>) = int t" using a1(1) m3 by (simp add: at_record_def)
  have e2: "fill_loop rd (ProcessHeader rd wr) [] ?s2 w1 = fill_loop rd (ProcessHeader rd wr) [] ?s4 w3"
    unfolding f2(1) using process_own [OF b(1-4) c(2) _ q3 ty, of 0 rd wr] c(1) by (simp add: after_header_def Let_def fill_status)
  have s4: "bufok ?s4" "d_contentLen ?s4 = length c" "d_skip ?s4" "\<not> d_eorStop ?s4" "d_paddingLen ?s4 = length ([] :: bytes)"
    "to_read ?s4 w3 = c @ [] @ ?R" "?R \<noteq> []" "length ([] :: bytes) < 8" using m3 by (simp_all add: enc_record_def)
  obtain s5 w5 where f3: "fill_loop rd (ProcessHeader rd wr) [] ?s4 w3 = fill_loop rd (ProcessHeader rd wr) [] s5 w5"
    "moved (?s4\<lparr>d_contentLen := 0, d_skip := False, d_paddingLen := 0\<rparr>) w3 ?R s5 w5"
    using fill_skip_record [OF assms(1) s4(1,2) c(1) s4(3-8), of "ProcessHeader rd wr"] by (elim exE conjE) (rule that)
  have "at_record t (?s4\<lparr>d_contentLen := 0, d_skip := False, d_paddingLen := 0\<rparr>)" using a1(1) m3 by (simp add: at_record_def)
  note m5 = moved_at_record [OF f3(2) this]
  have "\<exists>s' w'. FillBuffProc rd wr s5 w5 = Some (s', w') \<and>
      (if own rid [] = [] then stream_ended t w tail s' w'
       else stream_gives rd t rid w tail (own rid []) s' w' \<and> s_rdNext s' \<noteq> s_stop s')"
    by (rule fill_records [OF assms(1,2)]) (use m5 same_conn_trans [OF c3, of w5] in \<open>simp_all add: wire_def\<close>)
  then obtain s' w' where g: "FillBuffProc rd wr s5 w5 = Some (s', w')" "stream_ended t w tail s' w'" by (auto simp: own_def)
  have "FillBuffProc rd wr s w = Some (s', w')"
    using g(1) unfolding e1 e2 f3(1) FillBuffProc_def [of rd wr s5] .
  moreover have "s_isClosed s'" "s_errno s' = 0" "to_read s' w' = tail" using g(2) by (simp_all add: stream_ended_def source_end_def)
  moreover have "\<not> s_isClosed s" "s_isReader s" using assms(3) by (simp_all add: at_record_def)
  ultimately show ?thesis using assms(4) by (simp add: FCGX_GetChar_def FCGX_GetError_def)
qed

theorem fcgx_skip_flag_leaks_witness:
  "\<exists>s' w'. FCGX_GetChar (FillBuffProc (\<lambda>i n. 1) (\<lambda>i n. 1)) (NewReader 0x10 [] 8192 (int 5))
      (idle_conn\<lparr>w_unread := enc_record 5 2 [] 0 @ enc_record 5 1 ''lost'' 0 @ enc_record 5 1 [] 0\<rparr>) = Some (EOF, s', w') \<and>
    s_isClosed s' \<and> FCGX_GetError s' = 0 \<and> to_read s' w' = []"
  by (rule fcgx_skip_flag_leaks [where rid = 1 and t = 5 and t' = 5 and r = 2 and c = "''lost''"])
    (simp_all add: reads_ok_def stream_of_def idle_conn_def chunk_ok_def NewReader_ok NewReader_fields(1) NewReader_stop del: of_nat_numeral)

text \<open>
  C21: Padding of the record that ends the parameters breaks the request: when the library turns to
  the input stream it forgets the padding that is still to be skipped, reads it as the next header
  and gives the connection up with the error of an unsupported version.
\<close>

theorem fcgx_end_padding_lost:
  assumes "reads_ok rd" "stream_of 4 rid w" "at_record 4 s" "s_rdNext s = s_stop s" "0 < pad" "pad < 256" "8 \<le> pad + length R"
    and "to_read s w = enc_record 4 rid [] pad @ R"
  shows "\<exists>s1 w1 s2 s3 w3. FCGX_GetChar (FillBuffProc rd wr) s w = Some (EOF, s1, w1) \<and> FCGX_GetError s1 = 0 \<and>
    SetReaderType s1 FCGI_STDIN = Some s2 \<and> FCGX_GetChar (FillBuffProc rd wr) s2 w1 = Some (EOF, s3, w3) \<and>
    FCGX_GetError s3 = FCGX_UNSUPPORTED_VERSION"
proof -
  have b: "(4::nat) < 256" "(4::nat) \<noteq> 1" "0 < rid" "rid < 65536" "rq_requestId w = int rid" using assms(2) by (simp_all add: stream_of_def)
  let ?P = "replicate pad NUL @ R"
  have "to_read s w = hdr8 4 rid 0 pad @ ?P" using assms(8) by (simp add: enc_record_hdr8)
  from fill_next_header [OF assms(1,3) this, of "ProcessHeader rd wr"] obtain s1 w1 where
    f1: "FillBuffProc rd wr s w = Option.bind (ProcessHeader rd wr (header_of (hdr8 4 rid 0 pad))
      (s1\<lparr>d_eorStop := True, s_stop := s_rdNext s1\<rparr>) w1) (after_header rd (ProcessHeader rd wr))"
    and a1: "at_record 4 s1" "to_read s1 w1 = ?P" "same_conn w w1"
    unfolding FillBuffProc_def [symmetric] by (elim exE conjE) (rule that)
  have q1: "rq_requestId w1 = int rid" using same_conn_fields(1) [OF a1(3)] b(5) by simp
  let ?s1 = "s1\<lparr>d_eorStop := False, s_stop := s_rdNext s1, d_contentLen := 0, d_paddingLen := pad,
      s_wrNext := s_rdNext s1, s_isClosed := True\<rparr>"
  have ty: "d_type (s1\<lparr>d_eorStop := True, s_stop := s_rdNext s1\<rparr>) = int 4" using a1(1) by (simp add: at_record_def)
  have e1: "FillBuffProc rd wr s w = Some (?s1, w1)"
    using f1 process_own [OF b(1-4) _ assms(6) q1 ty, of 0 rd wr] by (simp add: after_header_def Let_def fill_status)
  let ?s2 = "?s1\<lparr>d_type := FCGI_STDIN, d_eorStop := False, d_skip := False, d_contentLen := 0, d_paddingLen := 0,
      s_wrNext := s_rdNext ?s1, s_stop := s_rdNext ?s1, s_isClosed := False\<rparr>"
  have e2: "SetReaderType ?s1 FCGI_STDIN = Some ?s2" using a1(1) by (simp add: SetReaderType_def at_record_def)
  let ?H = "take 8 ?P" let ?T = "drop 8 ?P"
  have l: "length ?H = 8" using assms(7) by simp
  then have h: "?H \<noteq> []" "length ([] :: bytes) + length ?H = 8" by auto
  have s2: "bufok ?s2" "d_contentLen ?s2 = 0" "d_paddingLen ?s2 = 0" "\<not> d_eorStop ?s2" "to_read ?s2 w1 = to_read s1 w1"
    using a1 by (simp_all add: at_record_def bufok_def to_read_def)
  have tr: "to_read ?s2 w1 = ?H @ ?T" unfolding s2(5) a1(2) append_take_drop_id ..
  obtain s3 w3 where f2: "fill_loop rd (ProcessHeader rd wr) [] ?s2 w1 =
      Option.bind (ProcessHeader rd wr (header_of ?H) (s3\<lparr>d_eorStop := True, s_stop := s_rdNext s3\<rparr>) w3)
        (after_header rd (ProcessHeader rd wr))" "moved ?s2 w1 ?T s3 w3"
    using fill_gets_header [OF assms(1) s2(1-4) tr h, of "ProcessHeader rd wr"] unfolding append_Nil by (elim exE conjE) (rule that)
  have "?H ! 0 = NUL" using assms(5) by (simp add: nth_append)
  then have "version (header_of ?H) = 0" by (simp add: header_of_def)
  then have v: "version (header_of ?H) \<noteq> 1" by simp
  let ?s4 = "s3\<lparr>s_stop := s_rdNext s3, d_eorStop := False, s_isClosed := False\<rparr>"
  have e3: "FillBuffProc rd wr ?s2 w1 = Some (SetError ?s4 FCGX_UNSUPPORTED_VERSION, w3)"
    unfolding FillBuffProc_def f2(1) using v
    by (simp add: ProcessHeader_def after_header_def Let_def fill_status FCGX_UNSUPPORTED_VERSION_def)
  have er: "s_errno ?s4 = 0" using moved_facts(7) [OF f2(2)] a1(1) by (simp add: at_record_def)
  have op: "\<not> s_isClosed s" "s_isReader s" "s_isReader s1" "s_errno s1 = 0" using assms(3) a1(1) by (simp_all add: at_record_def)
  have g1: "FCGX_GetChar (FillBuffProc rd wr) s w = Some (EOF, ?s1, w1)"
    using op(1,2) assms(4) e1 by (simp add: FCGX_GetChar_def)
  have g2: "FCGX_GetChar (FillBuffProc rd wr) ?s2 w1 = Some (EOF, SetError ?s4 FCGX_UNSUPPORTED_VERSION, w3)"
    unfolding FCGX_GetChar_def e3 using op(3) by (simp add: SetError_def)
  have "FCGX_GetError ?s1 = 0" "FCGX_GetError (SetError ?s4 FCGX_UNSUPPORTED_VERSION) = FCGX_UNSUPPORTED_VERSION"
    using op(4) er by (simp_all add: FCGX_GetError_def SetError_def)
  with g1 e2 g2 show ?thesis by (intro exI conjI)
qed

theorem fcgx_end_padding_lost_witness:
  "\<exists>s1 w1 s2 s3 w3. FCGX_GetChar (FillBuffProc (\<lambda>i n. 1) (\<lambda>i n. 1)) (NewReader 0x10 [] 8192 (int 4))
      (idle_conn\<lparr>w_unread := enc_record 4 1 [] 8 @ enc_record 5 1 ''in'' 0\<rparr>) = Some (EOF, s1, w1) \<and> FCGX_GetError s1 = 0 \<and>
    SetReaderType s1 FCGI_STDIN = Some s2 \<and> FCGX_GetChar (FillBuffProc (\<lambda>i n. 1) (\<lambda>i n. 1)) s2 w1 = Some (EOF, s3, w3) \<and>
    FCGX_GetError s3 = FCGX_UNSUPPORTED_VERSION"
  by (rule fcgx_end_padding_lost [where rid = 1 and pad = 8])
    (simp_all add: reads_ok_def stream_of_def idle_conn_def NewReader_ok NewReader_fields(1) NewReader_stop del: of_nat_numeral)

section \<open>Management records\<close>

text \<open>The variables that the library knows, and the pairs of an answer.\<close>

definition known_value :: "bytes \<Rightarrow> char option" where
  "known_value k =
     (if k = ''FCGI_MAX_CONNS'' \<or> k = ''FCGI_MAX_REQS'' then Some (CHR ''1'')
      else if k = ''FCGI_MPXS_CONNS'' then Some (CHR ''0'') else None)"

definition answers :: "(bytes \<times> bytes) list \<Rightarrow> (bytes \<times> bytes) list" where
  "answers kvs = [(k, [the (known_value k)]). (k, v) \<leftarrow> kvs, known_value k \<noteq> None]"

lemma answers_Cons:
  "answers ((k, v) # kvs) = (case known_value k of None \<Rightarrow> [] | Some c \<Rightarrow> [(k, [c])]) @ answers kvs"
  by (simp add: answers_def split: option.splits)

lemma values_entry_ok:
  assumes "NUL \<notin> set k" "CHR ''='' \<notin> set k"
    and "9 + length resp + length (case known_value k of None \<Rightarrow> [] | Some c \<Rightarrow> enc_pair (k, [c])) \<le> 64"
  shows "values_entry (k @ ''='' @ v) resp = Some (resp @ (case known_value k of None \<Rightarrow> [] | Some c \<Rightarrow> enc_pair (k, [c])))"
proof -
  have "takeWhile (\<lambda>c. c \<noteq> NUL) (k @ ''='' @ v) = k @ takeWhile (\<lambda>c. c \<noteq> NUL) (''='' @ v)"
    using assms(1) by (intro takeWhile_append2) auto
  then have "CHR ''='' \<in> set (c_string (k @ ''='' @ v))" by (simp add: c_string_def)
  moreover have "takeWhile (\<lambda>c. c \<noteq> CHR ''='') (k @ ''='' @ v) = k @ takeWhile (\<lambda>c. c \<noteq> CHR ''='') (''='' @ v)"
    using assms(2) by (intro takeWhile_append2) auto
  ultimately show ?thesis
    using assms(3) unfolding values_entry_def Let_def
    by (auto simp: known_value_def enc_pair_def enc_len_def FCGI_HEADER_LEN_def)
qed

lemma values_reply_ok:
  assumes "\<forall>(k, v) \<in> set kvs. NUL \<notin> set k \<and> CHR ''='' \<notin> set k" "9 + length resp + length (enc_pairs (answers kvs)) \<le> 64"
  shows "values_reply (map (\<lambda>(k, v). k @ ''='' @ v) kvs) resp = Some (resp @ enc_pairs (answers kvs))"
  using assms
proof (induction kvs arbitrary: resp)
  case Nil
  then show ?case by (simp add: answers_def enc_pairs_def)
next
  case (Cons kv kvs)
  obtain k v where kv: "kv = (k, v)" by (cases kv)
  let ?e = "case known_value k of None \<Rightarrow> [] | Some c \<Rightarrow> enc_pair (k, [c])"
  have e: "enc_pairs (answers (kv # kvs)) = ?e @ enc_pairs (answers kvs)"
    by (simp add: kv answers_Cons enc_pairs_def split: option.splits)
  have "values_entry (k @ ''='' @ v) resp = Some (resp @ ?e)"
    by (rule values_entry_ok) (use Cons.prems e in \<open>auto simp: kv\<close>)
  with Cons.IH [of "resp @ ?e"] Cons.prems e show ?case by (simp add: kv)
qed

text \<open>Three variables fit in the buffer of the reply, if none is asked for twice.\<close>

lemma answers_fit:
  assumes "distinct (map fst kvs)"
  shows "length (enc_pairs (answers kvs)) \<le> 51"
proof -
  let ?ks = "filter (\<lambda>k. known_value k \<noteq> None) (map fst kvs)"
  let ?K = "{''FCGI_MAX_CONNS'', ''FCGI_MAX_REQS'', ''FCGI_MPXS_CONNS''}"
  have "length (enc_pairs (answers kvs)) = sum_list (map (\<lambda>k. length k + 3) ?ks)"
  proof (induction kvs)
    case Nil
    then show ?case by (simp add: answers_def enc_pairs_def)
  next
    case (Cons kv kvs)
    obtain k v where "kv = (k, v)" by (cases kv)
    with Cons show ?case
      by (auto simp: answers_Cons enc_pairs_def enc_pair_def enc_len_def known_value_def)
  qed
  also have "\<dots> = (\<Sum>k \<in> set ?ks. length k + 3)"
    using assms by (intro sum_list_distinct_conv_sum_set) simp
  also have "\<dots> \<le> (\<Sum>k \<in> ?K. length k + 3)"
    by (intro sum_mono2) (auto simp: known_value_def split: if_splits)
  also have "\<dots> = 51" by simp
  finally show ?thesis .
qed

lemma get_values_ok:
  assumes "writes_all wr" "body_gives rd t w0 pad R (enc_pairs kvs) s w"
    and "\<forall>(k, v) \<in> set kvs. NUL \<notin> set k \<and> CHR ''='' \<notin> set k \<and> length k + length v + 2 < 2 ^ 31" "distinct (map fst kvs)"
    "pad @ R \<noteq> []"
  shows "\<exists>s1 w1 k. ProcessManagementRecord rd wr FCGI_GET_VALUES s w = Some (MGMT_RECORD, s1,
      w1\<lparr>w_written := w_written w1 @ enc_record 10 0 (enc_pairs (answers kvs)) (pad_to_8 (length (enc_pairs (answers kvs)))), w_writes := k\<rparr>) \<and>
    body_ended t w0 pad R s1 w1"
proof -
  let ?a = "enc_pairs (answers kvs)" let ?n = "length ?a" let ?p = "pad_to_8 ?n"
  have kv: "length k + length v + 2 < 2 ^ 31" if "(k, v) \<in> set kvs" for k v using assms(3) that by blast
  obtain s1 w1 where p: "ReadParams (FillBuffProc_eor rd) (NewParams 3) s w = Some (0, put_params kvs (NewParams 3), s1, w1)"
    "body_ended t w0 pad R s1 w1"
    using body.ReadParams_ok [OF assms(2) kv, of "NewParams 3"] by auto
  have n: "?n \<le> 51" by (rule answers_fit [OF assms(4)])
  have ok: "FCGX_GetError s1 = 0" "d_contentLen s1 = 0" using p(2) assms(5) by (auto simp: body_ended_def source_end_def FCGX_GetError_def split: if_splits)
  have "\<forall>(k, v) \<in> set kvs. NUL \<notin> set k \<and> CHR ''='' \<notin> set k" using assms(3) by auto
  then have v: "values_reply (pp_vec (put_params kvs (NewParams 3))) [] = Some ?a"
    using values_reply_ok [of kvs "[]"] n by (simp add: put_params_vec NewParams_def)
  have "?n + ?p = 8 * ((?n + 7) div 8)" by (simp add: pad_to_8_def)
  then have al: "AlignInt8 (word_of_int (int ?n)) = int ?n + int ?p" using AlignInt8_eq [of ?n] n by simp
  obtain h where h: "MakeHeader FCGI_GET_VALUES_RESULT FCGI_NULL_REQUEST_ID (int ?n) (int ?p) = Some h"
    "header_mem h @ ?a @ replicate ?p NUL = enc_record 10 0 ?a ?p"
    using MakeHeader_ok [of ?n ?p 10 0] n pad_to_8_less [of ?n]
    by (auto simp: FCGI_GET_VALUES_RESULT_def FCGI_NULL_REQUEST_ID_def)
  obtain k where "write_it_all wr (enc_record 10 0 ?a ?p) w1 = Some (0, w1\<lparr>w_written := w_written w1 @ enc_record 10 0 ?a ?p, w_writes := k\<rparr>)"
    using write_it_all_ok [OF assms(1)] by blast
  with p v al h ok have "ProcessManagementRecord rd wr FCGI_GET_VALUES s w =
      Some (MGMT_RECORD, s1, w1\<lparr>w_written := w_written w1 @ enc_record 10 0 ?a ?p, w_writes := k\<rparr>)"
    by (simp add: ProcessManagementRecord_def Let_def)
  with p(2) show ?thesis by (intro exI conjI)
qed



text \<open>
  C22: A management record without padding after which nothing comes is not answered, although all
  of it has been received: to find the end of the record the library reads again. If the client
  waits for the answer it waits for ever; if it closes the connection the library reports a
  protocol error. Nothing is written.
\<close>

theorem fcgx_get_values_starves:
  assumes "reads_ok rd" "at_record t s" "to_read s w = enc_record 9 0 (enc_pairs kvs) 0" "length (enc_pairs kvs) < 65536"
    and "\<forall>(k, v) \<in> set kvs. length k + length v + 2 < 2 ^ 31"
  shows "\<exists>s' w'. FillBuffProc rd wr s w = Some (s', w') \<and> s_isClosed s' \<and> FCGX_GetError s' = FCGX_PROTOCOL_ERROR \<and>
    w_written w' = w_written w"
proof -
  let ?c = "enc_pairs kvs"
  have "to_read s w = hdr8 9 0 (length ?c) 0 @ ?c" using assms(3) by (simp add: enc_record_hdr8)
  from fill_next_header [OF assms(1,2) this, of "ProcessHeader rd wr"] obtain s1 w1 where
    f: "FillBuffProc rd wr s w = Option.bind (ProcessHeader rd wr (header_of (hdr8 9 0 (length ?c) 0))
      (s1\<lparr>d_eorStop := True, s_stop := s_rdNext s1\<rparr>) w1) (after_header rd (ProcessHeader rd wr))"
    and a: "at_record t s1" "to_read s1 w1 = ?c" "same_conn w w1"
    unfolding FillBuffProc_def [symmetric] by (elim exE conjE) (rule that)
  let ?s = "s1\<lparr>d_eorStop := True, s_stop := s_rdNext s1, d_contentLen := length ?c, d_paddingLen := 0\<rparr>"
  have "source_ok (int t) ?s" using a(1) by (simp add: source_ok_def at_record_def bufok_def)
  moreover have "in_record ?s w1 ?c [] []" using a(2) by (simp add: in_record_def to_read_def)
  ultimately have g0: "body_gives rd (int t) w1 [] [] ?c ?s w1"
    unfolding body_gives_def using assms(1) by (intro conjI exI [of _ ?c]) simp_all
  have kv: "length k + length v + 2 < 2 ^ 31" if "(k, v) \<in> set kvs" for k v using assms(5) that by blast
  obtain s2 w2 where p: "ReadParams (FillBuffProc_eor rd) (NewParams 3) ?s w1 = Some (0, put_params kvs (NewParams 3), s2, w2)"
    "body_ended (int t) w1 [] [] s2 w2"
    using body.ReadParams_ok [OF g0 kv, of "NewParams 3"] by auto
  then have e: "s_errno s2 = FCGX_PROTOCOL_ERROR" "same_conn w1 w2" by (simp_all add: body_ended_def)
  have "ProcessHeader rd wr (header_of (hdr8 9 0 (length ?c) 0)) (s1\<lparr>d_eorStop := True, s_stop := s_rdNext s1\<rparr>) w1 =
      ProcessManagementRecord rd wr FCGI_GET_VALUES ?s w1"
    using header_of_hdr8 [of 9 0 "length ?c" 0] assms(4)
    by (simp add: ProcessHeader_def Let_def FCGI_BEGIN_REQUEST_def FCGI_NULL_REQUEST_ID_def FCGI_GET_VALUES_def)
  also have "\<dots> = Some (FCGX_PROTOCOL_ERROR, s2, w2)"
    using p(1) e(1) by (simp add: ProcessManagementRecord_def Let_def FCGX_GetError_def FCGX_PROTOCOL_ERROR_def)
  finally have "FillBuffProc rd wr s w = Some (SetError (s2\<lparr>d_eorStop := False, s_isClosed := False\<rparr>) FCGX_PROTOCOL_ERROR, w2)"
    using f by (simp add: after_header_def Let_def fill_status FCGX_PROTOCOL_ERROR_def)
  moreover have "w_written w2 = w_written w" using same_conn_fields(3) [OF a(3)] same_conn_fields(3) [OF e(2)] by simp
  ultimately show ?thesis using e(1) by (simp add: SetError_def FCGX_GetError_def FCGX_PROTOCOL_ERROR_def)
qed

theorem fcgx_get_values_starves_witness:
  "\<exists>s' w'. FillBuffProc (\<lambda>i n. 1) (\<lambda>i n. 1) (NewReader 0x10 [] 8192 (int 5))
      (idle_conn\<lparr>w_unread := enc_record 9 0 (enc_pairs [(''FCGI_MAX_REQS'', [])]) 0\<rparr>) = Some (s', w') \<and>
    s_isClosed s' \<and> FCGX_GetError s' = FCGX_PROTOCOL_ERROR \<and>
    w_written w' = w_written (idle_conn\<lparr>w_unread := enc_record 9 0 (enc_pairs [(''FCGI_MAX_REQS'', [])]) 0\<rparr>)"
  by (rule fcgx_get_values_starves [where t = 5 and kvs = "[(''FCGI_MAX_REQS'', [])]"])
    (simp_all add: reads_ok_def NewReader_ok enc_pairs_def enc_pair_def enc_len_def del: of_nat_numeral)

end
