(* ===== verification/Os_Async.thy ===== *)
theory Os_Async
  imports FCGI_Prelude
begin

text \<open>
  The asynchronous I/O of \<^verbatim>\<open>src/fastcgi/fastcgi_lib/os_unix.cpp\<close>: the table of outstanding operations,
  the descriptor sets and the event loop \<^verbatim>\<open>OS_DoIo\<close>.

  A descriptor set is a set of natural numbers below 1024. A callback, the results of
  \<^verbatim>\<open>select\<close>, \<^verbatim>\<open>read\<close> and \<^verbatim>\<open>write\<close> are arguments; a callback may call the operations of this file,
  so it is any function on the state. \<open>None\<close> is a failed \<^verbatim>\<open>ASSERT\<close>, an access out of bounds, the end
  of the process by \<^verbatim>\<open>exit\<close>, or a loop that does not end.
\<close>

section \<open>State\<close>

record AioInfo =
  aio_procPtr :: "nat option"
  aio_clientData :: nat
  aio_fd :: int
  aio_len :: int
  aio_offset :: int
  aio_buf :: nat
  aio_inUse :: bool

definition aio_zero :: AioInfo where
  "aio_zero = \<lparr>aio_procPtr = None, aio_clientData = 0, aio_fd = 0, aio_len = 0, aio_offset = 0, aio_buf = 0,
     aio_inUse = False\<rparr>"

text \<open>The static variables; the table is missing before \<^verbatim>\<open>OS_LibInit\<close>.\<close>

record os_state =
  os_asyncIoInUse :: bool
  os_asyncIoTableSize :: nat
  os_asyncIoTable :: "AioInfo list option"
  os_libInitialized :: bool
  os_readFdSet :: "nat set"
  os_writeFdSet :: "nat set"
  os_readFdSetPost :: "nat set"
  os_numRdPosted :: int
  os_writeFdSetPost :: "nat set"
  os_numWrPosted :: int
  os_maxFd :: int

definition os_initial :: os_state where
  "os_initial = \<lparr>os_asyncIoInUse = False, os_asyncIoTableSize = 16, os_asyncIoTable = None, os_libInitialized = False,
     os_readFdSet = {}, os_writeFdSet = {}, os_readFdSetPost = {}, os_numRdPosted = 0, os_writeFdSetPost = {},
     os_numWrPosted = 0, os_maxFd = - 1\<rparr>"

definition AIO_RD_IX :: "int \<Rightarrow> int" where "AIO_RD_IX fd = fd * 2"
definition AIO_WR_IX :: "int \<Rightarrow> int" where "AIO_WR_IX fd = fd * 2 + 1"

text \<open>An element of the table, and the change of one, within its bounds.\<close>

definition aio_get :: "os_state \<Rightarrow> int \<Rightarrow> AioInfo option" where
  "aio_get s i = do {
     tb \<leftarrow> os_asyncIoTable s;
     assert_opt (0 \<le> i \<and> nat i < length tb);
     Some (tb ! nat i)
   }"

definition aio_put :: "os_state \<Rightarrow> int \<Rightarrow> AioInfo \<Rightarrow> os_state option" where
  "aio_put s i a = do {
     tb \<leftarrow> os_asyncIoTable s;
     assert_opt (0 \<le> i \<and> nat i < length tb);
     Some (s\<lparr>os_asyncIoTable := Some (tb[nat i := a])\<rparr>)
   }"

text \<open>\<^verbatim>\<open>FD_SET\<close> is defined for descriptors below \<^verbatim>\<open>FD_SETSIZE\<close>.\<close>

definition fd_ok :: "int \<Rightarrow> bool" where
  "fd_ok fd \<longleftrightarrow> 0 \<le> fd \<and> fd < 1024"

section \<open>Setting up\<close>

text \<open>\<open>mem\<close> says whether \<^verbatim>\<open>malloc\<close> returns memory. The signal handlers and the time-outs are elsewhere.\<close>

definition OS_LibInit :: "bool \<Rightarrow> os_state \<Rightarrow> int \<times> os_state" where
  "OS_LibInit mem s =
     (if os_libInitialized s then (0, s)
      else if \<not> mem then (- 1, s\<lparr>os_asyncIoTable := None\<rparr>)
      else (0, s\<lparr>os_asyncIoTable := Some (replicate (os_asyncIoTableSize s) aio_zero), os_readFdSet := {},
                 os_writeFdSet := {}, os_readFdSetPost := {}, os_writeFdSetPost := {}, os_libInitialized := True\<rparr>))"

definition OS_LibShutdown :: "os_state \<Rightarrow> os_state" where
  "OS_LibShutdown s =
     (if \<not> os_libInitialized s then s else s\<lparr>os_asyncIoTable := None, os_libInitialized := False\<rparr>)"

section \<open>Starting operations\<close>

definition aio_request :: "nat option \<Rightarrow> nat \<Rightarrow> int \<Rightarrow> int \<Rightarrow> int \<Rightarrow> nat \<Rightarrow> AioInfo" where
  "aio_request procPtr clientData fd len offset buf =
     \<lparr>aio_procPtr = procPtr, aio_clientData = clientData, aio_fd = fd, aio_len = len, aio_offset = offset,
      aio_buf = buf, aio_inUse = True\<rparr>"

definition OS_AsyncReadStdin :: "nat \<Rightarrow> int \<Rightarrow> nat option \<Rightarrow> nat \<Rightarrow> os_state \<Rightarrow> (int \<times> os_state) option" where
  "OS_AsyncReadStdin buf len procPtr clientData s = do {
     let index = AIO_RD_IX 0;
     let s1 = s\<lparr>os_asyncIoInUse := True\<rparr>;
     a \<leftarrow> aio_get s1 index;
     assert_opt (\<not> aio_inUse a);
     s2 \<leftarrow> aio_put s1 index (aio_request procPtr clientData 0 len 0 buf);
     Some (0, s2\<lparr>os_readFdSet := insert 0 (os_readFdSet s2),
                 os_maxFd := (if os_maxFd s2 < 0 then 0 else os_maxFd s2)\<rparr>)
   }"

text \<open>\<open>mem\<close> says whether \<^verbatim>\<open>realloc\<close> returns memory for a table of a size.\<close>

definition GrowAsyncTable :: "(nat \<Rightarrow> bool) \<Rightarrow> os_state \<Rightarrow> os_state option" where
  "GrowAsyncTable mem s = do {
     let oldTableSize = os_asyncIoTableSize s;
     tb \<leftarrow> os_asyncIoTable s;
     assert_opt (mem (oldTableSize * 2));
     Some (s\<lparr>os_asyncIoTableSize := oldTableSize * 2,
             os_asyncIoTable := Some (tb @ replicate oldTableSize aio_zero)\<rparr>)
   }"

partial_function (option) grow_to :: "(nat \<Rightarrow> bool) \<Rightarrow> int \<Rightarrow> os_state \<Rightarrow> os_state option" where
  "grow_to mem index s =
     (if int (os_asyncIoTableSize s) \<le> index
      then Option.bind (GrowAsyncTable mem s) (\<lambda>s1. grow_to mem index s1)
      else Some s)"

definition OS_AsyncRead ::
  "(nat \<Rightarrow> bool) \<Rightarrow> int \<Rightarrow> int \<Rightarrow> nat \<Rightarrow> int \<Rightarrow> nat option \<Rightarrow> nat \<Rightarrow> os_state \<Rightarrow> (int \<times> os_state) option" where
  "OS_AsyncRead mem fd offset buf len procPtr clientData s = do {
     let index = AIO_RD_IX fd;
     assert_opt (os_asyncIoTable s \<noteq> None);
     let s1 = s\<lparr>os_asyncIoInUse := True, os_maxFd := (if os_maxFd s < fd then fd else os_maxFd s)\<rparr>;
     s2 \<leftarrow> grow_to mem index s1;
     a \<leftarrow> aio_get s2 index;
     assert_opt (\<not> aio_inUse a);
     s3 \<leftarrow> aio_put s2 index (aio_request procPtr clientData fd len offset buf);
     assert_opt (fd_ok fd);
     Some (0, s3\<lparr>os_readFdSet := insert (nat fd) (os_readFdSet s3)\<rparr>)
   }"

definition OS_AsyncWrite ::
  "(nat \<Rightarrow> bool) \<Rightarrow> int \<Rightarrow> int \<Rightarrow> nat \<Rightarrow> int \<Rightarrow> nat option \<Rightarrow> nat \<Rightarrow> os_state \<Rightarrow> (int \<times> os_state) option" where
  "OS_AsyncWrite mem fd offset buf len procPtr clientData s = do {
     let index = AIO_WR_IX fd;
     let s1 = s\<lparr>os_asyncIoInUse := True, os_maxFd := (if os_maxFd s < fd then fd else os_maxFd s)\<rparr>;
     s2 \<leftarrow> grow_to mem index s1;
     a \<leftarrow> aio_get s2 index;
     assert_opt (\<not> aio_inUse a);
     s3 \<leftarrow> aio_put s2 index (aio_request procPtr clientData fd len offset buf);
     assert_opt (fd_ok fd);
     Some (0, s3\<lparr>os_writeFdSet := insert (nat fd) (os_writeFdSet s3)\<rparr>)
   }"

section \<open>Ending operations\<close>

definition aio_drop :: "os_state \<Rightarrow> int \<Rightarrow> os_state option" where
  "aio_drop s index = do {
     a \<leftarrow> aio_get s index;
     if aio_inUse a then aio_put s index (a\<lparr>aio_inUse := False\<rparr>) else Some s
   }"

text \<open>
  \<^verbatim>\<open>OS_Close\<close> up to the shutdown of the connection. Then it waits for the client and returns the
  result \<open>closed\<close> of \<^verbatim>\<open>close\<close>: \<open>drained\<close> says, for every poll, whether more can be read.
\<close>

definition close_async :: "int \<Rightarrow> os_state \<Rightarrow> os_state option" where
  "close_async fd s =
     (if os_asyncIoInUse s then do {
        assert_opt (fd_ok fd);
        let s1 = s\<lparr>os_readFdSet := os_readFdSet s - {nat fd}, os_readFdSetPost := os_readFdSetPost s - {nat fd}\<rparr>;
        s2 \<leftarrow> aio_drop s1 (AIO_RD_IX fd);
        let s3 = s2\<lparr>os_writeFdSet := os_writeFdSet s2 - {nat fd}, os_writeFdSetPost := os_writeFdSetPost s2 - {nat fd}\<rparr>;
        s4 \<leftarrow> aio_drop s3 (AIO_WR_IX fd);
        Some (if os_maxFd s4 = fd then s4\<lparr>os_maxFd := os_maxFd s4 - 1\<rparr> else s4)
      }
      else Some s)"

partial_function (option) drain :: "(nat \<Rightarrow> int) \<Rightarrow> (nat \<Rightarrow> int) \<Rightarrow> nat \<Rightarrow> nat option" where
  "drain polled got n = (if 0 < polled n \<and> 0 < got n then drain polled got (Suc n) else Some n)"

definition OS_Close ::
  "int \<Rightarrow> (nat \<Rightarrow> int) \<Rightarrow> (nat \<Rightarrow> int) \<Rightarrow> int \<Rightarrow> int \<Rightarrow> os_state \<Rightarrow> (int \<times> os_state) option" where
  "OS_Close shut polled got closed fd s =
     (if fd = - 1 then Some (0, s)
      else do {
        s1 \<leftarrow> close_async fd s;
        _ \<leftarrow> (if shut = 0 then drain polled got 0 else Some 0);
        Some (closed, s1)
      })"

definition OS_IpcClose ::
  "int \<Rightarrow> (nat \<Rightarrow> int) \<Rightarrow> (nat \<Rightarrow> int) \<Rightarrow> int \<Rightarrow> int \<Rightarrow> os_state \<Rightarrow> (int \<times> os_state) option" where
  "OS_IpcClose shut polled got closed ipcFd s = OS_Close shut polled got closed ipcFd s"

definition OS_CloseRead :: "int \<Rightarrow> int \<Rightarrow> os_state \<Rightarrow> (int \<times> os_state) option" where
  "OS_CloseRead shut fd s = do {
     a \<leftarrow> aio_get s (AIO_RD_IX fd);
     s1 \<leftarrow> (if aio_inUse a then do {
        s2 \<leftarrow> aio_put s (AIO_RD_IX fd) (a\<lparr>aio_inUse := False\<rparr>);
        assert_opt (fd_ok fd);
        Some (s2\<lparr>os_readFdSet := os_readFdSet s2 - {nat fd}\<rparr>)
      } else Some s);
     Some (shut, s1)
   }"

section \<open>The event loop\<close>

text \<open>A callback: the procedure, its data and the result of the operation.\<close>

type_synonym os_callback = "nat \<Rightarrow> nat \<Rightarrow> int \<Rightarrow> os_state \<Rightarrow> os_state option"

text \<open>\<open>sel\<close> gives the result of \<^verbatim>\<open>select\<close> and the sets it leaves.\<close>

type_synonym os_select = "nat set \<Rightarrow> nat set \<Rightarrow> int \<times> nat set \<times> nat set"

definition up_to_max :: "os_state \<Rightarrow> nat set \<Rightarrow> nat set" where
  "up_to_max s A = {fd \<in> A. int fd \<le> os_maxFd s}"

definition posted_state :: "nat set \<Rightarrow> nat set \<Rightarrow> os_state \<Rightarrow> os_state" where
  "posted_state rs ws s =
     s\<lparr>os_numRdPosted := os_numRdPosted s + int (card rs), os_readFdSetPost := os_readFdSetPost s \<union> rs,
       os_readFdSet := os_readFdSet s - rs,
       os_numWrPosted := os_numWrPosted s + int (card ws), os_writeFdSetPost := os_writeFdSetPost s \<union> ws,
       os_writeFdSet := os_writeFdSet s - ws\<rparr>"

definition post_events :: "os_select \<Rightarrow> os_state \<Rightarrow> os_state option" where
  "post_events sel s =
     (if os_numRdPosted s = 0 \<and> os_numWrPosted s = 0 then
        (case sel (up_to_max s (os_readFdSet s)) (up_to_max s (os_writeFdSet s)) of (status, rs, ws) \<Rightarrow>
           if status < 0 then None else Some (posted_state (up_to_max s rs) (up_to_max s ws) s))
      else Some s)"

text \<open>The call of a procedure: its entry is freed before it is called.\<close>

definition aio_dispatch :: "os_callback \<Rightarrow> int \<Rightarrow> int \<Rightarrow> os_state \<Rightarrow> os_state option" where
  "aio_dispatch cb index len s = do {
     a \<leftarrow> aio_get s index;
     proc \<leftarrow> aio_procPtr a;
     s1 \<leftarrow> aio_put s index (a\<lparr>aio_procPtr := None, aio_inUse := False\<rparr>);
     cb proc (aio_clientData a) len s1
   }"

definition in_use :: "os_state \<Rightarrow> int \<Rightarrow> bool option" where
  "in_use s index = do { a \<leftarrow> aio_get s index; Some (aio_inUse a) }"

definition do_read :: "os_callback \<Rightarrow> (AioInfo \<Rightarrow> int) \<Rightarrow> nat \<Rightarrow> os_state \<Rightarrow> os_state option" where
  "do_read cb rd fd s =
     (if fd \<in> os_readFdSetPost s then do {
        u \<leftarrow> in_use s (AIO_RD_IX (int fd));
        if u then do {
          let s1 = s\<lparr>os_numRdPosted := os_numRdPosted s - 1, os_readFdSetPost := os_readFdSetPost s - {fd}\<rparr>;
          a \<leftarrow> aio_get s1 (AIO_RD_IX (int fd));
          aio_dispatch cb (AIO_RD_IX (int fd)) (rd a) s1
        } else Some s
      } else Some s)"

definition do_write :: "os_callback \<Rightarrow> (AioInfo \<Rightarrow> int) \<Rightarrow> nat \<Rightarrow> os_state \<Rightarrow> os_state option" where
  "do_write cb wr fd s =
     (if fd \<in> os_writeFdSetPost s then do {
        u \<leftarrow> in_use s (AIO_WR_IX (int fd));
        if u then do {
          let s1 = s\<lparr>os_numWrPosted := os_numWrPosted s - 1, os_writeFdSetPost := os_writeFdSetPost s - {fd}\<rparr>;
          a \<leftarrow> aio_get s1 (AIO_WR_IX (int fd));
          aio_dispatch cb (AIO_WR_IX (int fd)) (wr a) s1
        } else Some s
      } else Some s)"

text \<open>A callback may change \<^verbatim>\<open>maxFd\<close> while the loop runs.\<close>

partial_function (option) do_fds ::
  "os_callback \<Rightarrow> (AioInfo \<Rightarrow> int) \<Rightarrow> (AioInfo \<Rightarrow> int) \<Rightarrow> nat \<Rightarrow> os_state \<Rightarrow> os_state option" where
  "do_fds cb rd wr fd s =
     (if int fd \<le> os_maxFd s then
        Option.bind (do_read cb rd fd s) (\<lambda>s1.
          Option.bind (do_write cb wr fd s1) (\<lambda>s2. do_fds cb rd wr (Suc fd) s2))
      else Some s)"

definition OS_DoIo ::
  "os_callback \<Rightarrow> os_select \<Rightarrow> (AioInfo \<Rightarrow> int) \<Rightarrow> (AioInfo \<Rightarrow> int) \<Rightarrow> os_state \<Rightarrow> (int \<times> os_state) option" where
  "OS_DoIo cb sel rd wr s = do {
     s1 \<leftarrow> post_events sel (s\<lparr>os_asyncIoInUse := True\<rparr>);
     if os_numRdPosted s1 = 0 \<and> os_numWrPosted s1 = 0 then Some (0, s1)
     else do { s2 \<leftarrow> do_fds cb rd wr 0 s1; Some (0, s2) }
   }"

section \<open>Sequences of operations\<close>

text \<open>
  The operations a program calls, as a relation; \<open>cl\<close> restricts which descriptors it closes in which
  state. A callback does a sequence of them.
\<close>

inductive os_act :: "(int \<Rightarrow> os_state \<Rightarrow> bool) \<Rightarrow> os_state \<Rightarrow> os_state \<Rightarrow> bool" for cl where
  act_stdin: "OS_AsyncReadStdin buf len (Some p) d s = Some (r, s') \<Longrightarrow> os_act cl s s'"
| act_read: "OS_AsyncRead mem fd off buf len (Some p) d s = Some (r, s') \<Longrightarrow> os_act cl s s'"
| act_write: "OS_AsyncWrite mem fd off buf len (Some p) d s = Some (r, s') \<Longrightarrow> os_act cl s s'"
| act_close: "cl fd s \<Longrightarrow> OS_Close shut polled got closed fd s = Some (r, s') \<Longrightarrow> os_act cl s s'"
| act_close_read: "cl fd s \<Longrightarrow> OS_CloseRead shut fd s = Some (r, s') \<Longrightarrow> os_act cl s s'"

definition callback_ok :: "(int \<Rightarrow> os_state \<Rightarrow> bool) \<Rightarrow> os_callback \<Rightarrow> bool" where
  "callback_ok cl cb \<longleftrightarrow> (\<forall>p d n s. \<exists>s'. cb p d n s = Some s' \<and> (os_act cl)\<^sup>*\<^sup>* s s')"

text \<open>\<^verbatim>\<open>select\<close> returns a part of the sets it is given, unless it fails.\<close>

definition select_ok :: "os_select \<Rightarrow> bool" where
  "select_ok sel \<longleftrightarrow> (\<forall>R W. 0 \<le> fst (sel R W) \<and> fst (snd (sel R W)) \<subseteq> R \<and> snd (snd (sel R W)) \<subseteq> W)"

text \<open>Calls of operations and of the event loop.\<close>

inductive os_step :: "(int \<Rightarrow> os_state \<Rightarrow> bool) \<Rightarrow> os_state \<Rightarrow> os_state \<Rightarrow> bool" for cl where
  step_act: "os_act cl s s' \<Longrightarrow> os_step cl s s'"
| step_doio: "callback_ok cl cb \<Longrightarrow> select_ok sel \<Longrightarrow> OS_DoIo cb sel rd wr s = Some (r, s') \<Longrightarrow> os_step cl s s'"

definition any_close :: "int \<Rightarrow> os_state \<Rightarrow> bool" where
  "any_close fd s \<longleftrightarrow> True"

definition quiet_close :: "int \<Rightarrow> os_state \<Rightarrow> bool" where
  "quiet_close fd s \<longleftrightarrow> nat fd \<notin> os_readFdSetPost s \<and> nat fd \<notin> os_writeFdSetPost s"

section \<open>Invariants\<close>

definition aio_used :: "os_state \<Rightarrow> nat \<Rightarrow> bool" where
  "aio_used s i \<longleftrightarrow> (case os_asyncIoTable s of None \<Rightarrow> False | Some tb \<Rightarrow> i < length tb \<and> aio_inUse (tb ! i))"

definition procs_ok :: "AioInfo list \<Rightarrow> bool" where
  "procs_ok tb \<longleftrightarrow> (\<forall>a \<in> set tb. aio_inUse a \<longrightarrow> aio_procPtr a \<noteq> None)"

definition os_ok :: "os_state \<Rightarrow> bool" where
  "os_ok s \<longleftrightarrow>
     (\<exists>tb. os_asyncIoTable s = Some tb \<and> length tb = os_asyncIoTableSize s \<and> procs_ok tb) \<and>
     0 < os_asyncIoTableSize s \<and> even (os_asyncIoTableSize s) \<and>
     2 * os_maxFd s + 1 < int (os_asyncIoTableSize s) \<and> os_maxFd s < 1024 \<and>
     (\<forall>fd \<in> os_readFdSet s \<union> os_readFdSetPost s \<union> os_writeFdSet s \<union> os_writeFdSetPost s. int fd \<le> os_maxFd s) \<and>
     int (card (os_readFdSetPost s)) \<le> os_numRdPosted s \<and> int (card (os_writeFdSetPost s)) \<le> os_numWrPosted s"

text \<open>Every pending operation is watched or ready, and the ready ones are counted.\<close>

definition os_balanced :: "os_state \<Rightarrow> bool" where
  "os_balanced s \<longleftrightarrow> os_ok s \<and>
     os_numRdPosted s = int (card (os_readFdSetPost s)) \<and> os_numWrPosted s = int (card (os_writeFdSetPost s)) \<and>
     os_readFdSet s \<inter> os_readFdSetPost s = {} \<and> os_writeFdSet s \<inter> os_writeFdSetPost s = {} \<and>
     (\<forall>fd. aio_used s (2 * fd) \<longleftrightarrow> fd \<in> os_readFdSet s \<union> os_readFdSetPost s) \<and>
     (\<forall>fd. aio_used s (2 * fd + 1) \<longleftrightarrow> fd \<in> os_writeFdSet s \<union> os_writeFdSetPost s)"

definition freed :: "nat \<Rightarrow> os_state \<Rightarrow> os_state" where
  "freed i s = s\<lparr>os_asyncIoTable := map_option (\<lambda>tb. tb[i := (tb ! i)\<lparr>aio_procPtr := None, aio_inUse := False\<rparr>])
     (os_asyncIoTable s)\<rparr>"

definition unpost_rd :: "nat \<Rightarrow> os_state \<Rightarrow> os_state" where
  "unpost_rd fd s = s\<lparr>os_numRdPosted := os_numRdPosted s - 1, os_readFdSetPost := os_readFdSetPost s - {fd}\<rparr>"

definition unpost_wr :: "nat \<Rightarrow> os_state \<Rightarrow> os_state" where
  "unpost_wr fd s = s\<lparr>os_numWrPosted := os_numWrPosted s - 1, os_writeFdSetPost := os_writeFdSetPost s - {fd}\<rparr>"

section \<open>Facts on the operations\<close>

lemmas aio_defs = aio_get_def aio_put_def aio_request_def assert_opt_def Let_def

lemma bind_SomeE:
  assumes "Option.bind x f = Some y"
  obtains z where "x = Some z" "f z = Some y"
  using assms by (cases x) auto

definition grown :: "int \<Rightarrow> os_state \<Rightarrow> AioInfo list \<Rightarrow> os_state \<Rightarrow> bool" where
  "grown i s ext s' \<longleftrightarrow> s' = s\<lparr>os_asyncIoTableSize := os_asyncIoTableSize s + length ext,
       os_asyncIoTable := map_option (\<lambda>tb. tb @ ext) (os_asyncIoTable s)\<rparr> \<and>
     set ext \<subseteq> {aio_zero} \<and> (even (os_asyncIoTableSize s) \<longrightarrow> even (length ext)) \<and>
     i < int (os_asyncIoTableSize s + length ext)"

lemma grow_to_shape:
  assumes "grow_to mem i s = Some s'"
  shows "\<exists>ext. grown i s ext s'"
proof (rule grow_to.raw_induct [where P = "\<lambda>mem i s s'. \<exists>ext. grown i s ext s'", OF _ assms], goal_cases)
  case (1 gt mem i s s')
  show ?case
  proof (cases "int (os_asyncIoTableSize s) \<le> i")
    case True
    with 1(2) obtain tb where tb: "os_asyncIoTable s = Some tb"
      and n: "gt mem i (s\<lparr>os_asyncIoTableSize := os_asyncIoTableSize s * 2,
             os_asyncIoTable := Some (tb @ replicate (os_asyncIoTableSize s) aio_zero)\<rparr>) = Some s'"
      by (auto simp: GrowAsyncTable_def Let_def assert_opt_def split: if_splits option.splits Option.bind_splits)
    obtain ext where e: "s' = s\<lparr>os_asyncIoTableSize := os_asyncIoTableSize s * 2 + length ext,
             os_asyncIoTable := Some ((tb @ replicate (os_asyncIoTableSize s) aio_zero) @ ext)\<rparr>"
        "set ext \<subseteq> {aio_zero}" "even (length ext)" "i < int (os_asyncIoTableSize s * 2 + length ext)"
      using 1(1) [OF n] unfolding grown_def by (elim exE conjE) (rule that, simp_all)
    show ?thesis
      by (intro exI [of _ "replicate (os_asyncIoTableSize s) aio_zero @ ext"]) (use e tb in \<open>auto simp: grown_def set_replicate_conv_if split: if_splits\<close>)
  next
    case False
    with 1(2) show ?thesis by (intro exI [of _ "[]"]) (cases "os_asyncIoTable s"; auto simp: grown_def)
  qed
qed

lemma grow_to_total:
  assumes "os_asyncIoTable s = Some tb" "0 < os_asyncIoTableSize s" "\<forall>n. mem n"
  shows "\<exists>s'. grow_to mem i s = Some s'"
  using assms
proof (induction "nat (i + 1 - int (os_asyncIoTableSize s))" arbitrary: s tb rule: less_induct)
  case less
  show ?case
  proof (cases "int (os_asyncIoTableSize s) \<le> i")
    case True
    let ?s = "s\<lparr>os_asyncIoTableSize := os_asyncIoTableSize s * 2,
       os_asyncIoTable := Some (tb @ replicate (os_asyncIoTableSize s) aio_zero)\<rparr>"
    have "GrowAsyncTable mem s = Some ?s"
      using less.prems by (simp add: GrowAsyncTable_def assert_opt_def Let_def)
    moreover have "\<exists>s'. grow_to mem i ?s = Some s'"
      using less.prems True by (intro less.hyps) auto
    ultimately show ?thesis using True by (subst grow_to.simps) auto
  qed (subst grow_to.simps, simp)
qed

lemma OS_AsyncRead_shape:
  assumes "OS_AsyncRead mem fd off buf len p d s = Some (r, s')"
  shows "\<exists>tb ext. os_asyncIoTable s = Some tb \<and> 0 \<le> fd \<and> fd < 1024 \<and> r = 0 \<and>
     s' = s\<lparr>os_asyncIoInUse := True, os_maxFd := max (os_maxFd s) fd, os_asyncIoTableSize := os_asyncIoTableSize s + length ext,
       os_asyncIoTable := Some ((tb @ ext)[2 * nat fd := aio_request p d fd len off buf]),
       os_readFdSet := insert (nat fd) (os_readFdSet s)\<rparr> \<and>
     2 * nat fd < length (tb @ ext) \<and> \<not> aio_inUse ((tb @ ext) ! (2 * nat fd)) \<and>
     set ext \<subseteq> {aio_zero} \<and> (even (os_asyncIoTableSize s) \<longrightarrow> even (length ext)) \<and>
     2 * fd < int (os_asyncIoTableSize s + length ext)"
proof -
  let ?s = "s\<lparr>os_asyncIoInUse := True, os_maxFd := (if os_maxFd s < fd then fd else os_maxFd s)\<rparr>"
  obtain s2 a s3 where g: "grow_to mem (AIO_RD_IX fd) ?s = Some s2" "aio_get s2 (AIO_RD_IX fd) = Some a" "\<not> aio_inUse a"
    "aio_put s2 (AIO_RD_IX fd) (aio_request p d fd len off buf) = Some s3" "fd_ok fd"
    "r = 0" "s' = s3\<lparr>os_readFdSet := insert (nat fd) (os_readFdSet s3)\<rparr>"
    using assms unfolding OS_AsyncRead_def Let_def
    by (auto elim!: bind_SomeE simp: assert_opt_def split: if_splits)
  obtain ext where e: "s2 = ?s\<lparr>os_asyncIoTableSize := os_asyncIoTableSize ?s + length ext,
       os_asyncIoTable := map_option (\<lambda>tb. tb @ ext) (os_asyncIoTable ?s)\<rparr>"
     "set ext \<subseteq> {aio_zero}" "even (os_asyncIoTableSize s) \<longrightarrow> even (length ext)"
     "AIO_RD_IX fd < int (os_asyncIoTableSize s + length ext)"
    using grow_to_shape [OF g(1)] unfolding grown_def by (elim exE conjE) (rule that, simp_all)
  obtain tb where tb: "os_asyncIoTable s = Some tb"
    using g(2) e(1) by (cases "os_asyncIoTable s") (auto simp: aio_get_def)
  have fd: "0 \<le> fd" "fd < 1024" "nat (AIO_RD_IX fd) = 2 * nat fd"
    using g(5) by (auto simp: fd_ok_def AIO_RD_IX_def nat_mult_distrib nat_add_distrib)
  have u: "2 * nat fd < length (tb @ ext)" "\<not> aio_inUse ((tb @ ext) ! (2 * nat fd))"
    using g(2,3) e(1) tb fd(3) by (auto simp: aio_get_def assert_opt_def split: if_splits)
  have "s3 = s2\<lparr>os_asyncIoTable := Some ((tb @ ext)[2 * nat fd := aio_request p d fd len off buf])\<rparr>"
    using g(4) e(1) tb fd(3) by (auto simp: aio_put_def assert_opt_def split: if_splits)
  with g(6,7) e tb fd u show ?thesis
    by (intro exI [of _ tb] exI [of _ ext]) (simp add: max_def AIO_RD_IX_def)
qed

lemma OS_AsyncWrite_shape:
  assumes "OS_AsyncWrite mem fd off buf len p d s = Some (r, s')"
  shows "\<exists>tb ext. os_asyncIoTable s = Some tb \<and> 0 \<le> fd \<and> fd < 1024 \<and> r = 0 \<and>
     s' = s\<lparr>os_asyncIoInUse := True, os_maxFd := max (os_maxFd s) fd, os_asyncIoTableSize := os_asyncIoTableSize s + length ext,
       os_asyncIoTable := Some ((tb @ ext)[2 * nat fd + 1 := aio_request p d fd len off buf]),
       os_writeFdSet := insert (nat fd) (os_writeFdSet s)\<rparr> \<and>
     2 * nat fd + 1 < length (tb @ ext) \<and> \<not> aio_inUse ((tb @ ext) ! (2 * nat fd + 1)) \<and>
     set ext \<subseteq> {aio_zero} \<and> (even (os_asyncIoTableSize s) \<longrightarrow> even (length ext)) \<and>
     2 * fd + 1 < int (os_asyncIoTableSize s + length ext)"
proof -
  let ?s = "s\<lparr>os_asyncIoInUse := True, os_maxFd := (if os_maxFd s < fd then fd else os_maxFd s)\<rparr>"
  obtain s2 a s3 where g: "grow_to mem (AIO_WR_IX fd) ?s = Some s2" "aio_get s2 (AIO_WR_IX fd) = Some a" "\<not> aio_inUse a"
    "aio_put s2 (AIO_WR_IX fd) (aio_request p d fd len off buf) = Some s3" "fd_ok fd"
    "r = 0" "s' = s3\<lparr>os_writeFdSet := insert (nat fd) (os_writeFdSet s3)\<rparr>"
    using assms unfolding OS_AsyncWrite_def Let_def
    by (auto elim!: bind_SomeE simp: assert_opt_def split: if_splits)
  obtain ext where e: "s2 = ?s\<lparr>os_asyncIoTableSize := os_asyncIoTableSize ?s + length ext,
       os_asyncIoTable := map_option (\<lambda>tb. tb @ ext) (os_asyncIoTable ?s)\<rparr>"
     "set ext \<subseteq> {aio_zero}" "even (os_asyncIoTableSize s) \<longrightarrow> even (length ext)"
     "AIO_WR_IX fd < int (os_asyncIoTableSize s + length ext)"
    using grow_to_shape [OF g(1)] unfolding grown_def by (elim exE conjE) (rule that, simp_all)
  obtain tb where tb: "os_asyncIoTable s = Some tb"
    using g(2) e(1) by (cases "os_asyncIoTable s") (auto simp: aio_get_def)
  have fd: "0 \<le> fd" "fd < 1024" "nat (AIO_WR_IX fd) = 2 * nat fd + 1"
    using g(5) by (auto simp: fd_ok_def AIO_WR_IX_def nat_mult_distrib nat_add_distrib)
  have u: "2 * nat fd + 1 < length (tb @ ext)" "\<not> aio_inUse ((tb @ ext) ! (2 * nat fd + 1))"
    using g(2,3) e(1) tb fd(3) by (auto simp: aio_get_def assert_opt_def split: if_splits)
  have "s3 = s2\<lparr>os_asyncIoTable := Some ((tb @ ext)[2 * nat fd + 1 := aio_request p d fd len off buf])\<rparr>"
    using g(4) e(1) tb fd(3) by (auto simp: aio_put_def assert_opt_def split: if_splits)
  with g(6,7) e tb fd u show ?thesis
    by (intro exI [of _ tb] exI [of _ ext]) (simp add: max_def AIO_WR_IX_def)
qed


lemma OS_AsyncReadStdin_shape:
  assumes "OS_AsyncReadStdin buf len p d s = Some (r, s')"
  shows "\<exists>tb. os_asyncIoTable s = Some tb \<and> tb \<noteq> [] \<and> \<not> aio_inUse (tb ! 0) \<and> r = 0 \<and>
     s' = s\<lparr>os_asyncIoInUse := True, os_maxFd := max (os_maxFd s) 0,
       os_asyncIoTable := Some (tb[0 := aio_request p d 0 len 0 buf]), os_readFdSet := insert 0 (os_readFdSet s)\<rparr>"
  using assms unfolding OS_AsyncReadStdin_def AIO_RD_IX_def
  by (auto elim!: bind_SomeE simp: aio_get_def aio_put_def assert_opt_def Let_def max_def split: if_splits)

definition unused :: "AioInfo list \<Rightarrow> nat \<Rightarrow> AioInfo list" where
  "unused tb i = tb[i := (tb ! i)\<lparr>aio_inUse := False\<rparr>]"

lemma length_unused [simp]: "length (unused tb i) = length tb"
  by (simp add: unused_def)

lemma aio_drop_shape:
  assumes "aio_drop s i = Some s'"
  shows "\<exists>tb. os_asyncIoTable s = Some tb \<and> 0 \<le> i \<and> nat i < length tb \<and>
     s' = s\<lparr>os_asyncIoTable := Some (unused tb (nat i))\<rparr>"
proof -
  obtain a where a: "aio_get s i = Some a"
    and p: "(if aio_inUse a then aio_put s i (a\<lparr>aio_inUse := False\<rparr>) else Some s) = Some s'"
    using assms unfolding aio_drop_def by (elim bind_SomeE)
  obtain tb where tb: "os_asyncIoTable s = Some tb" "0 \<le> i" "nat i < length tb" "a = tb ! nat i"
    using a by (auto simp: aio_get_def assert_opt_def elim!: bind_SomeE split: if_splits)
  have "unused tb (nat i) = tb" if "\<not> aio_inUse a"
    using that tb by (simp add: unused_def list_update_same_conv)
  with p tb show ?thesis
    by (auto simp: aio_put_def assert_opt_def unused_def split: if_splits)
qed

lemma close_async_shape:
  assumes "close_async fd s = Some s'" "os_asyncIoInUse s"
  shows "\<exists>tb. os_asyncIoTable s = Some tb \<and> 0 \<le> fd \<and> fd < 1024 \<and> 2 * nat fd + 1 < length tb \<and>
     s' = s\<lparr>os_readFdSet := os_readFdSet s - {nat fd}, os_readFdSetPost := os_readFdSetPost s - {nat fd},
       os_writeFdSet := os_writeFdSet s - {nat fd}, os_writeFdSetPost := os_writeFdSetPost s - {nat fd},
       os_asyncIoTable := Some (unused (unused tb (2 * nat fd)) (2 * nat fd + 1)),
       os_maxFd := (if os_maxFd s = fd then fd - 1 else os_maxFd s)\<rparr>"
proof -
  let ?s1 = "s\<lparr>os_readFdSet := os_readFdSet s - {nat fd}, os_readFdSetPost := os_readFdSetPost s - {nat fd}\<rparr>"
  obtain s2 s4 where d: "fd_ok fd" "aio_drop ?s1 (AIO_RD_IX fd) = Some s2"
    "aio_drop (s2\<lparr>os_writeFdSet := os_writeFdSet s2 - {nat fd}, os_writeFdSetPost := os_writeFdSetPost s2 - {nat fd}\<rparr>)
       (AIO_WR_IX fd) = Some s4"
    "s' = (if os_maxFd s4 = fd then s4\<lparr>os_maxFd := os_maxFd s4 - 1\<rparr> else s4)"
    using assms unfolding close_async_def Let_def
    by (auto simp: assert_opt_def elim!: bind_SomeE split: if_splits)
  have fd: "0 \<le> fd" "fd < 1024" "nat (AIO_RD_IX fd) = 2 * nat fd" "nat (AIO_WR_IX fd) = 2 * nat fd + 1"
    using d(1) by (auto simp: fd_ok_def AIO_RD_IX_def AIO_WR_IX_def nat_mult_distrib nat_add_distrib)
  obtain tb where "os_asyncIoTable s = Some tb" "s2 = ?s1\<lparr>os_asyncIoTable := Some (unused tb (2 * nat fd))\<rparr>"
    using aio_drop_shape [OF d(2)] fd by auto
  with aio_drop_shape [OF d(3)] d(4) fd show ?thesis by (intro exI [of _ tb]) auto
qed

lemma OS_Close_shape:
  assumes "OS_Close shut polled got closed fd s = Some (r, s')"
  shows "s' = s \<or> os_asyncIoInUse s \<and> close_async fd s = Some s'"
  using assms by (auto simp: OS_Close_def close_async_def elim!: bind_SomeE split: if_splits)

lemma OS_CloseRead_shape:
  assumes "OS_CloseRead shut fd s = Some (r, s')"
  shows "s' = s \<or> (\<exists>tb. os_asyncIoTable s = Some tb \<and> 0 \<le> fd \<and> fd < 1024 \<and> 2 * nat fd < length tb \<and>
     aio_inUse (tb ! (2 * nat fd)) \<and>
     s' = s\<lparr>os_readFdSet := os_readFdSet s - {nat fd}, os_asyncIoTable := Some (unused tb (2 * nat fd))\<rparr>)"
  using assms unfolding OS_CloseRead_def
  by (auto simp: aio_get_def aio_put_def assert_opt_def AIO_RD_IX_def fd_ok_def unused_def nat_mult_distrib mult.commute
      elim!: bind_SomeE split: if_splits)

section \<open>What the operations keep\<close>

lemma aio_zero_unused [simp]: "\<not> aio_inUse aio_zero"
  by (simp add: aio_zero_def)

lemma aio_request_simps [simp]:
  "aio_inUse (aio_request p d fd len off buf)" "aio_procPtr (aio_request p d fd len off buf) = p"
  by (simp_all add: aio_request_def)

lemma aio_used_table [simp]:
  "aio_used (s\<lparr>os_asyncIoTable := Some tb\<rparr>) i \<longleftrightarrow> i < length tb \<and> aio_inUse (tb ! i)"
  by (simp add: aio_used_def)

lemma aio_used_cong: "os_asyncIoTable s = Some tb \<Longrightarrow> aio_used s i \<longleftrightarrow> i < length tb \<and> aio_inUse (tb ! i)"
  by (simp add: aio_used_def)

lemma used_append:
  "set ext \<subseteq> {aio_zero} \<Longrightarrow> (i < length (tb @ ext) \<and> aio_inUse ((tb @ ext) ! i)) \<longleftrightarrow> (i < length tb \<and> aio_inUse (tb ! i))"
  by (cases "i < length tb") (auto simp: nth_append dest: subsetD [OF _ nth_mem, of ext "{aio_zero}" "i - length tb"])

lemma used_update:
  "j < length tb \<Longrightarrow> (i < length (tb[j := a]) \<and> aio_inUse (tb[j := a] ! i)) \<longleftrightarrow>
     (if i = j then aio_inUse a else i < length tb \<and> aio_inUse (tb ! i))"
  by (auto simp: nth_list_update)

lemma used_unused:
  "(i < length (unused tb j) \<and> aio_inUse (unused tb j ! i)) \<longleftrightarrow> (i \<noteq> j \<and> i < length tb \<and> aio_inUse (tb ! i))"
  by (cases "i = j") (auto simp: unused_def nth_list_update_neq)

lemma set_unusedD: "a \<in> set (unused tb i) \<Longrightarrow> aio_inUse a \<Longrightarrow> a \<in> set tb"
  by (metis used_unused in_set_conv_nth unused_def nth_list_update_neq)

lemma procs_ok_unused: "procs_ok tb \<Longrightarrow> procs_ok (unused tb i)"
  by (auto simp: procs_ok_def dest: set_unusedD)

lemma procs_ok_update: "procs_ok tb \<Longrightarrow> (aio_inUse a \<longrightarrow> aio_procPtr a \<noteq> None) \<Longrightarrow> procs_ok (tb[i := a])"
  using set_update_subset_insert [of tb i a] by (auto simp: procs_ok_def)

lemma procs_ok_append: "procs_ok tb \<Longrightarrow> set ext \<subseteq> {aio_zero} \<Longrightarrow> procs_ok (tb @ ext)"
  by (auto simp: procs_ok_def)

lemma os_okE:
  assumes "os_ok s"
  obtains tb where "os_asyncIoTable s = Some tb" "length tb = os_asyncIoTableSize s" "procs_ok tb"
    "0 < os_asyncIoTableSize s" "even (os_asyncIoTableSize s)"
    "2 * os_maxFd s + 1 < int (os_asyncIoTableSize s)" "os_maxFd s < 1024"
    "\<And>fd. fd \<in> os_readFdSet s \<or> fd \<in> os_readFdSetPost s \<or> fd \<in> os_writeFdSet s \<or> fd \<in> os_writeFdSetPost s \<Longrightarrow> int fd \<le> os_maxFd s"
    "int (card (os_readFdSetPost s)) \<le> os_numRdPosted s" "int (card (os_writeFdSetPost s)) \<le> os_numWrPosted s"
  using assms unfolding os_ok_def by blast

lemma finite_below_max: "(\<And>fd. fd \<in> A \<Longrightarrow> int fd \<le> m) \<Longrightarrow> finite A"
  by (rule finite_subset [of _ "{..nat m}"]) force+

lemma os_ok_finite:
  assumes "os_ok s"
  shows "finite (os_readFdSet s)" "finite (os_readFdSetPost s)" "finite (os_writeFdSet s)" "finite (os_writeFdSetPost s)"
  by (rule os_okE [OF assms], rule finite_below_max, blast)+

definition below_max :: "int \<Rightarrow> nat set \<Rightarrow> bool" where
  "below_max m A \<longleftrightarrow> (\<forall>fd \<in> A. int fd \<le> m)"

lemma os_ok_iff:
  "os_ok s \<longleftrightarrow> (\<exists>tb. os_asyncIoTable s = Some tb \<and> length tb = os_asyncIoTableSize s \<and> procs_ok tb) \<and>
     0 < os_asyncIoTableSize s \<and> even (os_asyncIoTableSize s) \<and>
     2 * os_maxFd s + 1 < int (os_asyncIoTableSize s) \<and> os_maxFd s < 1024 \<and>
     below_max (os_maxFd s) (os_readFdSet s) \<and> below_max (os_maxFd s) (os_readFdSetPost s) \<and>
     below_max (os_maxFd s) (os_writeFdSet s) \<and> below_max (os_maxFd s) (os_writeFdSetPost s) \<and>
     int (card (os_readFdSetPost s)) \<le> os_numRdPosted s \<and> int (card (os_writeFdSetPost s)) \<le> os_numWrPosted s"
  unfolding os_ok_def below_max_def ball_Un by blast

lemma below_max_mono: "below_max m A \<Longrightarrow> B \<subseteq> A \<Longrightarrow> m \<le> n \<Longrightarrow> below_max n B"
  unfolding below_max_def by force

lemma below_max_insert [simp]: "below_max m (insert fd A) \<longleftrightarrow> int fd \<le> m \<and> below_max m A"
  by (auto simp: below_max_def)

lemma below_max_max: "below_max m A \<Longrightarrow> below_max (max m n) A"
  by (rule below_max_mono) auto

lemma below_max_diff: "below_max m A \<Longrightarrow> below_max m (A - B)"
  by (rule below_max_mono) auto

lemma below_max_pred: "below_max m A \<Longrightarrow> below_max (m - 1) (A - {nat m})"
  unfolding below_max_def by fastforce

lemma os_ok_request:
  assumes s: "os_ok s" "os_asyncIoTable s = Some tb" and ext: "set ext \<subseteq> {aio_zero}" "even (length ext)"
    and fd: "0 \<le> fd" "fd < 1024" "2 * fd < int (os_asyncIoTableSize s + length ext)"
    and R: "R \<subseteq> insert (nat fd) (os_readFdSet s)" and W: "W \<subseteq> insert (nat fd) (os_writeFdSet s)"
  shows "os_ok (s\<lparr>os_asyncIoInUse := b, os_maxFd := max (os_maxFd s) fd,
     os_asyncIoTableSize := os_asyncIoTableSize s + length ext,
     os_asyncIoTable := Some ((tb @ ext)[i := aio_request (Some p) d fd len off buf]),
     os_readFdSet := R, os_writeFdSet := W\<rparr>)"
proof -
  have even_sz: "even (os_asyncIoTableSize s)" using s(1) by (simp add: os_ok_iff)
  have "2 * fd + 1 < int (os_asyncIoTableSize s + length ext)"
    using fd(3) ext(2) even_sz by presburger
  moreover have "procs_ok ((tb @ ext)[i := aio_request (Some p) d fd len off buf])"
    using s ext by (intro procs_ok_update procs_ok_append) (auto simp: os_ok_iff)
  moreover have "below_max (max (os_maxFd s) fd) R"
    using s(1) fd(1) by (intro below_max_mono [OF _ R order_refl]) (simp add: os_ok_iff below_max_max)
  moreover have "below_max (max (os_maxFd s) fd) W"
    using s(1) fd(1) by (intro below_max_mono [OF _ W order_refl]) (simp add: os_ok_iff below_max_max)
  ultimately show ?thesis
    using s ext(2) fd by (auto simp: os_ok_iff intro!: below_max_max)
qed

lemma os_ok_read:
  assumes "os_ok s" "OS_AsyncRead mem fd off buf len (Some p) d s = Some (r, s')"
  shows "os_ok s'"
proof -
  obtain tb ext where e: "os_asyncIoTable s = Some tb" "0 \<le> fd" "fd < 1024"
     "s' = s\<lparr>os_asyncIoInUse := True, os_maxFd := max (os_maxFd s) fd, os_asyncIoTableSize := os_asyncIoTableSize s + length ext,
       os_asyncIoTable := Some ((tb @ ext)[2 * nat fd := aio_request (Some p) d fd len off buf]),
       os_readFdSet := insert (nat fd) (os_readFdSet s)\<rparr>" "set ext \<subseteq> {aio_zero}" "even (length ext)"
     "2 * fd < int (os_asyncIoTableSize s + length ext)"
    using OS_AsyncRead_shape [OF assms(2)] assms(1) unfolding os_ok_iff by (elim exE conjE) (rule that, simp_all)
  show ?thesis
    using os_ok_request [OF assms(1) e(1,5,6,2,3,7) subset_refl subset_insertI, where b = True and i = "2 * nat fd" and p = p and d = d and len = len and off = off and buf = buf] e(4)
    by simp
qed

lemma os_ok_write:
  assumes "os_ok s" "OS_AsyncWrite mem fd off buf len (Some p) d s = Some (r, s')"
  shows "os_ok s'"
proof -
  obtain tb ext where e: "os_asyncIoTable s = Some tb" "0 \<le> fd" "fd < 1024"
     "s' = s\<lparr>os_asyncIoInUse := True, os_maxFd := max (os_maxFd s) fd, os_asyncIoTableSize := os_asyncIoTableSize s + length ext,
       os_asyncIoTable := Some ((tb @ ext)[2 * nat fd + 1 := aio_request (Some p) d fd len off buf]),
       os_writeFdSet := insert (nat fd) (os_writeFdSet s)\<rparr>" "set ext \<subseteq> {aio_zero}" "even (length ext)"
     "2 * fd + 1 < int (os_asyncIoTableSize s + length ext)"
    using OS_AsyncWrite_shape [OF assms(2)] assms(1) unfolding os_ok_iff by (elim exE conjE) (rule that, simp_all)
  show ?thesis
    using os_ok_request [OF assms(1) e(1,5,6,2,3) _ subset_insertI subset_refl, where b = True and i = "2 * nat fd + 1" and p = p and d = d and len = len and off = off and buf = buf] e(4,7)
    by simp
qed

lemma os_ok_stdin:
  assumes "os_ok s" "OS_AsyncReadStdin buf len (Some p) d s = Some (r, s')"
  shows "os_ok s'"
proof -
  obtain tb where e: "os_asyncIoTable s = Some tb"
     "s' = s\<lparr>os_asyncIoInUse := True, os_maxFd := max (os_maxFd s) 0,
       os_asyncIoTable := Some (tb[0 := aio_request (Some p) d 0 len 0 buf]), os_readFdSet := insert 0 (os_readFdSet s)\<rparr>"
    using OS_AsyncReadStdin_shape [OF assms(2)] by blast
  have "2 * 0 < int (os_asyncIoTableSize s + length ([] :: AioInfo list))"
    using assms(1) by (simp add: os_ok_iff)
  from os_ok_request [OF assms(1) e(1) _ _ _ _ this subset_refl subset_insertI, where b = True and i = 0 and p = p and d = d and len = len and off = 0 and buf = buf] e(2)
  show ?thesis by simp
qed

lemma card_minus_le: "card (A - {x}) \<le> card A"
  by (cases "finite A") (simp_all add: card_Diff1_le)

lemma os_ok_close_async:
  assumes "os_ok s" "close_async fd s = Some s'" "os_asyncIoInUse s"
  shows "os_ok s'"
proof -
  obtain tb where e: "os_asyncIoTable s = Some tb" "0 \<le> fd"
     "s' = s\<lparr>os_readFdSet := os_readFdSet s - {nat fd}, os_readFdSetPost := os_readFdSetPost s - {nat fd},
       os_writeFdSet := os_writeFdSet s - {nat fd}, os_writeFdSetPost := os_writeFdSetPost s - {nat fd},
       os_asyncIoTable := Some (unused (unused tb (2 * nat fd)) (2 * nat fd + 1)),
       os_maxFd := (if os_maxFd s = fd then fd - 1 else os_maxFd s)\<rparr>"
    using close_async_shape [OF assms(2,3)] by (elim exE conjE) (rule that)
  have c: "int (card (os_readFdSetPost s - {nat fd})) \<le> os_numRdPosted s"
      "int (card (os_writeFdSetPost s - {nat fd})) \<le> os_numWrPosted s"
    using card_minus_le [of "os_readFdSetPost s" "nat fd"] card_minus_le [of "os_writeFdSetPost s" "nat fd"] assms(1)
    unfolding os_ok_iff by linarith+
  have p: "procs_ok (unused (unused tb (2 * nat fd)) (2 * nat fd + 1))"
    using assms(1) e(1) by (intro procs_ok_unused) (simp add: os_ok_iff)
  show ?thesis
    using assms(1) e c p by (auto simp: os_ok_iff intro: below_max_diff below_max_pred)
qed

lemma os_ok_close:
  assumes "os_ok s" "OS_Close shut polled got closed fd s = Some (r, s')"
  shows "os_ok s'"
  using OS_Close_shape [OF assms(2)] os_ok_close_async [OF assms(1)] assms(1) by auto

lemma os_ok_close_read:
  assumes "os_ok s" "OS_CloseRead shut fd s = Some (r, s')"
  shows "os_ok s'"
  using OS_CloseRead_shape [OF assms(2)] assms(1)
  by (auto simp: os_ok_iff intro: below_max_diff procs_ok_unused)

lemma os_ok_flag [simp]: "os_ok (s\<lparr>os_asyncIoInUse := b\<rparr>) \<longleftrightarrow> os_ok s"
  by (simp add: os_ok_iff)

lemma os_ok_posted:
  assumes "os_ok s" "rs \<subseteq> os_readFdSet s" "ws \<subseteq> os_writeFdSet s"
  shows "os_ok (posted_state rs ws s)"
proof -
  have "below_max (os_maxFd s) rs" "below_max (os_maxFd s) ws"
    using assms by (auto simp: os_ok_iff below_max_def)
  moreover have "card (os_readFdSetPost s \<union> rs) \<le> card (os_readFdSetPost s) + card rs"
    "card (os_writeFdSetPost s \<union> ws) \<le> card (os_writeFdSetPost s) + card ws"
    by (rule card_Un_le)+
  ultimately show ?thesis
    using assms(1) by (auto simp: os_ok_iff posted_state_def below_max_def)
qed

lemma procs_ok_freed: "procs_ok tb \<Longrightarrow> procs_ok (tb[i := (tb ! i)\<lparr>aio_procPtr := None, aio_inUse := False\<rparr>])"
  by (rule procs_ok_update) auto

lemma os_ok_unpost:
  assumes "os_ok s"
  shows "fd \<in> os_readFdSetPost s \<Longrightarrow> os_ok (freed i (unpost_rd fd s))"
    and "fd \<in> os_writeFdSetPost s \<Longrightarrow> os_ok (freed i (unpost_wr fd s))"
proof -
  show "os_ok (freed i (unpost_rd fd s))" if "fd \<in> os_readFdSetPost s"
    using assms that card_Suc_Diff1 [OF os_ok_finite(2) [OF assms] that]
    by (auto simp: os_ok_iff freed_def unpost_rd_def intro: below_max_diff procs_ok_freed)
  show "os_ok (freed i (unpost_wr fd s))" if "fd \<in> os_writeFdSetPost s"
    using assms that card_Suc_Diff1 [OF os_ok_finite(4) [OF assms] that]
    by (auto simp: os_ok_iff freed_def unpost_wr_def intro: below_max_diff procs_ok_freed)
qed

section \<open>Balanced states\<close>

lemma used_request:
  assumes "os_asyncIoTable s = Some tb" "set ext \<subseteq> {aio_zero}" "j < length (tb @ ext)"
  shows "i < length ((tb @ ext)[j := aio_request p d fd len off buf]) \<and>
       aio_inUse ((tb @ ext)[j := aio_request p d fd len off buf] ! i) \<longleftrightarrow> i = j \<or> aio_used s i"
  using used_append [OF assms(2), of i tb] aio_used_cong [OF assms(1), of i] assms(3)
  unfolding used_update [OF assms(3)] by auto

lemma not_used:
  assumes "os_asyncIoTable s = Some tb" "\<not> aio_inUse ((tb @ ext) ! j)"
  shows "\<not> aio_used s j"
  using assms by (auto simp: aio_used_def nth_append)

lemma balanced_read:
  assumes "os_balanced s" "OS_AsyncRead mem fd off buf len (Some p) d s = Some (r, s')"
  shows "os_balanced s'"
proof -
  obtain tb ext where e: "os_asyncIoTable s = Some tb"
     "s' = s\<lparr>os_asyncIoInUse := True, os_maxFd := max (os_maxFd s) fd, os_asyncIoTableSize := os_asyncIoTableSize s + length ext,
       os_asyncIoTable := Some ((tb @ ext)[2 * nat fd := aio_request (Some p) d fd len off buf]),
       os_readFdSet := insert (nat fd) (os_readFdSet s)\<rparr>" "set ext \<subseteq> {aio_zero}"
     "2 * nat fd < length (tb @ ext)" "\<not> aio_inUse ((tb @ ext) ! (2 * nat fd))"
    using OS_AsyncRead_shape [OF assms(2)] by (elim exE conjE) (rule that)
  have u: "aio_used s' i \<longleftrightarrow> i = 2 * nat fd \<or> aio_used s i" for i
    using used_request [OF e(1,3,4)] unfolding e(2) aio_used_def by simp
  have n: "nat fd \<notin> os_readFdSet s \<union> os_readFdSetPost s"
    using not_used [OF e(1,5)] assms(1) unfolding os_balanced_def by blast
  have "2 * k + 1 \<noteq> 2 * nat fd" for k by presburger
  then show ?thesis
    using assms(1) n os_ok_read [OF _ assms(2)] u unfolding os_balanced_def by (simp add: e(2))
qed

lemma balanced_write:
  assumes "os_balanced s" "OS_AsyncWrite mem fd off buf len (Some p) d s = Some (r, s')"
  shows "os_balanced s'"
proof -
  obtain tb ext where e: "os_asyncIoTable s = Some tb"
     "s' = s\<lparr>os_asyncIoInUse := True, os_maxFd := max (os_maxFd s) fd, os_asyncIoTableSize := os_asyncIoTableSize s + length ext,
       os_asyncIoTable := Some ((tb @ ext)[2 * nat fd + 1 := aio_request (Some p) d fd len off buf]),
       os_writeFdSet := insert (nat fd) (os_writeFdSet s)\<rparr>" "set ext \<subseteq> {aio_zero}"
     "2 * nat fd + 1 < length (tb @ ext)" "\<not> aio_inUse ((tb @ ext) ! (2 * nat fd + 1))"
    using OS_AsyncWrite_shape [OF assms(2)] by (elim exE conjE) (rule that)
  have u: "aio_used s' i \<longleftrightarrow> i = 2 * nat fd + 1 \<or> aio_used s i" for i
    using used_request [OF e(1,3,4)] unfolding e(2) aio_used_def by simp
  have n: "nat fd \<notin> os_writeFdSet s \<union> os_writeFdSetPost s"
    using not_used [OF e(1,5)] assms(1) unfolding os_balanced_def by blast
  have "2 * k \<noteq> 2 * nat fd + 1" for k by presburger
  then show ?thesis
    using assms(1) n os_ok_write [OF _ assms(2)] u unfolding os_balanced_def by (simp add: e(2))
qed

lemma balanced_stdin:
  assumes "os_balanced s" "OS_AsyncReadStdin buf len (Some p) d s = Some (r, s')"
  shows "os_balanced s'"
proof -
  obtain tb where e: "os_asyncIoTable s = Some tb" "tb \<noteq> []" "\<not> aio_inUse (tb ! 0)"
     "s' = s\<lparr>os_asyncIoInUse := True, os_maxFd := max (os_maxFd s) 0,
       os_asyncIoTable := Some (tb[0 := aio_request (Some p) d 0 len 0 buf]), os_readFdSet := insert 0 (os_readFdSet s)\<rparr>"
    using OS_AsyncReadStdin_shape [OF assms(2)] by blast
  have u: "aio_used s' i \<longleftrightarrow> i = 0 \<or> aio_used s i" for i
    using used_request [OF e(1), of "[]" 0 i] e(2) unfolding e(4) aio_used_def by simp
  have n: "0 \<notin> os_readFdSet s \<union> os_readFdSetPost s"
    using not_used [OF e(1), of "[]" "2 * 0"] e(3) assms(1) unfolding os_balanced_def by fastforce
  show ?thesis
    using assms(1) n os_ok_stdin [OF _ assms(2)] u unfolding os_balanced_def by (simp add: e(4))
qed

lemma balanced_close_async:
  assumes "os_balanced s" "close_async fd s = Some s'" "os_asyncIoInUse s" "quiet_close fd s"
  shows "os_balanced s'"
proof -
  obtain tb where e: "os_asyncIoTable s = Some tb"
     "s' = s\<lparr>os_readFdSet := os_readFdSet s - {nat fd}, os_readFdSetPost := os_readFdSetPost s - {nat fd},
       os_writeFdSet := os_writeFdSet s - {nat fd}, os_writeFdSetPost := os_writeFdSetPost s - {nat fd},
       os_asyncIoTable := Some (unused (unused tb (2 * nat fd)) (2 * nat fd + 1)),
       os_maxFd := (if os_maxFd s = fd then fd - 1 else os_maxFd s)\<rparr>"
    using close_async_shape [OF assms(2,3)] by (elim exE conjE) (rule that)
  have tb': "os_asyncIoTable s' = Some (unused (unused tb (2 * nat fd)) (2 * nat fd + 1))"
    by (simp add: e(2))
  have u: "aio_used s' i \<longleftrightarrow> i \<noteq> 2 * nat fd \<and> i \<noteq> 2 * nat fd + 1 \<and> aio_used s i" for i
    unfolding aio_used_cong [OF e(1)] aio_used_cong [OF tb'] used_unused by auto
  have f: "os_readFdSet s' = os_readFdSet s - {nat fd}" "os_readFdSetPost s' = os_readFdSetPost s"
    "os_writeFdSet s' = os_writeFdSet s - {nat fd}" "os_writeFdSetPost s' = os_writeFdSetPost s"
    "os_numRdPosted s' = os_numRdPosted s" "os_numWrPosted s' = os_numWrPosted s"
    using assms(4) by (auto simp: e(2) quiet_close_def)
  have ne: "2 * k + 1 \<noteq> 2 * nat fd" "2 * k \<noteq> 2 * nat fd + 1" for k by presburger+
  show ?thesis
    using assms(1,4) os_ok_close_async [OF _ assms(2,3)] ne
    unfolding os_balanced_def quiet_close_def u f by auto
qed

lemma balanced_close:
  assumes "os_balanced s" "OS_Close shut polled got closed fd s = Some (r, s')" "quiet_close fd s"
  shows "os_balanced s'"
  using OS_Close_shape [OF assms(2)] balanced_close_async [OF assms(1) _ _ assms(3)] assms(1) by auto

lemma balanced_close_read:
  assumes "os_balanced s" "OS_CloseRead shut fd s = Some (r, s')" "quiet_close fd s"
  shows "os_balanced s'"
proof (cases "s' = s")
  case False
  then obtain tb where e: "os_asyncIoTable s = Some tb"
     "s' = s\<lparr>os_readFdSet := os_readFdSet s - {nat fd}, os_asyncIoTable := Some (unused tb (2 * nat fd))\<rparr>"
    using OS_CloseRead_shape [OF assms(2)] by blast
  have tb': "os_asyncIoTable s' = Some (unused tb (2 * nat fd))"
    by (simp add: e(2))
  have u: "aio_used s' i \<longleftrightarrow> i \<noteq> 2 * nat fd \<and> aio_used s i" for i
    unfolding aio_used_cong [OF e(1)] aio_used_cong [OF tb'] used_unused by auto
  have "2 * k + 1 \<noteq> 2 * nat fd" for k by presburger
  then show ?thesis
    using assms(1,3) os_ok_close_read [OF _ assms(2)] u unfolding os_balanced_def quiet_close_def by (auto simp: e(2))
qed (use assms(1) in simp)

lemma balanced_posted:
  assumes "os_balanced s" "rs \<subseteq> os_readFdSet s" "ws \<subseteq> os_writeFdSet s"
  shows "os_balanced (posted_state rs ws s)"
proof -
  have f: "finite (os_readFdSetPost s)" "finite (os_writeFdSetPost s)" "finite rs" "finite ws"
    using assms os_ok_finite [of s] by (auto simp: os_balanced_def intro: finite_subset)
  have "card (os_readFdSetPost s \<union> rs) = card (os_readFdSetPost s) + card rs"
    "card (os_writeFdSetPost s \<union> ws) = card (os_writeFdSetPost s) + card ws"
    using assms f by (auto simp: os_balanced_def intro!: card_Un_disjoint)
  moreover have "aio_used (posted_state rs ws s) i = aio_used s i" for i
    by (simp add: aio_used_def posted_state_def)
  ultimately show ?thesis
    using assms os_ok_posted [OF _ assms(2,3)] by (auto simp: os_balanced_def posted_state_def)
qed

lemma used_freed: "aio_used (freed i s) j \<longleftrightarrow> j \<noteq> i \<and> aio_used s j"
  by (cases "os_asyncIoTable s"; cases "j = i") (auto simp: aio_used_def freed_def nth_list_update)

lemma used_unpost [simp]: "aio_used (unpost_rd fd s) i = aio_used s i" "aio_used (unpost_wr fd s) i = aio_used s i"
  by (simp_all add: aio_used_def unpost_rd_def unpost_wr_def)

lemma balanced_unpost:
  assumes "os_balanced s"
  shows "fd \<in> os_readFdSetPost s \<Longrightarrow> os_balanced (freed (2 * fd) (unpost_rd fd s))"
    and "fd \<in> os_writeFdSetPost s \<Longrightarrow> os_balanced (freed (2 * fd + 1) (unpost_wr fd s))"
proof -
  have ok: "os_ok s" using assms by (simp add: os_balanced_def)
  have ne: "2 * k + 1 \<noteq> 2 * fd" "2 * k \<noteq> 2 * fd + 1" for k by presburger+
  show "os_balanced (freed (2 * fd) (unpost_rd fd s))" if "fd \<in> os_readFdSetPost s"
    using assms os_ok_unpost(1) [OF ok that, of "2 * fd"] card_Suc_Diff1 [OF os_ok_finite(2) [OF ok] that] ne that
    unfolding os_balanced_def used_freed used_unpost by (auto simp: freed_def unpost_rd_def)
  show "os_balanced (freed (2 * fd + 1) (unpost_wr fd s))" if "fd \<in> os_writeFdSetPost s"
    using assms os_ok_unpost(2) [OF ok that, of "2 * fd + 1"] card_Suc_Diff1 [OF os_ok_finite(4) [OF ok] that] ne that
    unfolding os_balanced_def used_freed used_unpost by (auto simp: freed_def unpost_wr_def)
qed

end
