(* ===== verification/Os_Loop.thy ===== *)
theory Os_Loop
  imports Os_Async
begin

text \<open>
  The event loop \<^verbatim>\<open>OS_DoIo\<close> of \<^verbatim>\<open>src/fastcgi/fastcgi_lib/os_unix.cpp\<close>. The locale \<open>os_invariant\<close> says what
  the operations keep of a property of the state and gives that the loop returns and keeps it. It is
  interpreted for \<open>os_ok\<close>, which every operation keeps, and for \<open>os_balanced\<close>, which every operation
  but the closing of a ready descriptor keeps.
\<close>

section \<open>The event loop returns\<close>

lemma aio_get_ok:
  assumes "os_ok s" "int i \<le> 2 * os_maxFd s + 1"
  shows "\<exists>tb. os_asyncIoTable s = Some tb \<and> i < length tb \<and> aio_get s (int i) = Some (tb ! i) \<and>
     (\<forall>a. aio_put s (int i) a = Some (s\<lparr>os_asyncIoTable := Some (tb[i := a])\<rparr>))"
  using assms by (auto simp: os_ok_iff aio_get_def aio_put_def assert_opt_def)

lemma aio_dispatch_ok:
  assumes "os_ok s" "int i \<le> 2 * os_maxFd s + 1" "aio_used s i"
  shows "\<exists>p d. aio_dispatch cb (int i) n s = cb p d n (freed i s)"
proof -
  obtain tb where tb: "os_asyncIoTable s = Some tb" "i < length tb" "aio_get s (int i) = Some (tb ! i)"
     "\<forall>a. aio_put s (int i) a = Some (s\<lparr>os_asyncIoTable := Some (tb[i := a])\<rparr>)"
    using aio_get_ok [OF assms(1,2)] by blast
  then have "aio_procPtr (tb ! i) \<noteq> None"
    using assms(1,3) by (auto simp: os_ok_iff procs_ok_def aio_used_def)
  then obtain y where y: "aio_procPtr (tb ! i) = Some y" by blast
  have "aio_dispatch cb (int i) n s = cb y (aio_clientData (tb ! i)) n (freed i s)"
    using tb y by (simp add: aio_dispatch_def freed_def)
  then show ?thesis by blast
qed

lemma in_use_ok:
  assumes "os_ok s" "int i \<le> 2 * os_maxFd s + 1"
  shows "in_use s (int i) = Some (aio_used s i)"
  using aio_get_ok [OF assms] by (auto simp: in_use_def aio_used_def)

lemma ix_nat: "AIO_RD_IX (int fd) = int (2 * fd)" "AIO_WR_IX (int fd) = int (2 * fd + 1)"
  by (simp_all add: AIO_RD_IX_def AIO_WR_IX_def)

lemma unpost_ok:
  assumes "os_ok s"
  shows "fd \<in> os_readFdSetPost s \<Longrightarrow> os_ok (unpost_rd fd s)" "fd \<in> os_writeFdSetPost s \<Longrightarrow> os_ok (unpost_wr fd s)"
  using assms card_Suc_Diff1 [OF os_ok_finite(2) [OF assms], of fd] card_Suc_Diff1 [OF os_ok_finite(4) [OF assms], of fd]
  by (auto simp: os_ok_iff unpost_rd_def unpost_wr_def intro: below_max_diff)

lemma do_read_eq:
  assumes "os_ok s"
  shows "\<exists>p d n. do_read cb rd fd s =
     (if fd \<in> os_readFdSetPost s \<and> aio_used s (2 * fd) then cb p d n (freed (2 * fd) (unpost_rd fd s)) else Some s)"
proof (cases "fd \<in> os_readFdSetPost s")
  case True
  then have m: "int (2 * fd) \<le> 2 * os_maxFd s + 1"
    using assms by (auto simp: os_ok_iff below_max_def)
  then have m1: "int (2 * fd) \<le> 2 * os_maxFd (unpost_rd fd s) + 1" by (simp add: unpost_rd_def)
  obtain tb where a: "aio_get (unpost_rd fd s) (int (2 * fd)) = Some (tb ! (2 * fd))"
    using aio_get_ok [OF unpost_ok(1) [OF assms True] m1] by blast
  show ?thesis
  proof (cases "aio_used s (2 * fd)")
    case u: True
    obtain p d where "aio_dispatch cb (int (2 * fd)) (rd (tb ! (2 * fd))) (unpost_rd fd s) =
        cb p d (rd (tb ! (2 * fd))) (freed (2 * fd) (unpost_rd fd s))"
      using aio_dispatch_ok [OF unpost_ok(1) [OF assms True] m1] u by (metis used_unpost(1))
    then have "do_read cb rd fd s = cb p d (rd (tb ! (2 * fd))) (freed (2 * fd) (unpost_rd fd s))"
      using True u in_use_ok [OF assms m] a
      unfolding do_read_def Let_def ix_nat unpost_rd_def [symmetric] by simp
    then show ?thesis using True u by auto
  qed (use True in_use_ok [OF assms m] in \<open>simp add: do_read_def ix_nat\<close>)
qed (simp add: do_read_def)

lemma do_write_eq:
  assumes "os_ok s"
  shows "\<exists>p d n. do_write cb wr fd s =
     (if fd \<in> os_writeFdSetPost s \<and> aio_used s (2 * fd + 1) then cb p d n (freed (2 * fd + 1) (unpost_wr fd s)) else Some s)"
proof (cases "fd \<in> os_writeFdSetPost s")
  case True
  then have m: "int (2 * fd + 1) \<le> 2 * os_maxFd s + 1"
    using assms by (auto simp: os_ok_iff below_max_def)
  then have m1: "int (2 * fd + 1) \<le> 2 * os_maxFd (unpost_wr fd s) + 1" by (simp add: unpost_wr_def)
  obtain tb where a: "aio_get (unpost_wr fd s) (int (2 * fd + 1)) = Some (tb ! (2 * fd + 1))"
    using aio_get_ok [OF unpost_ok(2) [OF assms True] m1] by blast
  show ?thesis
  proof (cases "aio_used s (2 * fd + 1)")
    case u: True
    obtain p d where "aio_dispatch cb (int (2 * fd + 1)) (wr (tb ! (2 * fd + 1))) (unpost_wr fd s) =
        cb p d (wr (tb ! (2 * fd + 1))) (freed (2 * fd + 1) (unpost_wr fd s))"
      using aio_dispatch_ok [OF unpost_ok(2) [OF assms True] m1] u by (metis used_unpost(2))
    then have "do_write cb wr fd s = cb p d (wr (tb ! (2 * fd + 1))) (freed (2 * fd + 1) (unpost_wr fd s))"
      using True u in_use_ok [OF assms m] a
      unfolding do_write_def Let_def ix_nat unpost_wr_def [symmetric] by simp
    then show ?thesis using True u by auto
  qed (use True in_use_ok [OF assms m] in \<open>simp add: do_write_def ix_nat\<close>)
qed (simp add: do_write_def)

locale os_invariant =
  fixes I :: "os_state \<Rightarrow> bool" and cl :: "int \<Rightarrow> os_state \<Rightarrow> bool"
  assumes I_ok: "I s \<Longrightarrow> os_ok s"
    and I_flag: "I s \<Longrightarrow> I (s\<lparr>os_asyncIoInUse := True\<rparr>)"
    and I_stdin: "I s \<Longrightarrow> OS_AsyncReadStdin buf len (Some p) d s = Some (r, s') \<Longrightarrow> I s'"
    and I_read: "I s \<Longrightarrow> OS_AsyncRead mem fd off buf len (Some p) d s = Some (r, s') \<Longrightarrow> I s'"
    and I_write: "I s \<Longrightarrow> OS_AsyncWrite mem fd off buf len (Some p) d s = Some (r, s') \<Longrightarrow> I s'"
    and I_close: "I s \<Longrightarrow> cl fd s \<Longrightarrow> OS_Close shut polled got closed fd s = Some (r, s') \<Longrightarrow> I s'"
    and I_close_read: "I s \<Longrightarrow> cl fd s \<Longrightarrow> OS_CloseRead shut fd s = Some (r, s') \<Longrightarrow> I s'"
    and I_posted: "I s \<Longrightarrow> rs \<subseteq> os_readFdSet s \<Longrightarrow> ws \<subseteq> os_writeFdSet s \<Longrightarrow> I (posted_state rs ws s)"
    and I_unpost_rd: "I s \<Longrightarrow> k \<in> os_readFdSetPost s \<Longrightarrow> I (freed (2 * k) (unpost_rd k s))"
    and I_unpost_wr: "I s \<Longrightarrow> k \<in> os_writeFdSetPost s \<Longrightarrow> I (freed (2 * k + 1) (unpost_wr k s))"
begin

lemma act_keeps: "os_act cl s s' \<Longrightarrow> I s \<Longrightarrow> I s'"
  by (erule os_act.cases) (blast intro: I_stdin I_read I_write I_close I_close_read)+

lemma acts_keep: "(os_act cl)\<^sup>*\<^sup>* s s' \<Longrightarrow> I s \<Longrightarrow> I s'"
  by (induction rule: rtranclp_induct) (auto intro: act_keeps)

lemma cb_keeps:
  assumes "callback_ok cl cb" "I s"
  shows "\<exists>s'. cb p d n s = Some s' \<and> I s'"
proof -
  obtain s' where "cb p d n s = Some s'" "(os_act cl)\<^sup>*\<^sup>* s s'"
    using assms(1) unfolding callback_ok_def by blast
  with acts_keep [OF _ assms(2)] show ?thesis by blast
qed

lemma do_read_keeps:
  assumes "callback_ok cl cb" "I s"
  shows "\<exists>s'. do_read cb rd fd s = Some s' \<and> I s'"
  using do_read_eq [OF I_ok [OF assms(2)], of cb rd fd] cb_keeps [OF assms(1) I_unpost_rd [OF assms(2), of fd]] assms(2)
  by (metis (full_types))

lemma do_write_keeps:
  assumes "callback_ok cl cb" "I s"
  shows "\<exists>s'. do_write cb wr fd s = Some s' \<and> I s'"
  using do_write_eq [OF I_ok [OF assms(2)], of cb wr fd] cb_keeps [OF assms(1) I_unpost_wr [OF assms(2), of fd]] assms(2)
  by (metis (full_types))

lemma do_fds_keeps:
  assumes "callback_ok cl cb" "I s"
  shows "\<exists>s'. do_fds cb rd wr fd s = Some s' \<and> I s'"
  using assms(2)
proof (induction "1024 - fd" arbitrary: fd s rule: less_induct)
  case less
  show ?case
  proof (cases "int fd \<le> os_maxFd s")
    case True
    with I_ok [OF less.prems] have "fd < 1024" by (simp add: os_ok_iff)
    obtain s1 where 1: "do_read cb rd fd s = Some s1" "I s1"
      using do_read_keeps [OF assms(1) less.prems] by blast
    obtain s2 where 2: "do_write cb wr fd s1 = Some s2" "I s2"
      using do_write_keeps [OF assms(1) 1(2)] by blast
    have "\<exists>s'. do_fds cb rd wr (Suc fd) s2 = Some s' \<and> I s'"
      using \<open>fd < 1024\<close> 2(2) by (intro less.hyps) auto
    with True 1 2 show ?thesis by (subst do_fds.simps) simp
  qed (use less.prems in \<open>subst do_fds.simps, simp\<close>)
qed

lemma post_events_keeps:
  assumes "I s" "select_ok sel"
  shows "\<exists>s'. post_events sel s = Some s' \<and> I s'"
proof -
  let ?x = "sel (up_to_max s (os_readFdSet s)) (up_to_max s (os_writeFdSet s))"
  have x: "0 \<le> fst ?x" "up_to_max s (fst (snd ?x)) \<subseteq> os_readFdSet s" "up_to_max s (snd (snd ?x)) \<subseteq> os_writeFdSet s"
    using assms(2) unfolding select_ok_def up_to_max_def by blast+
  show ?thesis
    using x I_posted [OF assms(1) x(2,3)] assms(1) by (auto simp: post_events_def split: prod.splits)
qed

lemma DoIo_keeps:
  assumes "callback_ok cl cb" "select_ok sel" "I s"
  shows "\<exists>s'. OS_DoIo cb sel rd wr s = Some (0, s') \<and> I s'"
proof -
  obtain s1 where 1: "post_events sel (s\<lparr>os_asyncIoInUse := True\<rparr>) = Some s1" "I s1"
    using post_events_keeps [OF I_flag [OF assms(3)] assms(2)] by blast
  with do_fds_keeps [OF assms(1) 1(2), of rd wr 0] show ?thesis
    by (auto simp: OS_DoIo_def)
qed

lemma step_keeps: "os_step cl s s' \<Longrightarrow> I s \<Longrightarrow> I s'"
proof (induction rule: os_step.induct)
  case (step_doio cb sel rd wr s r s')
  then show ?case using DoIo_keeps [of cb sel s rd wr] by auto
qed (rule act_keeps)

lemma steps_keep: "(os_step cl)\<^sup>*\<^sup>* s s' \<Longrightarrow> I s \<Longrightarrow> I s'"
  by (induction rule: rtranclp_induct) (auto intro: step_keeps)

end

interpretation aio: os_invariant os_ok any_close
  by unfold_locales
    (auto intro: os_ok_stdin os_ok_read os_ok_write os_ok_close os_ok_close_read os_ok_posted os_ok_unpost)

lemma balanced_flag: "os_balanced s \<Longrightarrow> os_balanced (s\<lparr>os_asyncIoInUse := True\<rparr>)"
  by (simp add: os_balanced_def aio_used_def)

lemma balanced_ok: "os_balanced s \<Longrightarrow> os_ok s"
  by (simp add: os_balanced_def)

interpretation bal: os_invariant os_balanced quiet_close
  by unfold_locales
    (auto simp: balanced_flag balanced_ok intro: balanced_stdin balanced_read balanced_write balanced_close balanced_close_read balanced_posted
      balanced_unpost [unfolded Suc_eq_plus1 [symmetric]])

definition os_started :: os_state where
  "os_started = snd (OS_LibInit True os_initial)"

lemma started_balanced: "os_balanced os_started" and started_ok: "os_ok os_started"
  by (auto simp: os_started_def OS_LibInit_def os_initial_def os_balanced_def os_ok_def procs_ok_def aio_used_def)

section \<open>Every ready operation is dispatched\<close>

text \<open>The ready operations by their index in the table, and the calls they lead to.\<close>

definition ready :: "os_state \<Rightarrow> nat set" where
  "ready s = (\<lambda>fd. 2 * fd) ` os_readFdSetPost s \<union> (\<lambda>fd. 2 * fd + 1) ` os_writeFdSetPost s"

definition aio_entry :: "os_state \<Rightarrow> nat \<Rightarrow> AioInfo" where
  "aio_entry s i = the (os_asyncIoTable s) ! i"

definition unposted :: "nat \<Rightarrow> os_state \<Rightarrow> os_state" where
  "unposted i s = (if even i then unpost_rd (i div 2) s else unpost_wr (i div 2) s)"

definition call_of :: "(AioInfo \<Rightarrow> int) \<Rightarrow> (AioInfo \<Rightarrow> int) \<Rightarrow> os_state \<Rightarrow> nat \<Rightarrow> nat \<times> nat \<times> nat \<times> int" where
  "call_of rd wr s i =
     (let a = aio_entry s i in (i, the (aio_procPtr a), aio_clientData a, if even i then rd a else wr a))"

definition calls :: "(AioInfo \<Rightarrow> int) \<Rightarrow> (AioInfo \<Rightarrow> int) \<Rightarrow> os_state \<Rightarrow> (nat \<times> nat \<times> nat \<times> int) list" where
  "calls rd wr s = map (call_of rd wr s) (sorted_list_of_set (ready s))"

fun dispatched :: "os_callback \<Rightarrow> (nat \<times> nat \<times> nat \<times> int) list \<Rightarrow> os_state \<Rightarrow> os_state option" where
  "dispatched cb [] s = Some s"
| "dispatched cb ((i, p, d, n) # cs) s = Option.bind (cb p d n (freed i (unposted i s))) (dispatched cb cs)"

definition do_one :: "os_callback \<Rightarrow> (AioInfo \<Rightarrow> int) \<Rightarrow> (AioInfo \<Rightarrow> int) \<Rightarrow> nat \<Rightarrow> os_state \<Rightarrow> os_state option" where
  "do_one cb rd wr i s = (if even i then do_read cb rd (i div 2) s else do_write cb wr (i div 2) s)"

lemma parity_neq [simp]: "2 * k \<noteq> Suc (2 * l)" "Suc (2 * l) \<noteq> 2 * (k :: nat)"
  by presburger+

lemma ready_iff:
  "i \<in> ready s \<longleftrightarrow> (if even i then i div 2 \<in> os_readFdSetPost s else i div 2 \<in> os_writeFdSetPost s)"
proof (cases "even i")
  case True
  then obtain k where "i = 2 * k" ..
  then show ?thesis by (simp add: ready_def image_iff)
next
  case False
  then obtain k where "i = 2 * k + 1" ..
  then show ?thesis by (simp add: ready_def image_iff)
qed

lemma ready_used:
  assumes "os_balanced s" "i \<in> ready s"
  shows "aio_used s i"
  using assms unfolding ready_def os_balanced_def by auto

definition kept :: "os_state \<Rightarrow> os_state \<Rightarrow> bool" where
  "kept s s' \<longleftrightarrow> ready s' = ready s \<and> (\<forall>i \<in> ready s. aio_entry s' i = aio_entry s i)"

lemma kept_request:
  assumes "os_balanced s" "os_asyncIoTable s = Some tb" "\<not> aio_inUse ((tb @ ext) ! j)"
    "os_asyncIoTable s' = Some ((tb @ ext)[j := a])"
    "os_readFdSetPost s' = os_readFdSetPost s" "os_writeFdSetPost s' = os_writeFdSetPost s"
  shows "kept s s'"
  unfolding kept_def
proof (intro conjI ballI)
  show "ready s' = ready s" using assms(5,6) by (simp add: ready_def)
  fix i assume "i \<in> ready s"
  then have "i < length tb" "aio_inUse (tb ! i)"
    using ready_used [OF assms(1)] aio_used_cong [OF assms(2)] by blast+
  with assms(3) have "i \<noteq> j" by (auto simp: nth_append)
  with \<open>i < length tb\<close> show "aio_entry s' i = aio_entry s i"
    by (simp add: aio_entry_def assms(2,4) nth_append)
qed

lemma unused_nth [simp]: "i \<noteq> j \<Longrightarrow> unused tb j ! i = tb ! i"
  by (simp add: unused_def)

lemma kept_unused:
  assumes "os_asyncIoTable s = Some tb" "os_asyncIoTable s' = Some tb'" "\<And>i. i \<noteq> 2 * k \<Longrightarrow> i \<noteq> 2 * k + 1 \<Longrightarrow> tb' ! i = tb ! i"
    "os_readFdSetPost s' = os_readFdSetPost s" "os_writeFdSetPost s' = os_writeFdSetPost s"
    "k \<notin> os_readFdSetPost s" "k \<notin> os_writeFdSetPost s"
  shows "kept s s'"
proof -
  have "i \<noteq> 2 * k \<and> i \<noteq> 2 * k + 1" if "i \<in> ready s" for i
    using that assms(6,7) ready_iff [of i s] by (cases "even i") auto
  with assms show ?thesis by (auto simp: kept_def ready_def aio_entry_def)
qed

lemma quiet_act_kept: "os_act quiet_close s s' \<Longrightarrow> os_balanced s \<Longrightarrow> kept s s'"
proof (induction rule: os_act.induct)
  case (act_stdin buf len p d s r s')
  obtain tb where e: "os_asyncIoTable s = Some tb" "\<not> aio_inUse (tb ! 0)"
     "s' = s\<lparr>os_asyncIoInUse := True, os_maxFd := max (os_maxFd s) 0,
       os_asyncIoTable := Some (tb[0 := aio_request (Some p) d 0 len 0 buf]), os_readFdSet := insert 0 (os_readFdSet s)\<rparr>"
    using OS_AsyncReadStdin_shape [OF act_stdin(1)] by blast
  show ?case by (rule kept_request [OF act_stdin(2) e(1), of "[]" 0]) (simp_all add: e(2,3))
next
  case (act_read mem fd off buf len p d s r s')
  obtain tb ext where e: "os_asyncIoTable s = Some tb" "\<not> aio_inUse ((tb @ ext) ! (2 * nat fd))"
     "s' = s\<lparr>os_asyncIoInUse := True, os_maxFd := max (os_maxFd s) fd, os_asyncIoTableSize := os_asyncIoTableSize s + length ext,
       os_asyncIoTable := Some ((tb @ ext)[2 * nat fd := aio_request (Some p) d fd len off buf]),
       os_readFdSet := insert (nat fd) (os_readFdSet s)\<rparr>"
    using OS_AsyncRead_shape [OF act_read(1)] by (elim exE conjE) (rule that)
  show ?case by (rule kept_request [OF act_read(2) e(1,2)]) (simp_all add: e(3))
next
  case (act_write mem fd off buf len p d s r s')
  obtain tb ext where e: "os_asyncIoTable s = Some tb" "\<not> aio_inUse ((tb @ ext) ! (2 * nat fd + 1))"
     "s' = s\<lparr>os_asyncIoInUse := True, os_maxFd := max (os_maxFd s) fd, os_asyncIoTableSize := os_asyncIoTableSize s + length ext,
       os_asyncIoTable := Some ((tb @ ext)[2 * nat fd + 1 := aio_request (Some p) d fd len off buf]),
       os_writeFdSet := insert (nat fd) (os_writeFdSet s)\<rparr>"
    using OS_AsyncWrite_shape [OF act_write(1)] by (elim exE conjE) (rule that)
  show ?case by (rule kept_request [OF act_write(2) e(1,2)]) (simp_all add: e(3))
next
  case (act_close fd s shut polled got closed r s')
  from OS_Close_shape [OF act_close(2)] show ?case
  proof (elim disjE conjE)
    assume "s' = s" then show ?thesis by (simp add: kept_def)
  next
    assume c: "close_async fd s = Some s'" "os_asyncIoInUse s"
    obtain tb where e: "os_asyncIoTable s = Some tb"
     "s' = s\<lparr>os_readFdSet := os_readFdSet s - {nat fd}, os_readFdSetPost := os_readFdSetPost s - {nat fd},
       os_writeFdSet := os_writeFdSet s - {nat fd}, os_writeFdSetPost := os_writeFdSetPost s - {nat fd},
       os_asyncIoTable := Some (unused (unused tb (2 * nat fd)) (2 * nat fd + 1)),
       os_maxFd := (if os_maxFd s = fd then fd - 1 else os_maxFd s)\<rparr>"
      using close_async_shape [OF c] by (elim exE conjE) (rule that)
    show ?thesis
      by (rule kept_unused [OF e(1), where k = "nat fd" and tb' = "unused (unused tb (2 * nat fd)) (2 * nat fd + 1)"])
        (use act_close(1) e(2) in \<open>simp_all add: quiet_close_def\<close>)
  qed
next
  case (act_close_read fd s shut r s')
  from OS_CloseRead_shape [OF act_close_read(2)] show ?case
  proof (elim disjE exE conjE)
    assume "s' = s" then show ?thesis by (simp add: kept_def)
  next
    fix tb
    assume e: "os_asyncIoTable s = Some tb"
      "s' = s\<lparr>os_readFdSet := os_readFdSet s - {nat fd}, os_asyncIoTable := Some (unused tb (2 * nat fd))\<rparr>"
    show ?thesis
      by (rule kept_unused [OF e(1), where k = "nat fd" and tb' = "unused tb (2 * nat fd)"])
        (use act_close_read(1) e(2) in \<open>simp_all add: quiet_close_def\<close>)
  qed
qed

lemma quiet_acts_kept: "(os_act quiet_close)\<^sup>*\<^sup>* s s' \<Longrightarrow> os_balanced s \<Longrightarrow> kept s s'"
proof (induction rule: rtranclp_induct)
  case (step s1 s2)
  then have "kept s s1" "kept s1 s2" using bal.acts_keep quiet_act_kept by blast+
  then show ?case by (simp add: kept_def)
qed (simp add: kept_def)

lemma quiet_cb_kept:
  assumes "callback_ok quiet_close cb" "os_balanced s" "cb p d n s = Some s'"
  shows "kept s s'"
proof -
  obtain s2 where "cb p d n s = Some s2" "(os_act quiet_close)\<^sup>*\<^sup>* s s2"
    using assms(1) unfolding callback_ok_def by blast
  with assms(2,3) show ?thesis using quiet_acts_kept by simp
qed

lemma finite_ready: "os_ok s \<Longrightarrow> finite (ready s)"
  using os_ok_finite [of s] by (simp add: ready_def)

lemma calls_min:
  assumes "os_ok s" "i \<in> ready s" "ready s \<subseteq> {i..}"
  shows "calls rd wr s = call_of rd wr s i # map (call_of rd wr s) (sorted_list_of_set (ready s - {i}))"
proof -
  have "Min (ready s) = i"
    using assms by (intro Min_eqI finite_ready) auto
  moreover have "ready s \<noteq> {}" using assms(2) by blast
  ultimately have "sorted_list_of_set (ready s) = i # sorted_list_of_set (ready s - {i})"
    using sorted_list_of_set_nonempty [OF finite_ready [OF assms(1)]] by simp
  then show ?thesis unfolding calls_def by simp
qed

lemma do_one_call:
  assumes "os_balanced s" "i \<in> ready s"
  shows "do_one cb rd wr i s =
     (case call_of rd wr s i of (i, p, d, n) \<Rightarrow> cb p d n (freed i (unposted i s)))"
proof -
  obtain tb where tb: "os_asyncIoTable s = Some tb" "i < length tb" "procs_ok tb"
    using ready_used [OF assms] balanced_ok [OF assms(1)] by (auto simp: aio_used_def os_ok_iff)
  have u: "aio_inUse (tb ! i)" using ready_used [OF assms] tb by (simp add: aio_used_def)
  then obtain p where p: "aio_procPtr (tb ! i) = Some p" using tb(2,3) by (auto simp: procs_ok_def)
  show ?thesis
  proof (cases "even i")
    case True
    then have ix: "AIO_RD_IX (int (i div 2)) = int i" by (auto simp: AIO_RD_IX_def elim!: evenE)
    from True assms(2) have "i div 2 \<in> os_readFdSetPost s" using ready_iff by auto
    with True u p tb show ?thesis
      unfolding do_one_def do_read_def aio_dispatch_def in_use_def Let_def call_of_def aio_entry_def unposted_def ix
      by (simp add: aio_get_def aio_put_def assert_opt_def freed_def unpost_rd_def)
  next
    case False
    then have ix: "AIO_WR_IX (int (i div 2)) = int i" by (auto simp: AIO_WR_IX_def elim!: oddE)
    from False assms(2) have "i div 2 \<in> os_writeFdSetPost s" using ready_iff by auto
    with False u p tb show ?thesis
      unfolding do_one_def do_write_def aio_dispatch_def in_use_def Let_def call_of_def aio_entry_def unposted_def ix
      by (simp add: aio_get_def aio_put_def assert_opt_def freed_def unpost_wr_def)
  qed
qed

lemma ready_freed: "ready (freed i (unposted i s)) = ready s - {i}"
  by (rule set_eqI) (auto simp: ready_iff freed_def unposted_def unpost_rd_def unpost_wr_def elim!: evenE oddE)

lemma entry_freed: "j \<noteq> i \<Longrightarrow> os_asyncIoTable s = Some tb \<Longrightarrow> aio_entry (freed i (unposted i s)) j = aio_entry s j"
  by (simp add: aio_entry_def freed_def unposted_def unpost_rd_def unpost_wr_def)

lemma balanced_freed:
  assumes "os_balanced s" "i \<in> ready s"
  shows "os_balanced (freed i (unposted i s))"
  using assms(2) balanced_unpost [OF assms(1), of "i div 2"] ready_iff [of i s]
  by (cases "even i") (auto simp: unposted_def)

lemma do_one_step:
  assumes cb: "callback_ok quiet_close cb" and s: "os_balanced s" "ready s \<subseteq> {i..}"
  shows "\<exists>s'. do_one cb rd wr i s = Some s' \<and> os_balanced s' \<and> ready s' \<subseteq> {Suc i..} \<and>
     dispatched cb (calls rd wr s) s = dispatched cb (calls rd wr s') s'"
proof (cases "i \<in> ready s")
  case True
  obtain tb where tb: "os_asyncIoTable s = Some tb" using balanced_ok [OF s(1)] by (auto simp: os_ok_iff)
  obtain p d n where c: "call_of rd wr s i = (i, p, d, n)" by (auto simp: call_of_def Let_def)
  let ?f = "freed i (unposted i s)"
  have f: "os_balanced ?f" by (rule balanced_freed [OF s(1) True])
  obtain s' where s': "cb p d n ?f = Some s'" "os_balanced s'" using bal.cb_keeps [OF cb f] by blast
  have k: "kept ?f s'" by (rule quiet_cb_kept [OF cb f s'(1)])
  then have r: "ready s' = ready s - {i}" by (simp add: kept_def ready_freed)
  have "calls rd wr s' = map (call_of rd wr s) (sorted_list_of_set (ready s - {i}))"
    unfolding calls_def r
  proof (intro map_cong refl)
    fix j assume "j \<in> set (sorted_list_of_set (ready s - {i}))"
    then have "j \<in> ready s - {i}" using finite_ready [OF balanced_ok [OF s(1)]] by simp
    with k have "aio_entry s' j = aio_entry s j"
      using entry_freed [OF _ tb, of j i] by (auto simp: kept_def ready_freed)
    then show "call_of rd wr s' j = call_of rd wr s j" by (simp add: call_of_def)
  qed
  moreover have "do_one cb rd wr i s = Some s'" using do_one_call [OF s(1) True] c s' by simp
  moreover have "ready s' \<subseteq> {Suc i..}" using r s(2) by (auto simp: Suc_le_eq order_less_le)
  ultimately show ?thesis
    using calls_min [OF balanced_ok [OF s(1)] True s(2), of rd wr] c s' by auto
next
  case False
  then have "do_one cb rd wr i s = Some s"
    using ready_iff [of i s] by (auto simp: do_one_def do_read_def do_write_def)
  moreover have "ready s \<subseteq> {Suc i..}" using False s(2) by (auto simp: Suc_le_eq order_less_le)
  ultimately show ?thesis using s(1) by blast
qed

lemma calls_none [simp]: "ready s = {} \<Longrightarrow> calls rd wr s = []"
  by (simp add: calls_def)

lemma do_fds_dispatched:
  assumes cb: "callback_ok quiet_close cb" and s: "os_balanced s" "ready s \<subseteq> {2 * fd..}"
  shows "\<exists>s'. do_fds cb rd wr fd s = Some s' \<and> os_balanced s' \<and> ready s' = {} \<and> dispatched cb (calls rd wr s) s = Some s'"
  using s
proof (induction "1024 - fd" arbitrary: fd s rule: less_induct)
  case less
  have ok: "os_ok s" by (rule balanced_ok [OF less.prems(1)])
  show ?case
  proof (cases "int fd \<le> os_maxFd s")
    case True
    obtain s1 where 1: "do_one cb rd wr (2 * fd) s = Some s1" "os_balanced s1" "ready s1 \<subseteq> {Suc (2 * fd)..}"
      "dispatched cb (calls rd wr s) s = dispatched cb (calls rd wr s1) s1"
      using do_one_step [OF cb less.prems] by blast
    obtain s2 where 2: "do_one cb rd wr (Suc (2 * fd)) s1 = Some s2" "os_balanced s2" "ready s2 \<subseteq> {Suc (Suc (2 * fd))..}"
      "dispatched cb (calls rd wr s1) s1 = dispatched cb (calls rd wr s2) s2"
      using do_one_step [OF cb 1(2,3)] by blast
    have "os_maxFd s < 1024" using ok by (simp add: os_ok_iff)
    then have lt: "1024 - Suc fd < 1024 - fd" using True by linarith
    obtain s' where "do_fds cb rd wr (Suc fd) s2 = Some s'" "os_balanced s'"
      "ready s' = {}" "dispatched cb (calls rd wr s) s = Some s'"
      using less.hyps [OF lt 2(2)] 2(3,4) 1(4) by auto
    moreover have "do_read cb rd fd s = Some s1" "do_write cb wr fd s1 = Some s2"
      using 1(1) 2(1) by (simp_all add: do_one_def)
    ultimately show ?thesis using True by (subst do_fds.simps) simp
  next
    case False
    have "i \<notin> ready s" for i
    proof
      assume i: "i \<in> ready s"
      with ready_iff [of i s] ok have "int (i div 2) \<le> os_maxFd s"
        by (cases "even i") (auto simp: os_ok_iff below_max_def)
      moreover have "2 * fd \<le> i" using i less.prems(2) by auto
      ultimately show False using False by linarith
    qed
    then have "ready s = {}" by blast
    with False less.prems(1) show ?thesis by (subst do_fds.simps) simp
  qed
qed

lemma up_to_max_id: "os_ok s \<Longrightarrow> A \<subseteq> os_readFdSet s \<or> A \<subseteq> os_writeFdSet s \<Longrightarrow> up_to_max s A = A"
  by (auto simp: up_to_max_def os_ok_iff below_max_def)

lemma idle_counts:
  assumes "os_balanced s"
  shows "ready s = {} \<longleftrightarrow> os_numRdPosted s = 0 \<and> os_numWrPosted s = 0"
proof -
  have "os_numRdPosted s = int (card (os_readFdSetPost s))" "os_numWrPosted s = int (card (os_writeFdSetPost s))"
    using assms by (simp_all only: os_balanced_def)
  then show ?thesis
    using os_ok_finite(2,4) [OF balanced_ok [OF assms]] by (simp add: ready_def)
qed

lemma post_events_idle:
  assumes "os_balanced s" "ready s = {}" "select_ok sel" "sel (os_readFdSet s) (os_writeFdSet s) = (n, rs, ws)"
  shows "post_events sel (s\<lparr>os_asyncIoInUse := True\<rparr>) = Some (posted_state rs ws (s\<lparr>os_asyncIoInUse := True\<rparr>))"
proof -
  let ?s = "s\<lparr>os_asyncIoInUse := True\<rparr>"
  have f: "os_balanced ?s" by (rule balanced_flag [OF assms(1)])
  have x: "0 \<le> n" "rs \<subseteq> os_readFdSet ?s" "ws \<subseteq> os_writeFdSet ?s"
    using assms(3) [unfolded select_ok_def, rule_format, of "os_readFdSet s" "os_writeFdSet s"] assms(4) by simp_all
  have u: "up_to_max ?s (os_readFdSet ?s) = os_readFdSet ?s" "up_to_max ?s (os_writeFdSet ?s) = os_writeFdSet ?s"
      "up_to_max ?s rs = rs" "up_to_max ?s ws = ws"
    using x by (auto intro!: up_to_max_id [OF balanced_ok [OF f]])
  have "os_numRdPosted ?s = 0 \<and> os_numWrPosted ?s = 0"
    using idle_counts [OF assms(1)] assms(2) by simp
  then show ?thesis
    unfolding post_events_def u using x(1) assms(4) by (simp add: u)
qed

lemma DoIo_dispatches:
  assumes "callback_ok quiet_close cb" "select_ok sel" "os_balanced s" "ready s = {}"
    "sel (os_readFdSet s) (os_writeFdSet s) = (n, rs, ws)"
  shows "\<exists>s'. OS_DoIo cb sel rd wr s = Some (0, s') \<and> os_balanced s' \<and> ready s' = {} \<and>
     dispatched cb (calls rd wr (posted_state rs ws (s\<lparr>os_asyncIoInUse := True\<rparr>))) (posted_state rs ws (s\<lparr>os_asyncIoInUse := True\<rparr>)) = Some s'"
proof -
  let ?s = "s\<lparr>os_asyncIoInUse := True\<rparr>"
  let ?p = "posted_state rs ws ?s"
  have f: "os_balanced ?s" by (rule balanced_flag [OF assms(3)])
  have pe: "post_events sel ?s = Some ?p" by (rule post_events_idle [OF assms(3,4,2,5)])
  have x: "rs \<subseteq> os_readFdSet ?s" "ws \<subseteq> os_writeFdSet ?s"
    using assms(2) [unfolded select_ok_def, rule_format, of "os_readFdSet s" "os_writeFdSet s"] assms(5) by simp_all
  have p: "os_balanced ?p" by (rule balanced_posted [OF f x])
  obtain s' where s': "do_fds cb rd wr 0 ?p = Some s'" "os_balanced s'" "ready s' = {}" "dispatched cb (calls rd wr ?p) ?p = Some s'"
    using do_fds_dispatched [OF assms(1) p, of 0 rd wr] by auto
  show ?thesis
  proof (cases "ready ?p = {}")
    case True
    then show ?thesis using pe p idle_counts [OF p] by (simp add: OS_DoIo_def)
  next
    case False
    then show ?thesis using pe s' idle_counts [OF p] by (auto simp: OS_DoIo_def)
  qed
qed

lemma idle_steps:
  assumes "(os_step quiet_close)\<^sup>*\<^sup>* os_started s"
  shows "os_balanced s \<and> ready s = {}"
  using assms
proof (induction rule: rtranclp_induct)
  case base
  show ?case using started_balanced
    by (simp add: os_started_def OS_LibInit_def os_initial_def ready_def)
next
  case (step s1 s2)
  from step(2) show ?case
  proof cases
    case step_act
    then show ?thesis using step(3) bal.act_keeps quiet_act_kept unfolding kept_def by blast
  next
    case (step_doio cb sel rd wr r)
    obtain n rs ws where "sel (os_readFdSet s1) (os_writeFdSet s1) = (n, rs, ws)" by (cases "sel (os_readFdSet s1) (os_writeFdSet s1)")
    from DoIo_dispatches [OF step_doio(1,2) _ _ this, of rd wr] step(3) step_doio(3) show ?thesis by auto
  qed
qed

section \<open>A loop that no longer waits\<close>

definition stalled :: "os_state \<Rightarrow> bool" where
  "stalled s \<longleftrightarrow> os_readFdSetPost s = {} \<and> os_writeFdSetPost s = {} \<and> (os_numRdPosted s \<noteq> 0 \<or> os_numWrPosted s \<noteq> 0)"

lemma do_fds_idle:
  assumes "os_readFdSetPost s = {}" "os_writeFdSetPost s = {}"
  shows "do_fds cb rd wr fd s = Some s"
proof (induction "nat (os_maxFd s + 1) - fd" arbitrary: fd rule: less_induct)
  case less
  show ?case
  proof (cases "int fd \<le> os_maxFd s")
    case True
    then have "do_fds cb rd wr (Suc fd) s = Some s" by (intro less.hyps) linarith
    with True assms show ?thesis by (subst do_fds.simps) (simp add: do_read_def do_write_def)
  qed (subst do_fds.simps, simp)
qed

lemma stalled_DoIo: "stalled s \<Longrightarrow> OS_DoIo cb sel rd wr s = Some (0, s\<lparr>os_asyncIoInUse := True\<rparr>)"
  by (auto simp: stalled_def OS_DoIo_def post_events_def do_fds_idle)

lemma stalled_act: "os_act cl s s' \<Longrightarrow> stalled s \<Longrightarrow> stalled s'"
proof (induction rule: os_act.induct)
  case (act_stdin buf len p d s r s')
  then show ?case by (auto simp: stalled_def dest!: OS_AsyncReadStdin_shape)
next
  case (act_read mem fd off buf len p d s r s')
  then show ?case by (auto simp: stalled_def dest!: OS_AsyncRead_shape)
next
  case (act_write mem fd off buf len p d s r s')
  then show ?case by (auto simp: stalled_def dest!: OS_AsyncWrite_shape)
next
  case (act_close fd s shut polled got closed r s')
  then show ?case by (auto simp: stalled_def dest!: OS_Close_shape close_async_shape)
next
  case (act_close_read fd s shut r s')
  then show ?case by (auto simp: stalled_def dest!: OS_CloseRead_shape)
qed

lemma stalled_steps: "(os_step cl)\<^sup>*\<^sup>* s s' \<Longrightarrow> stalled s \<Longrightarrow> stalled s'"
proof (induction rule: rtranclp_induct)
  case (step s1 s2)
  from step(2) show ?case
  proof cases
    case step_act
    then show ?thesis using stalled_act step by blast
  next
    case (step_doio cb sel rd wr r)
    with stalled_DoIo [of s1 cb sel rd wr] step show ?thesis by (simp add: stalled_def)
  qed
qed

lemma close_async_ok:
  assumes "os_ok s" "os_asyncIoInUse s" "int b \<le> os_maxFd s"
  shows "\<exists>s'. close_async (int b) s = Some s'"
proof -
  have fd: "fd_ok (int b)" using assms(1,3) by (simp add: os_ok_iff fd_ok_def)
  have d: "\<exists>t'. aio_drop t (int i) = Some t' \<and> os_asyncIoTable t' \<noteq> None \<and> length (the (os_asyncIoTable t')) = length tb"
    if "os_asyncIoTable t = Some tb" "i < length tb" for t i tb
    using that by (auto simp: aio_drop_def aio_get_def aio_put_def assert_opt_def)
  obtain tb where tb: "os_asyncIoTable s = Some tb" "2 * b + 1 < length tb"
    using assms(1,3) by (auto simp: os_ok_iff)
  let ?s1 = "s\<lparr>os_readFdSet := os_readFdSet s - {b}, os_readFdSetPost := os_readFdSetPost s - {b}\<rparr>"
  obtain s2 tb2 where s2: "aio_drop ?s1 (int (2 * b)) = Some s2" "os_asyncIoTable s2 = Some tb2" "length tb2 = length tb"
    using d [of ?s1 tb "2 * b"] tb by auto
  obtain s4 where "aio_drop (s2\<lparr>os_writeFdSet := os_writeFdSet s2 - {b}, os_writeFdSetPost := os_writeFdSetPost s2 - {b}\<rparr>)
      (int (2 * b + 1)) = Some s4"
    using d [of "s2\<lparr>os_writeFdSet := os_writeFdSet s2 - {b}, os_writeFdSetPost := os_writeFdSetPost s2 - {b}\<rparr>" tb2 "2 * b + 1"]
      s2 tb(2) by auto
  with s2 fd assms(2) show ?thesis
    unfolding close_async_def Let_def ix_nat by (simp add: assert_opt_def)
qed

lemma do_fds_skip:
  assumes "\<And>k. k < a \<Longrightarrow> k \<notin> os_readFdSetPost s \<and> k \<notin> os_writeFdSetPost s" "int a \<le> os_maxFd s" "fd \<le> a"
  shows "do_fds cb rd wr fd s = do_fds cb rd wr a s"
  using assms(3)
proof (induction "a - fd" arbitrary: fd)
  case (Suc n)
  then have "do_fds cb rd wr (Suc fd) s = do_fds cb rd wr a s" by (intro Suc.hyps) linarith+
  moreover have "do_read cb rd fd s = Some s" "do_write cb wr fd s = Some s"
    using assms(1) [of fd] Suc by (simp_all add: do_read_def do_write_def)
  moreover have "int fd \<le> os_maxFd s" using assms(2) Suc by linarith
  ultimately show ?case by (subst do_fds.simps) simp
qed simp

text \<open>A callback that closes a descriptor; \<^verbatim>\<open>shutdown\<close> fails on it.\<close>

definition closing_callback :: "(nat \<Rightarrow> int) \<Rightarrow> (nat \<Rightarrow> int) \<Rightarrow> int \<Rightarrow> nat \<Rightarrow> os_callback" where
  "closing_callback polled got closed b p d n t = map_option snd (OS_Close (- 1) polled got closed (int b) t)"

lemma close_in_callback:
  assumes "os_balanced t" "os_asyncIoInUse t" "os_readFdSetPost t = {a, b}" "a < b" "os_writeFdSetPost t = {}"
  shows "\<exists>t'. do_fds (closing_callback polled got closed b) rd wr 0 t = Some t' \<and> stalled t'"
proof -
  let ?cb = "closing_callback polled got closed b"
  have ok: "os_ok t" by (rule balanced_ok [OF assms(1)])
  have m: "int a \<le> os_maxFd t" "int b \<le> os_maxFd t" using ok assms(3) by (auto simp: os_ok_iff below_max_def)
  have n: "os_numRdPosted t = 2" using assms(1,3,4) by (simp add: os_balanced_def)
  have ua: "aio_used t (2 * a)" using assms(1,3) by (auto simp: os_balanced_def)
  let ?f = "freed (2 * a) (unpost_rd a t)"
  have f: "os_ok ?f" "os_asyncIoInUse ?f" "int b \<le> os_maxFd ?f" "os_readFdSetPost ?f = {b}" "os_writeFdSetPost ?f = {}" "os_numRdPosted ?f = 1"
    using os_ok_unpost(1) [OF ok, of a] assms(2-5) m n by (auto simp: freed_def unpost_rd_def)
  obtain t' where c: "close_async (int b) ?f = Some t'" using close_async_ok [OF f(1-3)] by blast
  have st: "stalled t'"
    using close_async_shape [OF c f(2)] f by (auto simp: stalled_def)
  have "do_read ?cb rd a t = Some t'"
    using do_read_eq [OF ok, of ?cb rd a] assms(3) ua c by (auto simp: closing_callback_def OS_Close_def)
  moreover have "do_write ?cb wr a t' = Some t'" using st by (simp add: do_write_def stalled_def)
  moreover have "do_fds ?cb rd wr 0 t = do_fds ?cb rd wr a t"
    using assms(3-5) m by (intro do_fds_skip) auto
  ultimately have "do_fds ?cb rd wr 0 t = Some t'"
    using m(1) do_fds_idle [of t' ?cb rd wr "Suc a"] st by (subst (asm) (2) do_fds.simps) (simp add: stalled_def)
  with st show ?thesis by blast
qed

section \<open>Starting an operation\<close>

text \<open>The table as a finite map from indices to outstanding operations.\<close>

definition aio_pending :: "os_state \<Rightarrow> nat \<Rightarrow> AioInfo option" where
  "aio_pending s i = (if aio_used s i then Some (aio_entry s i) else None)"

lemma async_read_ok:
  assumes "os_ok s" "0 \<le> fd" "fd < 1024" "\<not> aio_used s (2 * nat fd)" "\<forall>n. mem n"
  shows "\<exists>s'. OS_AsyncRead mem fd off buf len (Some p) d s = Some (0, s')"
proof -
  obtain tb where tb: "os_asyncIoTable s = Some tb" "length tb = os_asyncIoTableSize s" "0 < os_asyncIoTableSize s"
    using assms(1) by (auto simp: os_ok_iff)
  let ?s = "s\<lparr>os_asyncIoInUse := True, os_maxFd := (if os_maxFd s < fd then fd else os_maxFd s)\<rparr>"
  obtain s2 where g: "grow_to mem (AIO_RD_IX fd) ?s = Some s2"
    using grow_to_total [of ?s tb mem] tb assms(5) by auto
  obtain ext where e: "s2 = ?s\<lparr>os_asyncIoTableSize := os_asyncIoTableSize ?s + length ext,
       os_asyncIoTable := map_option (\<lambda>tb. tb @ ext) (os_asyncIoTable ?s)\<rparr>" "set ext \<subseteq> {aio_zero}"
     "AIO_RD_IX fd < int (os_asyncIoTableSize s + length ext)"
    using grow_to_shape [OF g] unfolding grown_def by (elim exE conjE) (rule that, simp_all)
  have t2: "os_asyncIoTable s2 = Some (tb @ ext)" by (simp add: e(1) tb(1))
  have ix: "0 \<le> AIO_RD_IX fd" "nat (AIO_RD_IX fd) = 2 * nat fd" using assms(2) by (simp_all add: AIO_RD_IX_def nat_mult_distrib)
  have lt: "2 * nat fd < length (tb @ ext)" using e(3) ix tb(2) by simp
  have "\<not> aio_inUse ((tb @ ext) ! (2 * nat fd))"
    using used_append [OF e(2), of "2 * nat fd" tb] assms(4) lt aio_used_cong [OF tb(1)] by blast
  then have "aio_get s2 (AIO_RD_IX fd) = Some ((tb @ ext) ! (2 * nat fd))" "\<not> aio_inUse ((tb @ ext) ! (2 * nat fd))"
    "\<exists>s3. aio_put s2 (AIO_RD_IX fd) (aio_request (Some p) d fd len off buf) = Some s3"
    using lt ix by (simp_all add: aio_get_def aio_put_def assert_opt_def t2)
  then show ?thesis
    using g assms(2,3) tb(1) unfolding OS_AsyncRead_def Let_def
    by (auto simp: assert_opt_def fd_ok_def)
qed

lemma async_read_pending:
  assumes "OS_AsyncRead mem fd off buf len (Some p) d s = Some (r, s')"
  shows "aio_pending s' = (aio_pending s)(2 * nat fd \<mapsto> aio_request (Some p) d fd len off buf)"
    and "os_readFdSet s' = insert (nat fd) (os_readFdSet s)"
proof -
  obtain tb ext where e: "os_asyncIoTable s = Some tb"
     "s' = s\<lparr>os_asyncIoInUse := True, os_maxFd := max (os_maxFd s) fd, os_asyncIoTableSize := os_asyncIoTableSize s + length ext,
       os_asyncIoTable := Some ((tb @ ext)[2 * nat fd := aio_request (Some p) d fd len off buf]),
       os_readFdSet := insert (nat fd) (os_readFdSet s)\<rparr>" "set ext \<subseteq> {aio_zero}"
     "2 * nat fd < length (tb @ ext)"
    using OS_AsyncRead_shape [OF assms] by (elim exE conjE) (rule that)
  have u: "aio_used s' i \<longleftrightarrow> i = 2 * nat fd \<or> aio_used s i" for i
    using used_request [OF e(1,3,4)] unfolding e(2) aio_used_def by simp
  have "aio_entry s' i = (if i = 2 * nat fd then aio_request (Some p) d fd len off buf else aio_entry s i)"
    if "i = 2 * nat fd \<or> aio_used s i" for i
    using that e(1,4) by (auto simp: e(2) aio_entry_def aio_used_def nth_append)
  with u show "aio_pending s' = (aio_pending s)(2 * nat fd \<mapsto> aio_request (Some p) d fd len off buf)"
    by (auto simp: aio_pending_def)
  show "os_readFdSet s' = insert (nat fd) (os_readFdSet s)" by (simp add: e(2))
qed

section \<open>Sample runs\<close>

text \<open>Everything watched is ready; a callback that starts its read again.\<close>

definition all_ready :: os_select where
  "all_ready R W = (0, R, W)"

definition reread :: "int \<Rightarrow> os_callback" where
  "reread fd p d n s = (case OS_AsyncRead (\<lambda>_. True) fd 0 0 100 (Some p) d s of None \<Rightarrow> Some s | Some (_, s') \<Rightarrow> Some s')"

lemma all_ready_ok: "select_ok all_ready"
  by (simp add: select_ok_def all_ready_def)

lemma reread_ok: "callback_ok cl (reread fd)"
  unfolding callback_ok_def
proof (intro allI)
  fix p d n s
  show "\<exists>s'. reread fd p d n s = Some s' \<and> (os_act cl)\<^sup>*\<^sup>* s s'"
  proof (cases "OS_AsyncRead (\<lambda>_. True) fd 0 0 100 (Some p) d s")
    case (Some x)
    then obtain r s' where "OS_AsyncRead (\<lambda>_. True) fd 0 0 100 (Some p) d s = Some (r, s')" by (cases x) auto
    then show ?thesis by (auto simp: reread_def intro: act_read)
  qed (simp add: reread_def)
qed

lemma sample_run:
  "\<exists>s. (os_step cl)\<^sup>*\<^sup>* os_started s \<and> os_readFdSet s = {3, 5} \<and> os_writeFdSet s = {}"
proof -
  have ws: "os_writeFdSet s' = os_writeFdSet s" if "OS_AsyncRead m fd off b l (Some p) d s = Some (r, s')" for m fd off b l p d s r s'
    using OS_AsyncRead_shape [OF that] by auto
  have u0: "\<not> aio_used os_started i" for i
    by (simp add: os_started_def OS_LibInit_def os_initial_def aio_used_def)
  have e0: "os_readFdSet os_started = {}" "os_writeFdSet os_started = {}"
    by (simp_all add: os_started_def OS_LibInit_def os_initial_def)
  obtain s1 where s1: "OS_AsyncRead (\<lambda>_. True) 3 0 0 100 (Some 1) 7 os_started = Some (0, s1)"
    using async_read_ok [OF started_ok, where fd = 3 and mem = "\<lambda>_. True" and off = 0 and buf = 0 and len = 100 and p = 1 and d = 7] u0 by auto
  have f1: "os_readFdSet s1 = {3}" "os_writeFdSet s1 = {}"
    using async_read_pending(2) [OF s1] ws [OF s1] e0 by simp_all
  have "aio_pending s1 10 = None"
    unfolding async_read_pending(1) [OF s1] by (simp add: aio_pending_def u0)
  then have u1: "\<not> aio_used s1 (2 * nat 5)" by (auto simp: aio_pending_def split: if_splits)
  obtain s2 where s2: "OS_AsyncRead (\<lambda>_. True) 5 0 0 100 (Some 1) 8 s1 = Some (0, s2)"
    using async_read_ok [OF os_ok_read [OF started_ok s1] _ _ u1, where mem = "\<lambda>_. True" and off = 0 and buf = 0 and len = 100 and p = 1 and d = 8] by auto
  have f2: "os_readFdSet s2 = {3, 5}" "os_writeFdSet s2 = {}"
    using async_read_pending(2) [OF s2] ws [OF s2] f1 by auto
  have "(os_step cl)\<^sup>*\<^sup>* os_started s2"
    by (rule rtranclp.rtrancl_into_rtrancl [where b = s1], rule r_into_rtranclp)
      (rule step_act, rule act_read, rule s1, rule step_act, rule act_read, rule s2)
  with f2 show ?thesis by blast
qed

section \<open>Properties\<close>

text \<open>
  C25: A read of a descriptor below the size of a descriptor set that has no read outstanding is
  always started, whatever the size of the table was: the table grows until it holds the descriptor,
  keeps every outstanding operation, gets the new one, and stays well formed.
\<close>

theorem os_async_read_refines:
  assumes "os_ok s" "0 \<le> fd" "fd < 1024" "aio_pending s (2 * nat fd) = None" "\<forall>n. mem n"
  shows "\<exists>s'. OS_AsyncRead mem fd off buf len (Some p) d s = Some (0, s') \<and> os_ok s' \<and>
     aio_pending s' = (aio_pending s)(2 * nat fd \<mapsto> aio_request (Some p) d fd len off buf) \<and>
     os_readFdSet s' = insert (nat fd) (os_readFdSet s)"
proof -
  have "\<not> aio_used s (2 * nat fd)" using assms(4) by (auto simp: aio_pending_def split: if_splits)
  then obtain s' where "OS_AsyncRead mem fd off buf len (Some p) d s = Some (0, s')"
    using async_read_ok [OF assms(1-3) _ assms(5)] by blast
  with os_ok_read [OF assms(1) this] async_read_pending [OF this] show ?thesis by blast
qed

theorem os_async_read_refines_witness:
  "\<exists>s'. OS_AsyncRead (\<lambda>_. True) 100 0 0 64 (Some 1) 7 os_started = Some (0, s') \<and>
     aio_pending s' = [200 \<mapsto> aio_request (Some 1) 7 100 64 0 0]"
proof -
  have e: "aio_pending os_started = Map.empty"
    by (rule ext) (simp add: aio_pending_def os_started_def OS_LibInit_def os_initial_def aio_used_def)
  show ?thesis
    using os_async_read_refines [OF started_ok, where fd = 100 and mem = "\<lambda>_. True" and off = 0 and buf = 0 and len = 64 and p = 1 and d = 7]
    by (auto simp: e)
qed



text \<open>
  C11: As long as no ready descriptor is closed, the event loop calls the callback of every ready
  operation exactly once, in the order of the descriptors, a read before a write, with the result of
  its own read or write, after it freed the entry; when it returns no event is left over.
\<close>

theorem os_doio_dispatches:
  assumes "(os_step quiet_close)\<^sup>*\<^sup>* os_started s" "callback_ok quiet_close cb" "select_ok sel"
    "sel (os_readFdSet s) (os_writeFdSet s) = (n, rs, ws)"
  shows "\<exists>s'. OS_DoIo cb sel rd wr s = Some (0, s') \<and>
     dispatched cb (calls rd wr (posted_state rs ws (s\<lparr>os_asyncIoInUse := True\<rparr>)))
       (posted_state rs ws (s\<lparr>os_asyncIoInUse := True\<rparr>)) = Some s' \<and>
     os_readFdSetPost s' = {} \<and> os_writeFdSetPost s' = {} \<and> os_numRdPosted s' = 0 \<and> os_numWrPosted s' = 0"
proof -
  have "os_balanced s" "ready s = {}" using idle_steps [OF assms(1)] by auto
  then obtain s' where s': "OS_DoIo cb sel rd wr s = Some (0, s')" "os_balanced s'" "ready s' = {}"
    "dispatched cb (calls rd wr (posted_state rs ws (s\<lparr>os_asyncIoInUse := True\<rparr>)))
       (posted_state rs ws (s\<lparr>os_asyncIoInUse := True\<rparr>)) = Some s'"
    using DoIo_dispatches [OF assms(2,3) _ _ assms(4), of rd wr] by blast
  have "os_readFdSetPost s' = {}" "os_writeFdSetPost s' = {}" using s'(3) by (simp_all add: ready_def)
  with s'(1,4) idle_counts [OF s'(2)] s'(3) show ?thesis by simp
qed

theorem os_doio_dispatches_witness:
  "\<exists>s s'. os_readFdSet s = {3, 5} \<and> OS_DoIo (reread 3) all_ready (\<lambda>_. 100) (\<lambda>_. 0) s = Some (0, s') \<and>
     os_numRdPosted s' = 0"
proof -
  obtain s where s: "(os_step quiet_close)\<^sup>*\<^sup>* os_started s" "os_readFdSet s = {3, 5}"
    using sample_run [of quiet_close] by blast
  have a: "all_ready (os_readFdSet s) (os_writeFdSet s) = (0, os_readFdSet s, os_writeFdSet s)"
    by (simp add: all_ready_def)
  show ?thesis
    using os_doio_dispatches [OF s(1) reread_ok [of quiet_close 3] all_ready_ok a, where rd = "\<lambda>_. 100" and wr = "\<lambda>_. 0"] s(2)
    by (elim exE conjE) (intro exI conjI)
qed

text \<open>
  C23: When two descriptors are ready to be read and the callback of the first closes the second,
  \<^verbatim>\<open>OS_Close\<close> takes the event back but not its count. From then on the event loop never waits for an
  event and never calls a callback again, whatever operations are started.
\<close>

theorem os_close_stalls:
  assumes "(os_step quiet_close)\<^sup>*\<^sup>* os_started s" "select_ok sel"
    "sel (os_readFdSet s) (os_writeFdSet s) = (n, {a, b}, {})" "a < b"
  shows "\<exists>s1. OS_DoIo (closing_callback polled got closed b) sel rd wr s = Some (0, s1) \<and>
     (\<forall>s2 cb' sel' rd' wr'. (os_step any_close)\<^sup>*\<^sup>* s1 s2 \<longrightarrow>
        OS_DoIo cb' sel' rd' wr' s2 = Some (0, s2\<lparr>os_asyncIoInUse := True\<rparr>))"
proof -
  have b: "os_balanced s" "ready s = {}" using idle_steps [OF assms(1)] by auto
  let ?s = "s\<lparr>os_asyncIoInUse := True\<rparr>"
  let ?p = "posted_state {a, b} {} ?s"
  have x: "0 \<le> n" "{a, b} \<subseteq> os_readFdSet s"
    using assms(2) [unfolded select_ok_def, rule_format, of "os_readFdSet s" "os_writeFdSet s"] assms(3) by simp_all
  have pe: "post_events sel ?s = Some ?p" by (rule post_events_idle [OF b assms(2,3)])
  have p: "os_balanced ?p" using x(2) by (intro balanced_posted balanced_flag b) auto
  have r: "os_readFdSetPost ?p = {a, b}" "os_writeFdSetPost ?p = {}" "os_asyncIoInUse ?p" "os_numRdPosted ?p \<noteq> 0"
    using b idle_counts [OF b(1)] assms(4) by (auto simp: posted_state_def ready_def)
  obtain s1 where s1: "do_fds (closing_callback polled got closed b) rd wr 0 ?p = Some s1" "stalled s1"
    using close_in_callback [OF p r(3,1) assms(4) r(2), of polled got closed rd wr] by blast
  then have "OS_DoIo (closing_callback polled got closed b) sel rd wr s = Some (0, s1)"
    using pe r(4) by (simp add: OS_DoIo_def)
  with stalled_steps [OF _ s1(2)] stalled_DoIo show ?thesis by blast
qed

theorem os_close_stalls_witness:
  "\<exists>s s1. os_readFdSet s = {3, 5} \<and>
     OS_DoIo (closing_callback (\<lambda>_. 0) (\<lambda>_. 0) 0 5) all_ready (\<lambda>_. 100) (\<lambda>_. 0) s = Some (0, s1) \<and>
     OS_DoIo (reread 3) all_ready (\<lambda>_. 100) (\<lambda>_. 0) s1 = Some (0, s1\<lparr>os_asyncIoInUse := True\<rparr>)"
proof -
  obtain s where s: "(os_step quiet_close)\<^sup>*\<^sup>* os_started s" "os_readFdSet s = {3, 5}" "os_writeFdSet s = {}"
    using sample_run [of quiet_close] by blast
  have a: "all_ready (os_readFdSet s) (os_writeFdSet s) = (0, {3, 5}, {})"
    by (simp add: all_ready_def s)
  obtain s1 where "OS_DoIo (closing_callback (\<lambda>_. 0) (\<lambda>_. 0) 0 5) all_ready (\<lambda>_. 100) (\<lambda>_. 0) s = Some (0, s1)"
    "OS_DoIo (reread 3) all_ready (\<lambda>_. 100) (\<lambda>_. 0) s1 = Some (0, s1\<lparr>os_asyncIoInUse := True\<rparr>)"
    using os_close_stalls [OF s(1) all_ready_ok a, where polled = "\<lambda>_. 0" and got = "\<lambda>_. 0" and closed = 0
        and rd = "\<lambda>_. 100" and wr = "\<lambda>_. 0"] by auto
  with s(2) show ?thesis by blast
qed

end
