(* ===== verification/Os_Accept.thy ===== *)
theory Os_Accept
  imports Cgicc_Form
begin

text \<open>
  The sockets of \<^verbatim>\<open>src/fastcgi/fastcgi_lib/os_unix.cpp\<close>: listening, connecting, the check of a client's
  address, the signal handlers and \<^verbatim>\<open>OS_Accept\<close>.

  The results of the system calls are parameters. \<open>sig n\<close> is the value of \<^verbatim>\<open>shutdownPending\<close> when it is
  read for the \<open>n\<close>-th time, \<open>acc n\<close> the result of the \<open>n\<close>-th call of \<^verbatim>\<open>accept\<close>, \<open>keep n\<close> whether a socket
  of that call has data to read. The file is compiled without \<^verbatim>\<open>USE_LOCKING\<close> and without
  \<^verbatim>\<open>HAVE_SOCKADDR_UN_SUN_LEN\<close>. \<open>None\<close> is the end of the process by \<^verbatim>\<open>exit\<close>, an access out of bounds, or
  a loop that does not end.
\<close>

section \<open>Signals\<close>

datatype os_handler = SIG_DFL | SIG_IGN | Sigpipe | Sigusr1 | Other_handler nat

definition SIGUSR1 :: nat where "SIGUSR1 = 10"
definition SIGPIPE :: nat where "SIGPIPE = 13"

record os_flags =
  shutdownPending :: bool
  shutdownNow :: bool

definition OS_ShutdownPending :: "os_flags \<Rightarrow> os_flags" where
  "OS_ShutdownPending s = s\<lparr>shutdownPending := True\<rparr>"

definition OS_Sigusr1Handler :: "os_flags \<Rightarrow> os_flags" where
  "OS_Sigusr1Handler s = OS_ShutdownPending s"

definition OS_SigpipeHandler :: "os_flags \<Rightarrow> os_flags" where
  "OS_SigpipeHandler s = s"

definition installSignalHandler :: "nat \<Rightarrow> os_handler \<Rightarrow> bool \<Rightarrow> (nat \<Rightarrow> os_handler) \<Rightarrow> nat \<Rightarrow> os_handler" where
  "installSignalHandler signo act force h = (if force \<or> h signo = SIG_DFL then h(signo := act) else h)"

definition OS_InstallSignalHandlers :: "bool \<Rightarrow> (nat \<Rightarrow> os_handler) \<Rightarrow> nat \<Rightarrow> os_handler" where
  "OS_InstallSignalHandlers force h =
     (let h1 = installSignalHandler SIGPIPE Sigpipe force h in installSignalHandler SIGUSR1 Sigusr1 force h1)"

text \<open>\<open>n\<close> is what \<^verbatim>\<open>read\<close> or \<^verbatim>\<open>write\<close> returns.\<close>

definition OS_Read :: "int \<Rightarrow> os_flags \<Rightarrow> int" where
  "OS_Read n s = (if shutdownNow s then - 1 else n)"

definition OS_Write :: "int \<Rightarrow> os_flags \<Rightarrow> int" where
  "OS_Write n s = (if shutdownNow s then - 1 else n)"

text \<open>\<open>r\<close> and \<open>e\<close> are the result of \<^verbatim>\<open>getpeername\<close> and its error number.\<close>

definition ENOTCONN :: int where "ENOTCONN = 107"

definition OS_IsFcgi :: "int \<Rightarrow> int \<Rightarrow> bool" where
  "OS_IsFcgi r e = (if r \<noteq> 0 \<and> e = ENOTCONN then True else False)"

text \<open>\<open>getfl\<close> is what \<^verbatim>\<open>F_GETFL\<close> returns, \<open>setfl\<close> what \<^verbatim>\<open>F_SETFL\<close> returns; the result is the value that is set.\<close>

definition OS_SetFlags :: "int \<Rightarrow> (int \<Rightarrow> int) \<Rightarrow> int \<Rightarrow> int option" where
  "OS_SetFlags getfl setfl flags = do {
     assert_opt (\<not> getfl < 0);
     let val = or getfl flags;
     assert_opt (\<not> setfl val < 0);
     Some val
   }"

section \<open>Listening and connecting\<close>

datatype sock_addr = UnixAddr bytes nat | InetAddr u32 u16

text \<open>A path as a C string; \<^verbatim>\<open>sun_path\<close> has 108 bytes. The address carries its length.\<close>

definition OS_BuildSockAddrUn :: "bytes \<Rightarrow> sock_addr option" where
  "OS_BuildSockAddrUn bindPath =
     (let bindPathLen = length bindPath in
      if 108 < bindPathLen then None
      else Some (UnixAddr (bindPath @ replicate (108 - bindPathLen) NUL) (2 + bindPathLen)))"

text \<open>
  Where a bind path is split: the host, the port and whether it names a TCP port. \<^verbatim>\<open>MAXPATHLEN\<close> is 4096;
  a longer path overflows \<^verbatim>\<open>host\<close>. The port is a \<^verbatim>\<open>short\<close>.
\<close>

definition port_of :: "bytes \<Rightarrow> u16" where
  "port_of tp = word_of_int (atol tp)"

definition split_path :: "bytes \<Rightarrow> (bytes \<times> u16 \<times> bool) option" where
  "split_path bindPath = do {
     assert_opt (length bindPath < 4096);
     (if CHR '':'' \<in> set bindPath then
        let host = takeWhile (\<lambda>c. c \<noteq> CHR '':'') bindPath;
            tp = tl (dropWhile (\<lambda>c. c \<noteq> CHR '':'') bindPath)
        in if port_of tp = 0 then Some (bindPath, 0, False) else Some (host, port_of tp, True)
      else Some (bindPath, 0, False))
   }"

definition INADDR_NONE :: u32 where "INADDR_NONE = 0xffffffff"

text \<open>
  What \<^verbatim>\<open>gethostbyname\<close> finds: nothing, or the type and the addresses of the host. \<open>inet\<close> is
  \<^verbatim>\<open>inet_addr\<close>.
\<close>

record hostent =
  h_addrtype :: nat
  h_addr_list :: "u32 list"

definition AF_INET :: nat where "AF_INET = 2"

definition listen_addr :: "(bytes \<Rightarrow> u32) \<Rightarrow> (bytes \<Rightarrow> hostent option) \<Rightarrow> bytes \<Rightarrow> u32 option" where
  "listen_addr inet ghbn host =
     (if host = [] \<or> host = ''*'' then Some 0
      else if inet host \<noteq> INADDR_NONE then Some (inet host)
      else do {
        hep \<leftarrow> ghbn host;
        assert_opt (\<not> (h_addrtype hep \<noteq> AF_INET \<or> h_addr_list hep = []));
        assert_opt (length (h_addr_list hep) = 1);
        Some (hd (h_addr_list hep))
      })"

text \<open>
  The operating system: the result of \<^verbatim>\<open>socket\<close>, of \<^verbatim>\<open>setsockopt\<close>, and of \<^verbatim>\<open>bind\<close> and \<^verbatim>\<open>listen\<close> for an
  address. The result is the descriptor, the address it is bound to if there is one, and the path that
  is removed.
\<close>

record os_sockets =
  sys_socket :: "bool \<Rightarrow> int"
  sys_reuse :: int
  sys_bind :: "sock_addr \<Rightarrow> int"
  sys_listen :: "int \<Rightarrow> int"
  sys_connect :: "sock_addr \<Rightarrow> int"

definition OS_CreateLocalIpcFd ::
  "os_sockets \<Rightarrow> (bytes \<Rightarrow> u32) \<Rightarrow> (bytes \<Rightarrow> hostent option) \<Rightarrow> bytes \<Rightarrow> int \<Rightarrow>
   (int \<times> sock_addr option \<times> bytes option) option" where
  "OS_CreateLocalIpcFd sys inet ghbn bindPath backlog = do {
     (host, port, tcp) \<leftarrow> split_path bindPath;
     tcp_ia \<leftarrow> (if tcp then listen_addr inet ghbn host else Some 0);
     let listenSock = sys_socket sys tcp;
     assert_opt (\<not> (tcp \<and> 0 \<le> listenSock \<and> sys_reuse sys < 0));
     if listenSock < 0 then Some (- 1, None, None)
     else do {
       sa \<leftarrow> (if tcp then Some (InetAddr tcp_ia port) else OS_BuildSockAddrUn bindPath);
       assert_opt (\<not> (sys_bind sys sa < 0 \<or> sys_listen sys backlog < 0));
       Some (listenSock, Some sa, if tcp then None else Some bindPath)
     }
   }"

text \<open>The second list is what is closed.\<close>

definition OS_FcgiConnect ::
  "os_sockets \<Rightarrow> (bytes \<Rightarrow> hostent option) \<Rightarrow> bytes \<Rightarrow> (int \<times> int list) option" where
  "OS_FcgiConnect sys ghbn bindPath = do {
     (host, port, tcp) \<leftarrow> split_path bindPath;
     sa \<leftarrow> (if tcp then do {
              hp \<leftarrow> ghbn (if host \<noteq> [] then host else ''localhost'');
              assert_opt (h_addr_list hp \<noteq> []);
              Some (InetAddr (hd (h_addr_list hp)) port)
            } else OS_BuildSockAddrUn bindPath);
     let resultSock = sys_socket sys tcp;
     assert_opt (0 \<le> resultSock);
     (if 0 \<le> sys_connect sys sa then Some (resultSock, []) else Some (- 1, [resultSock]))
   }"

section \<open>Starting an application\<close>

text \<open>
  The descriptors of a process as a map to open files. The result of \<^verbatim>\<open>fork\<close> is a parameter; \<open>Inl\<close> is
  the return of the parent, \<open>Inr\<close> the descriptors the child starts the application with.
\<close>

definition FCGI_LISTENSOCK :: int where "FCGI_LISTENSOCK = 0"

definition os_close :: "int \<Rightarrow> (int \<rightharpoonup> nat) \<Rightarrow> int \<rightharpoonup> nat" where
  "os_close fd m = m(fd := None)"

definition os_dup2 :: "int \<Rightarrow> int \<Rightarrow> (int \<rightharpoonup> nat) \<Rightarrow> int \<rightharpoonup> nat" where
  "os_dup2 old new m = (case m old of None \<Rightarrow> m | Some f \<Rightarrow> m(new \<mapsto> f))"

definition OS_SpawnChild :: "int \<Rightarrow> int \<Rightarrow> (int \<rightharpoonup> nat) \<Rightarrow> (int + (int \<rightharpoonup> nat)) option" where
  "OS_SpawnChild forkResult listenFd m = do {
     assert_opt (\<not> forkResult < 0);
     (if forkResult = 0 then
        let m1 = os_close 0 m;
            m2 = (if listenFd \<noteq> FCGI_LISTENSOCK then os_close listenFd (os_dup2 listenFd FCGI_LISTENSOCK m1) else m1)
        in Some (Inr (os_close 2 (os_close 1 m2)))
      else Some (Inl 0))
   }"

lemma spawned_listens:
  assumes "listenFd \<noteq> 0" "m listenFd = Some f"
  shows "\<exists>m'. OS_SpawnChild 0 listenFd m = Some (Inr m') \<and> m' 0 = Some f \<and> m' listenFd = None \<and> m' 1 = None \<and> m' 2 = None"
  using assms by (simp add: OS_SpawnChild_def FCGI_LISTENSOCK_def os_close_def os_dup2_def)

text \<open>A listening socket that is descriptor 0 already is closed before the application starts.\<close>

lemma spawned_deaf: "\<exists>m'. OS_SpawnChild 0 0 m = Some (Inr m') \<and> m' 0 = None"
  by (simp add: OS_SpawnChild_def FCGI_LISTENSOCK_def os_close_def)

section \<open>Paths\<close>

text \<open>A path with a port from 1 to 65535 names that port; other paths name a local socket.\<close>

lemma split_path_tcp:
  assumes "CHR '':'' \<notin> set host" "0 < atol tp" "atol tp < 2 ^ 16" "length host + length tp < 4095"
  shows "split_path (host @ '':'' @ tp) = Some (host, word_of_int (atol tp), True)"
proof -
  have "\<forall>c \<in> set host. c \<noteq> CHR '':''" using assms(1) by auto
  then have "takeWhile (\<lambda>c. c \<noteq> CHR '':'') (host @ '':'' @ tp) = host"
    "dropWhile (\<lambda>c. c \<noteq> CHR '':'') (host @ '':'' @ tp) = CHR '':'' # tp"
    by (simp_all add: takeWhile_append dropWhile_append)
  moreover have "port_of tp \<noteq> 0"
    using assms(2,3) unfolding port_of_def word_of_int_eq_0_iff by (auto dest: zdvd_imp_le)
  ultimately show ?thesis using assms(4) by (simp add: split_path_def port_of_def)
qed

lemma split_path_unix:
  assumes "CHR '':'' \<notin> set path" "length path < 4096"
  shows "split_path path = Some (path, 0, False)"
  using assms by (simp add: split_path_def)

text \<open>A port that is a multiple of 65536 makes the whole path the name of a local socket.\<close>

lemma split_path_port_wraps: "split_path ''localhost:65536'' = Some (''localhost:65536'', 0, False)"
  by (simp add: split_path_def port_of_def atol_def dec_value_def isspace_def isdigit_def LONG_MAX_def LONG_MIN_def)

section \<open>The address of a client\<close>

lemma dropWhile_Cons_shorter: "dropWhile P xs = y # ys \<Longrightarrow> length ys < length xs"
  by (metis Suc_le_eq length_Cons length_dropWhile_le)

function addr_loop :: "(bytes \<Rightarrow> u32) \<Rightarrow> u32 \<Rightarrow> bytes \<Rightarrow> bool" where
  "addr_loop inet a cur =
     (let piece = takeWhile (\<lambda>c. c \<noteq> CHR '','') cur in
      if inet piece = a then True
      else case dropWhile (\<lambda>c. c \<noteq> CHR '','') cur of
             [] \<Rightarrow> False
           | _ # nxt \<Rightarrow> addr_loop inet a nxt)"
  by pat_completeness auto
termination
  by (relation "measure (\<lambda>(inet, a, cur). length cur)") (auto dest: dropWhile_Cons_shorter)

text \<open>\<open>mem\<close> says whether the copy of the list gets memory; a list may be missing.\<close>

definition ClientAddrOK :: "bool \<Rightarrow> (bytes \<Rightarrow> u32) \<Rightarrow> u32 \<Rightarrow> bytes option \<Rightarrow> bool" where
  "ClientAddrOK mem inet a clientList =
     (case clientList of
        None \<Rightarrow> True
      | Some cs \<Rightarrow> if cs = [] then True else if \<not> mem then False else addr_loop inet a cs)"

section \<open>Accepting\<close>

definition EINTR :: int where "EINTR = 4"
definition EPROTO :: int where "EPROTO = 71"
definition ENETUNREACH :: int where "ENETUNREACH = 101"
definition ECONNABORTED :: int where "ECONNABORTED = 103"
definition ECONNRESET :: int where "ECONNRESET = 104"
definition ETIMEDOUT :: int where "ETIMEDOUT = 110"
definition EHOSTUNREACH :: int where "EHOSTUNREACH = 113"

definition is_reasonable_accept_errno :: "int \<Rightarrow> bool" where
  "is_reasonable_accept_errno e \<longleftrightarrow>
     e \<in> {EPROTO, ECONNABORTED, ECONNRESET, ETIMEDOUT, EHOSTUNREACH, ENETUNREACH}"

text \<open>The family of a peer and, for IPv4, its address.\<close>

datatype peer = PeerInet u32 | PeerUnix | PeerOther

record accept_state =
  ac_socket :: int
  ac_sa :: peer
  ac_errno :: int
  ac_calls :: nat
  ac_looks :: nat
  ac_closed :: "int list"

text \<open>The result of \<^verbatim>\<open>accept\<close>: the descriptor, the error number if it is negative, the peer otherwise.\<close>

type_synonym accept_result = "int \<times> int \<times> peer"

definition call_accept :: "(nat \<Rightarrow> accept_result) \<Rightarrow> accept_state \<Rightarrow> accept_state" where
  "call_accept acc s =
     (case acc (ac_calls s) of (r, e, sa) \<Rightarrow>
        if r < 0 then s\<lparr>ac_socket := r, ac_errno := e, ac_calls := Suc (ac_calls s)\<rparr>
        else s\<lparr>ac_socket := r, ac_sa := sa, ac_calls := Suc (ac_calls s)\<rparr>)"

definition look :: "accept_state \<Rightarrow> accept_state" where
  "look s = s\<lparr>ac_looks := Suc (ac_looks s)\<rparr>"

partial_function (option) try_accept ::
  "(nat \<Rightarrow> accept_result) \<Rightarrow> (nat \<Rightarrow> bool) \<Rightarrow> bool \<Rightarrow> accept_state \<Rightarrow> accept_state option" where
  "try_accept acc sig fail_on_intr s =
     (if sig (ac_looks s) then Some (look s)
      else
        let s1 = call_accept acc (look s) in
        if ac_socket s1 < 0 \<and> ac_errno s1 = EINTR \<and> \<not> fail_on_intr
        then (if sig (ac_looks s1) then Some (look s1) else try_accept acc sig fail_on_intr (look s1))
        else Some s1)"

definition close_client :: "accept_state \<Rightarrow> accept_state" where
  "close_client s = s\<lparr>ac_closed := ac_closed s @ [ac_socket s]\<rparr>"

text \<open>The loop up to a client; \<open>Inl\<close> is the return of \<^verbatim>\<open>-1\<close>.\<close>

partial_function (option) accept_client ::
  "(nat \<Rightarrow> accept_result) \<Rightarrow> (nat \<Rightarrow> bool) \<Rightarrow> bool \<Rightarrow> (u32 \<Rightarrow> bool) \<Rightarrow> accept_state \<Rightarrow> (accept_state + accept_state) option" where
  "accept_client acc sig fail_on_intr addr_ok s =
     Option.bind (try_accept acc sig fail_on_intr s) (\<lambda>s1.
       if ac_socket s1 < 0 then
         (if sig (ac_looks s1) \<or> \<not> is_reasonable_accept_errno (ac_errno s1) then Some (Inl (look s1))
          else accept_client acc sig fail_on_intr addr_ok ((look s1)\<lparr>ac_errno := 0\<rparr>))
       else
         (case ac_sa s1 of
            PeerInet a \<Rightarrow> if addr_ok a then Some (Inr s1)
                           else accept_client acc sig fail_on_intr addr_ok (close_client s1)
          | _ \<Rightarrow> Some (Inr s1)))"

definition AcquireLock :: "int \<Rightarrow> bool \<Rightarrow> int" where
  "AcquireLock sock fail_on_intr = 0"

definition ReleaseLock :: "int \<Rightarrow> int" where
  "ReleaseLock sock = 0"

definition is_af_unix_keeper :: "(nat \<Rightarrow> bool) \<Rightarrow> accept_state \<Rightarrow> bool" where
  "is_af_unix_keeper keep s = keep (ac_calls s)"

partial_function (option) accept_lock ::
  "(nat \<Rightarrow> accept_result) \<Rightarrow> (nat \<Rightarrow> bool) \<Rightarrow> (nat \<Rightarrow> bool) \<Rightarrow> int \<Rightarrow> bool \<Rightarrow> (u32 \<Rightarrow> bool) \<Rightarrow> accept_state \<Rightarrow>
   (int \<times> accept_state) option" where
  "accept_lock acc sig keep listen_sock fail_on_intr addr_ok s =
     (if AcquireLock listen_sock fail_on_intr \<noteq> 0 then Some (- 1, s)
      else Option.bind (accept_client acc sig fail_on_intr addr_ok s) (\<lambda>r.
        case r of
          Inl s1 \<Rightarrow> Some (- 1, s1)
        | Inr s1 \<Rightarrow>
            if ReleaseLock listen_sock \<noteq> 0 then Some (- 1, s1)
            else if ac_sa s1 \<noteq> PeerUnix \<or> is_af_unix_keeper keep s1 then Some (ac_socket s1, s1)
            else accept_lock acc sig keep listen_sock fail_on_intr addr_ok (close_client s1)))"

text \<open>\<open>e\<close> is the error number before the call.\<close>

definition OS_Accept ::
  "(nat \<Rightarrow> accept_result) \<Rightarrow> (nat \<Rightarrow> bool) \<Rightarrow> (nat \<Rightarrow> bool) \<Rightarrow> bool \<Rightarrow> (bytes \<Rightarrow> u32) \<Rightarrow> int \<Rightarrow> bool \<Rightarrow> bytes option \<Rightarrow> int \<Rightarrow>
   (int \<times> accept_state) option" where
  "OS_Accept acc sig keep mem inet listen_sock fail_on_intr webServerAddrs e =
     accept_lock acc sig keep listen_sock fail_on_intr (\<lambda>a. ClientAddrOK mem inet a webServerAddrs)
       \<lparr>ac_socket = - 1, ac_sa = PeerOther, ac_errno = e, ac_calls = 0, ac_looks = 0, ac_closed = []\<rparr>"

section \<open>Approved clients\<close>

declare addr_loop.simps [simp del]

fun comma_join :: "bytes list \<Rightarrow> bytes" where
  "comma_join [] = []"
| "comma_join [p] = p"
| "comma_join (p # q # ps) = p @ '','' @ comma_join (q # ps)"

lemma addr_loop_join:
  assumes "ps \<noteq> []" "\<forall>p \<in> set ps. CHR '','' \<notin> set p"
  shows "addr_loop inet a (comma_join ps) \<longleftrightarrow> (\<exists>p \<in> set ps. inet p = a)"
  using assms
proof (induction ps rule: comma_join.induct)
  case (2 p)
  then have tw: "takeWhile (\<lambda>c. c \<noteq> CHR '','') p = p" "dropWhile (\<lambda>c. c \<noteq> CHR '','') p = []"
    by (auto simp: takeWhile_eq_all_conv dropWhile_eq_Nil_conv)
  show ?case by (subst addr_loop.simps) (simp add: tw)
next
  case (3 p q ps)
  then have "\<forall>c \<in> set p. c \<noteq> CHR '',''" by auto
  then have "takeWhile (\<lambda>c. c \<noteq> CHR '','') (comma_join (p # q # ps)) = p"
    "dropWhile (\<lambda>c. c \<noteq> CHR '','') (comma_join (p # q # ps)) = CHR '','' # comma_join (q # ps)"
    by (simp_all add: takeWhile_append dropWhile_append)
  with 3 show ?case by (subst addr_loop.simps) simp
qed simp

section \<open>The first acceptable client\<close>

text \<open>What \<^verbatim>\<open>OS_Accept\<close> passes over, and whom it takes.\<close>

definition passed_over :: "(nat \<Rightarrow> accept_result) \<Rightarrow> (nat \<Rightarrow> bool) \<Rightarrow> bool \<Rightarrow> (u32 \<Rightarrow> bool) \<Rightarrow> nat \<Rightarrow> bool" where
  "passed_over acc keep fail_on_intr addr_ok k \<longleftrightarrow>
     (case acc k of (r, e, sa) \<Rightarrow>
        if r < 0 then (e = EINTR \<and> \<not> fail_on_intr) \<or> is_reasonable_accept_errno e
        else case sa of PeerInet a \<Rightarrow> \<not> addr_ok a | PeerUnix \<Rightarrow> \<not> keep (Suc k) | PeerOther \<Rightarrow> False)"

definition acceptable :: "(nat \<Rightarrow> accept_result) \<Rightarrow> (nat \<Rightarrow> bool) \<Rightarrow> (u32 \<Rightarrow> bool) \<Rightarrow> nat \<Rightarrow> bool" where
  "acceptable acc keep addr_ok k \<longleftrightarrow>
     (case acc k of (r, e, sa) \<Rightarrow>
        0 \<le> r \<and> (case sa of PeerInet a \<Rightarrow> addr_ok a | PeerUnix \<Rightarrow> keep (Suc k) | PeerOther \<Rightarrow> True))"

definition refused :: "(nat \<Rightarrow> accept_result) \<Rightarrow> nat \<Rightarrow> nat \<Rightarrow> int list" where
  "refused acc k n = filter (\<lambda>r. 0 \<le> r) (map (\<lambda>i. fst (acc i)) [k..<n])"

abbreviation never :: "nat \<Rightarrow> bool" where
  "never \<equiv> \<lambda>_. False"

lemma try_accept_never:
  "try_accept acc never fl s =
     (let s1 = call_accept acc (look s) in
      if ac_socket s1 < 0 \<and> ac_errno s1 = EINTR \<and> \<not> fl then try_accept acc never fl (look s1) else Some s1)"
  by (subst try_accept.simps) (simp add: Let_def)

lemma accept_lock_unfold:
  "accept_lock acc sig keep l fl ok s =
     Option.bind (accept_client acc sig fl ok s) (\<lambda>r. case r of
          Inl s1 \<Rightarrow> Some (- 1, s1)
        | Inr s1 \<Rightarrow> if ac_sa s1 \<noteq> PeerUnix \<or> keep (ac_calls s1) then Some (ac_socket s1, s1)
                     else accept_lock acc sig keep l fl ok (close_client s1))"
  by (subst accept_lock.simps)
    (simp add: AcquireLock_def ReleaseLock_def is_af_unix_keeper_def cong: sum.case_cong)

lemma EINTR_unreasonable [simp]: "\<not> is_reasonable_accept_errno EINTR"
  by (simp add: is_reasonable_accept_errno_def EINTR_def EPROTO_def ECONNABORTED_def ECONNRESET_def ETIMEDOUT_def
      EHOSTUNREACH_def ENETUNREACH_def)

lemma accept_pass:
  assumes "passed_over acc keep fl ok (ac_calls s)"
  shows "\<exists>s'. accept_lock acc never keep l fl ok s = accept_lock acc never keep l fl ok s' \<and>
     ac_calls s' = Suc (ac_calls s) \<and> ac_closed s' = ac_closed s @ refused acc (ac_calls s) (Suc (ac_calls s))"
proof -
  obtain r e sa where a: "acc (ac_calls s) = (r, e, sa)" by (cases "acc (ac_calls s)")
  let ?s1 = "call_accept acc (look s)"
  consider (intr) "r < 0" "e = EINTR" "\<not> fl" | (again) "r < 0" "e \<noteq> EINTR \<or> fl" "is_reasonable_accept_errno e"
    | (addr) x where "0 \<le> r" "sa = PeerInet x" "\<not> ok x" | (gone) "0 \<le> r" "sa = PeerUnix" "\<not> keep (Suc (ac_calls s))"
    using assms a by (auto simp: passed_over_def split: if_splits peer.splits)
  then show ?thesis
  proof cases
    case intr
    then have "try_accept acc never fl s = try_accept acc never fl (look ?s1)"
      by (subst try_accept_never) (simp add: Let_def call_accept_def look_def a)
    then have "accept_client acc never fl ok s = accept_client acc never fl ok (look ?s1)"
      by (subst (1 2) accept_client.simps) simp
    then have "accept_lock acc never keep l fl ok s = accept_lock acc never keep l fl ok (look ?s1)"
      by (subst (1 2) accept_lock_unfold) simp
    then show ?thesis
      by (intro exI [of _ "look ?s1"]) (use intr in \<open>simp add: call_accept_def look_def a refused_def\<close>)
  next
    case again
    then have t: "try_accept acc never fl s = Some ?s1"
      by (subst try_accept_never) (auto simp: Let_def call_accept_def look_def a)
    let ?n = "(look ?s1)\<lparr>ac_errno := 0\<rparr>"
    have "accept_client acc never fl ok s = accept_client acc never fl ok ?n"
      by (subst accept_client.simps) (use t again in \<open>simp add: call_accept_def look_def a\<close>)
    then have "accept_lock acc never keep l fl ok s = accept_lock acc never keep l fl ok ?n"
      by (subst (1 2) accept_lock_unfold) simp
    then show ?thesis
      by (intro exI [of _ ?n]) (use again in \<open>simp add: call_accept_def look_def a refused_def\<close>)
  next
    case (addr x)
    then have t: "try_accept acc never fl s = Some ?s1"
      by (subst try_accept_never) (auto simp: Let_def call_accept_def look_def a)
    have "accept_client acc never fl ok s = accept_client acc never fl ok (close_client ?s1)"
      by (subst accept_client.simps) (use t addr in \<open>simp add: call_accept_def look_def a\<close>)
    then have "accept_lock acc never keep l fl ok s = accept_lock acc never keep l fl ok (close_client ?s1)"
      by (subst (1 2) accept_lock_unfold) simp
    then show ?thesis
      by (intro exI [of _ "close_client ?s1"]) (use addr in \<open>simp add: call_accept_def look_def close_client_def a refused_def\<close>)
  next
    case gone
    then have t: "try_accept acc never fl s = Some ?s1"
      by (subst try_accept_never) (auto simp: Let_def call_accept_def look_def a)
    have "accept_client acc never fl ok s = Some (Inr ?s1)"
      by (subst accept_client.simps) (use t gone in \<open>simp add: call_accept_def look_def a\<close>)
    then have "accept_lock acc never keep l fl ok s = accept_lock acc never keep l fl ok (close_client ?s1)"
      by (subst accept_lock_unfold) (use gone in \<open>simp add: call_accept_def look_def a\<close>)
    then show ?thesis
      by (intro exI [of _ "close_client ?s1"]) (use gone in \<open>simp add: call_accept_def look_def close_client_def a refused_def\<close>)
  qed
qed

lemma accept_take:
  assumes "acceptable acc keep ok (ac_calls s)"
  shows "\<exists>s'. accept_lock acc never keep l fl ok s = Some (fst (acc (ac_calls s)), s') \<and>
     ac_calls s' = Suc (ac_calls s) \<and> ac_closed s' = ac_closed s"
proof -
  obtain r e sa where a: "acc (ac_calls s) = (r, e, sa)" by (cases "acc (ac_calls s)")
  let ?s1 = "call_accept acc (look s)"
  have ok: "0 \<le> r" "case sa of PeerInet a \<Rightarrow> ok a | PeerUnix \<Rightarrow> keep (Suc (ac_calls s)) | PeerOther \<Rightarrow> True"
    using assms a by (auto simp: acceptable_def)
  then have t: "try_accept acc never fl s = Some ?s1"
    by (subst try_accept_never) (auto simp: Let_def call_accept_def look_def a)
  have "accept_client acc never fl ok s = Some (Inr ?s1)"
    by (subst accept_client.simps) (use t ok in \<open>auto simp: call_accept_def look_def a split: peer.splits\<close>)
  then have "accept_lock acc never keep l fl ok s = Some (r, ?s1)"
    by (subst accept_lock_unfold) (use ok in \<open>auto simp: call_accept_def look_def a split: peer.splits\<close>)
  with ok show ?thesis by (simp add: a call_accept_def look_def)
qed

lemma accept_run:
  assumes "\<And>i. ac_calls s \<le> i \<Longrightarrow> i < n \<Longrightarrow> passed_over acc keep fl ok i" "acceptable acc keep ok n" "ac_calls s \<le> n"
  shows "\<exists>s'. accept_lock acc never keep l fl ok s = Some (fst (acc n), s') \<and> ac_calls s' = Suc n \<and>
     ac_closed s' = ac_closed s @ refused acc (ac_calls s) n"
  using assms
proof (induction "n - ac_calls s" arbitrary: s)
  case 0
  then show ?case using accept_take [of acc keep ok s l fl] by (simp add: refused_def)
next
  case (Suc m)
  then have "passed_over acc keep fl ok (ac_calls s)" by simp
  from accept_pass [OF this, of l] obtain s1 where s1:
    "accept_lock acc never keep l fl ok s = accept_lock acc never keep l fl ok s1"
    "ac_calls s1 = Suc (ac_calls s)" "ac_closed s1 = ac_closed s @ refused acc (ac_calls s) (Suc (ac_calls s))" by blast
  have le: "ac_calls s < n" using Suc(2) by simp
  have "\<exists>s'. accept_lock acc never keep l fl ok s1 = Some (fst (acc n), s') \<and> ac_calls s' = Suc n \<and>
     ac_closed s' = ac_closed s1 @ refused acc (ac_calls s1) n"
    using Suc(2-) s1(2) le by (intro Suc.hyps) auto
  with s1 le show ?case by (auto simp: refused_def upt_conv_Cons)
qed

section \<open>A shutdown after a refused client\<close>

text \<open>The client that was refused last stays in the variables of the function.\<close>

definition stale :: "(nat \<Rightarrow> bool) \<Rightarrow> (u32 \<Rightarrow> bool) \<Rightarrow> accept_state \<Rightarrow> bool" where
  "stale sig ok s \<longleftrightarrow> 0 \<le> ac_socket s \<and> (\<exists>a. ac_sa s = PeerInet a \<and> \<not> ok a) \<and> (\<forall>n \<ge> ac_looks s. sig n)"

lemma stale_spins:
  assumes "stale sig ok s"
  shows "accept_client acc sig fl ok s = None"
proof (rule ccontr)
  assume "accept_client acc sig fl ok s \<noteq> None"
  then obtain y where "accept_client acc sig fl ok s = Some y" by auto
  then have "\<not> stale sig ok s"
  proof (rule accept_client.raw_induct [where P = "\<lambda>acc sig fl ok s y. \<not> stale sig ok s", rotated], goal_cases)
    case (1 rec acc sig fl ok s y)
    show ?case
    proof
      assume st: "stale sig ok s"
      then have t: "try_accept acc sig fl s = Some (look s)" by (subst try_accept.simps) (simp add: stale_def)
      from st obtain a where a: "ac_sa s = PeerInet a" "\<not> ok a" "0 \<le> ac_socket s" by (auto simp: stale_def)
      have "rec acc sig fl ok (close_client (look s)) = Some y"
        using 1(2) t a by (simp add: look_def)
      with 1(1) have "\<not> stale sig ok (close_client (look s))" by blast
      with st show False by (auto simp: stale_def close_client_def look_def)
    qed
  qed
  with assms show False by blast
qed

section \<open>Properties\<close>

text \<open>
  C17: As long as no shutdown is asked for, \<^verbatim>\<open>OS_Accept\<close> returns the first client it may serve: it
  passes over interrupted calls, over the errors of a connection that is gone already, over IPv4
  clients whose address is not in the list and over local clients that sent nothing, and it has
  closed each of the clients it refused, once and in order.
\<close>

theorem os_accept_first_client:
  assumes "ps \<noteq> []" "\<forall>p \<in> set ps. CHR '','' \<notin> set p" "comma_join ps \<noteq> []"
    "\<forall>i < n. passed_over acc keep fl (\<lambda>a. \<exists>p \<in> set ps. inet p = a) i"
    "acceptable acc keep (\<lambda>a. \<exists>p \<in> set ps. inet p = a) n"
  shows "\<exists>s. OS_Accept acc (\<lambda>_. False) keep True inet l fl (Some (comma_join ps)) e = Some (fst (acc n), s) \<and>
     ac_calls s = Suc n \<and> ac_closed s = filter (\<lambda>r. 0 \<le> r) (map (\<lambda>i. fst (acc i)) [0..<n])"
proof -
  have ok: "(\<lambda>a. ClientAddrOK True inet a (Some (comma_join ps))) = (\<lambda>a. \<exists>p \<in> set ps. inet p = a)"
    by (rule ext) (simp add: ClientAddrOK_def assms(3) addr_loop_join [OF assms(1,2)])
  let ?s = "\<lparr>ac_socket = - 1, ac_sa = PeerOther, ac_errno = e, ac_calls = 0, ac_looks = 0, ac_closed = []\<rparr>"
  show ?thesis
    using accept_run [of ?s n acc keep fl "\<lambda>a. \<exists>p \<in> set ps. inet p = a" l] assms(4,5)
    unfolding OS_Accept_def ok by (simp add: refused_def)
qed

theorem os_accept_first_client_witness:
  "\<exists>s. OS_Accept (\<lambda>k. if k = 0 then (- 1, EINTR, PeerOther) else if k = 1 then (7, 0, PeerInet 9) else (8, 0, PeerInet 5))
       (\<lambda>_. False) (\<lambda>_. True) True (\<lambda>p. if p = ''10.0.0.1'' then 5 else 6) 0 False
       (Some (comma_join [''10.0.0.1'', ''10.0.0.2''])) 0 = Some (8, s) \<and> ac_closed s = [7]"
proof -
  let ?acc = "\<lambda>k :: nat. if k = 0 then (- 1, EINTR, PeerOther) else if k = 1 then (7, 0, PeerInet 9) else (8 :: int, 0, PeerInet (5 :: u32))"
  let ?inet = "\<lambda>p. if p = ''10.0.0.1'' then 5 else (6 :: u32)"
  have p: "\<forall>i < 2. passed_over ?acc (\<lambda>_. True) False (\<lambda>a. \<exists>p \<in> set [''10.0.0.1'', ''10.0.0.2'']. ?inet p = a) i"
    by (simp add: passed_over_def less_2_cases_iff)
  have a: "acceptable ?acc (\<lambda>_. True) (\<lambda>a. \<exists>p \<in> set [''10.0.0.1'', ''10.0.0.2'']. ?inet p = a) 2"
    by (simp add: acceptable_def)
  show ?thesis
    using os_accept_first_client [OF _ _ _ p a, of 0 0] by (auto simp: upt_rec [of 0 2] upt_rec [of "Suc 0" 2])
qed

text \<open>
  C24: A shutdown that is asked for while \<^verbatim>\<open>OS_Accept\<close> refuses a client is not obeyed: the refused
  descriptor is still in the variable the loop tests, so it is closed again and again and
  \<^verbatim>\<open>OS_Accept\<close> never returns, whatever happens later.
\<close>

theorem os_accept_ignores_shutdown:
  assumes "acc 0 = (r, e', PeerInet a)" "0 \<le> r" "\<not> ClientAddrOK mem inet a addrs" "\<not> sig 0" "\<forall>n \<ge> 1. sig n"
  shows "OS_Accept acc sig keep mem inet l fl addrs e = None"
proof -
  let ?ok = "\<lambda>a. ClientAddrOK mem inet a addrs"
  let ?s = "\<lparr>ac_socket = - 1, ac_sa = PeerOther, ac_errno = e, ac_calls = 0, ac_looks = 0, ac_closed = []\<rparr>"
  let ?s1 = "call_accept acc (look ?s)"
  have s1: "ac_socket ?s1 = r" "ac_sa ?s1 = PeerInet a" "ac_looks ?s1 = 1"
    using assms(1,2) by (simp_all add: call_accept_def look_def)
  have t: "try_accept acc sig fl ?s = Some ?s1"
    by (subst try_accept.simps) (use assms(2,4) s1 in \<open>simp add: Let_def\<close>)
  have "accept_client acc sig fl ?ok ?s = accept_client acc sig fl ?ok (close_client ?s1)"
    by (subst accept_client.simps) (use t s1 assms(2,3) in simp)
  also have "\<dots> = None"
    by (rule stale_spins) (use s1 assms in \<open>auto simp: stale_def close_client_def\<close>)
  finally show ?thesis
    unfolding OS_Accept_def by (subst accept_lock_unfold) simp
qed

theorem os_accept_ignores_shutdown_witness:
  "OS_Accept (\<lambda>k. if k = 0 then (7, 0, PeerInet 9) else (- 1, EINTR, PeerOther)) (\<lambda>n. 1 \<le> n) (\<lambda>_. True) True
     (\<lambda>p. if p = ''10.0.0.1'' then 5 else 6) 0 False (Some ''10.0.0.1'') 0 = None"
proof -
  have "\<not> ClientAddrOK True (\<lambda>p. if p = ''10.0.0.1'' then 5 else 6) 9 (Some ''10.0.0.1'')"
    by (simp add: ClientAddrOK_def addr_loop.simps)
  then show ?thesis
    by (intro os_accept_ignores_shutdown [where r = 7 and e' = 0 and a = 9]) simp_all
qed

end
