(* ===== verification/Libco_Link.thy ===== *)
theory Libco_Link
  imports FCGI_Prelude
begin

text \<open>
  The doubly linked lists of \<^verbatim>\<open>src/cocgi/cocgi_lib/libco/co_routine.cpp\<close>: \<^verbatim>\<open>RemoveFromLink\<close>, \<^verbatim>\<open>AddTail\<close>,
  \<^verbatim>\<open>PopHead\<close> and \<^verbatim>\<open>Join\<close>, which the time-outs, the active items and the waiting coroutines share.

  The store maps the addresses of nodes and of lists to their pointers; a null pointer is \<open>None\<close>. An
  operation that dereferences a null pointer, fails its assertion or does not end returns \<open>None\<close>.
  \<open>links_ok\<close> relates a store to the lists of nodes it represents; every operation refines an operation
  on lists.
\<close>

section \<open>Operations\<close>

record link_store =
  ls_prev :: "nat \<Rightarrow> nat option"
  ls_next :: "nat \<Rightarrow> nat option"
  ls_link :: "nat \<Rightarrow> nat option"
  ls_head :: "nat \<Rightarrow> nat option"
  ls_tail :: "nat \<Rightarrow> nat option"

definition set_prev :: "nat \<Rightarrow> nat option \<Rightarrow> link_store \<Rightarrow> link_store" where
  "set_prev x v s = s\<lparr>ls_prev := (ls_prev s)(x := v)\<rparr>"

definition set_next :: "nat \<Rightarrow> nat option \<Rightarrow> link_store \<Rightarrow> link_store" where
  "set_next x v s = s\<lparr>ls_next := (ls_next s)(x := v)\<rparr>"

definition set_link :: "nat \<Rightarrow> nat option \<Rightarrow> link_store \<Rightarrow> link_store" where
  "set_link x v s = s\<lparr>ls_link := (ls_link s)(x := v)\<rparr>"

definition set_head :: "nat \<Rightarrow> nat option \<Rightarrow> link_store \<Rightarrow> link_store" where
  "set_head l v s = s\<lparr>ls_head := (ls_head s)(l := v)\<rparr>"

definition set_tail :: "nat \<Rightarrow> nat option \<Rightarrow> link_store \<Rightarrow> link_store" where
  "set_tail l v s = s\<lparr>ls_tail := (ls_tail s)(l := v)\<rparr>"

lemmas set_defs = set_prev_def set_next_def set_link_def set_head_def set_tail_def

definition remove_front :: "nat \<Rightarrow> nat \<Rightarrow> link_store \<Rightarrow> link_store" where
  "remove_front ap lst s =
     (if Some ap = ls_head s lst then
        let s1 = set_head lst (ls_next s ap) s
        in case ls_head s1 lst of Some h \<Rightarrow> set_prev h None s1 | None \<Rightarrow> s1
      else case ls_prev s ap of Some p \<Rightarrow> set_next p (ls_next s ap) s | None \<Rightarrow> s)"

definition remove_back :: "nat \<Rightarrow> nat \<Rightarrow> link_store \<Rightarrow> link_store option" where
  "remove_back ap lst s =
     (if Some ap = ls_tail s lst then
        let s1 = set_tail lst (ls_prev s ap) s
        in Some (case ls_tail s1 lst of Some t \<Rightarrow> set_next t None s1 | None \<Rightarrow> s1)
      else case ls_next s ap of Some n \<Rightarrow> Some (set_prev n (ls_prev s ap) s) | None \<Rightarrow> None)"

definition RemoveFromLink :: "nat \<Rightarrow> link_store \<Rightarrow> link_store option" where
  "RemoveFromLink ap s =
     (case ls_link s ap of
        None \<Rightarrow> Some s
      | Some lst \<Rightarrow> do {
          assert_opt (ls_head s lst \<noteq> None \<and> ls_tail s lst \<noteq> None);
          s2 \<leftarrow> remove_back ap lst (remove_front ap lst s);
          Some (set_link ap None (set_prev ap None (set_next ap None s2)))
        })"

definition AddTail :: "nat \<Rightarrow> nat \<Rightarrow> link_store \<Rightarrow> link_store" where
  "AddTail apLink ap s =
     (if ls_link s ap \<noteq> None then s
      else
        let s1 = (case ls_tail s apLink of
                    Some t \<Rightarrow> set_tail apLink (Some ap) (set_prev ap (Some t) (set_next ap None (set_next t (Some ap) s)))
                  | None \<Rightarrow> set_next ap None (set_prev ap None (set_head apLink (Some ap) (set_tail apLink (Some ap) s))))
        in set_link ap (Some apLink) s1)"

definition PopHead :: "nat \<Rightarrow> link_store \<Rightarrow> link_store" where
  "PopHead apLink s =
     (case ls_head s apLink of
        None \<Rightarrow> s
      | Some lp \<Rightarrow>
          let s1 = (if ls_head s apLink = ls_tail s apLink then set_head apLink None (set_tail apLink None s)
                    else set_head apLink (ls_next s lp) s);
              s2 = set_link lp None (set_prev lp None (set_next lp None s1))
          in case ls_head s2 apLink of Some h \<Rightarrow> set_prev h None s2 | None \<Rightarrow> s2)"

partial_function (option) relink :: "nat \<Rightarrow> nat option \<Rightarrow> link_store \<Rightarrow> link_store option" where
  "relink apLink lp s =
     (case lp of
        None \<Rightarrow> Some s
      | Some x \<Rightarrow> relink apLink (ls_next s x) (set_link x (Some apLink) s))"

definition Join :: "nat \<Rightarrow> nat \<Rightarrow> link_store \<Rightarrow> link_store option" where
  "Join apLink apOther s =
     (case ls_head s apOther of
        None \<Rightarrow> Some s
      | Some lp \<Rightarrow> do {
          s1 \<leftarrow> relink apLink (Some lp) s;
          let s2 = (case ls_tail s1 apLink of
                      Some t \<Rightarrow> set_tail apLink (ls_tail s1 apOther) (set_prev lp (Some t) (set_next t (Some lp) s1))
                    | None \<Rightarrow> set_tail apLink (ls_tail s1 apOther) (set_head apLink (ls_head s1 apOther) s1));
          Some (set_head apOther None (set_tail apOther None s2))
        })"

section \<open>The lists a store represents\<close>

definition front :: "nat list \<Rightarrow> nat option \<Rightarrow> nat option" where
  "front xs n = (if xs = [] then n else Some (hd xs))"

fun seg :: "link_store \<Rightarrow> nat option \<Rightarrow> nat list \<Rightarrow> nat option \<Rightarrow> bool" where
  "seg s p [] n \<longleftrightarrow> True"
| "seg s p (x # xs) n \<longleftrightarrow> ls_prev s x = p \<and> ls_next s x = front xs n \<and> seg s (Some x) xs n"

definition rear :: "nat option \<Rightarrow> nat list \<Rightarrow> nat option" where
  "rear p xs = (if xs = [] then p else Some (last xs))"

definition links_ok :: "link_store \<Rightarrow> (nat \<Rightarrow> nat list) \<Rightarrow> bool" where
  "links_ok s L \<longleftrightarrow>
     (\<forall>l. ls_head s l = front (L l) None \<and> ls_tail s l = rear None (L l) \<and> seg s None (L l) None \<and> distinct (L l)) \<and>
     (\<forall>x l. ls_link s x = Some l \<longleftrightarrow> x \<in> set (L l))"

lemma front_simps [simp]: "front [] n = n" "front (x # xs) n = Some x" "front (xs @ ys) n = front xs (front ys n)"
  by (auto simp: front_def)

lemma rear_simps [simp]: "rear p [] = p" "rear p (xs @ [x]) = Some x" "rear p (xs @ ys) = rear (rear p xs) ys"
  by (auto simp: rear_def)

lemma rear_Cons [simp]: "rear p (x # xs) = rear (Some x) xs"
  by (auto simp: rear_def)

lemma seg_append: "seg s p (xs @ ys) n \<longleftrightarrow> seg s p xs (front ys n) \<and> seg s (rear p xs) ys n"
  by (induction xs arbitrary: p) (auto simp: front_def)

lemma seg_cong:
  "(\<And>y. y \<in> set xs \<Longrightarrow> ls_prev s' y = ls_prev s y \<and> ls_next s' y = ls_next s y) \<Longrightarrow> seg s' p xs n = seg s p xs n"
  by (induction xs arbitrary: p) (auto split: list.splits)

lemma seg_last: "seg s p (xs @ [x]) n \<longleftrightarrow> seg s p xs (Some x) \<and> ls_prev s x = rear p xs \<and> ls_next s x = n"
  by (simp add: seg_append)

lemma last_notin_butlast: "distinct xs \<Longrightarrow> xs \<noteq> [] \<Longrightarrow> last xs \<notin> set (butlast xs)"
  by (cases xs rule: rev_cases) auto

text \<open>The end of a segment points to what follows; a new follower or predecessor changes only that.\<close>

lemma seg_new_next:
  assumes "seg s p xs n" "distinct xs" "xs \<noteq> []" "ls_next s' (last xs) = m" "\<And>y. y \<in> set (butlast xs) \<Longrightarrow> ls_next s' y = ls_next s y"
    "\<And>y. y \<in> set xs \<Longrightarrow> ls_prev s' y = ls_prev s y"
  shows "seg s' p xs m"
proof -
  obtain ys x where xs: "xs = ys @ [x]" using assms(3) by (cases xs rule: rev_cases) auto
  have "seg s' p ys (Some x) = seg s p ys (Some x)"
    using assms(5,6) by (intro seg_cong) (auto simp: xs)
  with assms show ?thesis by (simp add: xs seg_last)
qed

lemma seg_new_prev:
  assumes "seg s p (x # xs) n" "x \<notin> set xs" "ls_prev s' x = q" "ls_next s' x = ls_next s x"
    "\<And>y. y \<in> set xs \<Longrightarrow> ls_prev s' y = ls_prev s y \<and> ls_next s' y = ls_next s y"
  shows "seg s' q (x # xs) n"
  using assms seg_cong [of xs s' s "Some x" n] by (simp)

lemma links_okD:
  assumes "links_ok s L"
  shows "ls_head s l = front (L l) None" "ls_tail s l = rear None (L l)" "seg s None (L l) None" "distinct (L l)"
    "ls_link s x = Some l \<longleftrightarrow> x \<in> set (L l)"
  using assms by (auto simp: links_ok_def)

lemma links_disjoint: "links_ok s L \<Longrightarrow> x \<in> set (L l) \<Longrightarrow> x \<in> set (L k) \<Longrightarrow> l = k"
  unfolding links_ok_def by (metis option.inject)

lemma links_free: "links_ok s L \<Longrightarrow> ls_link s x = None \<longleftrightarrow> (\<forall>l. x \<notin> set (L l))"
  unfolding links_ok_def by (metis not_None_eq option.distinct(1))

text \<open>A change of one list: what has to be shown for it, the other lists being untouched.\<close>

lemma links_ok_upd:
  assumes "links_ok s L" "ls_head s' l = front xs None" "ls_tail s' l = rear None xs" "seg s' None xs None" "distinct xs"
    "\<And>k. k \<noteq> l \<Longrightarrow> ls_head s' k = ls_head s k \<and> ls_tail s' k = ls_tail s k"
    "\<And>k y. k \<noteq> l \<Longrightarrow> y \<in> set (L k) \<Longrightarrow> ls_prev s' y = ls_prev s y \<and> ls_next s' y = ls_next s y"
    "\<And>y k. ls_link s' y = Some k \<longleftrightarrow> y \<in> set ((L(l := xs)) k)"
  shows "links_ok s' (L(l := xs))"
  unfolding links_ok_def
proof (intro conjI allI)
  fix k
  show "ls_head s' k = front ((L(l := xs)) k) None" "ls_tail s' k = rear None ((L(l := xs)) k)" "distinct ((L(l := xs)) k)"
    using assms by (cases "k = l"; simp add: links_okD)+
  show "seg s' None ((L(l := xs)) k) None"
  proof (cases "k = l")
    case False
    then have "seg s' None (L k) None = seg s None (L k) None" using assms(7) by (intro seg_cong) blast
    with False links_okD(3) [OF assms(1)] show ?thesis by simp
  qed (use assms(4) in simp)
qed (rule assms(8))

lemma AddTail_ok:
  assumes "links_ok s L" "ls_link s x = None"
  shows "links_ok (AddTail l x s) (L(l := L l @ [x]))"
proof -
  have fr: "\<And>k. x \<notin> set (L k)" using links_free [OF assms(1)] assms(2) by blast
  note d = links_okD [OF assms(1)]
  show ?thesis
  proof (cases "L l = []")
    case True
    then have t: "ls_tail s l = None" using d(2) [of l] by simp
    show ?thesis
      by (rule links_ok_upd [OF assms(1)])
        (use assms(2) t True fr d(5) in \<open>auto simp: AddTail_def set_defs Let_def\<close>)
  next
    case False
    then have t: "ls_tail s l = Some (last (L l))" using d(2) [of l] by (simp add: rear_def)
    have ne: "last (L l) \<noteq> x" using fr [of l] last_in_set [OF False] by auto
    have seg: "seg (AddTail l x s) None (L l) (Some x)"
    proof (rule seg_new_next [OF d(3) [of l] d(4) False])
      fix y assume "y \<in> set (butlast (L l))"
      moreover have "last (L l) \<notin> set (butlast (L l))" by (rule last_notin_butlast [OF d(4) False])
      ultimately show "ls_next (AddTail l x s) y = ls_next s y"
        using fr [of l] in_set_butlastD [of y "L l"] assms(2) t by (auto simp: AddTail_def set_defs Let_def)
    qed (use fr [of l] assms(2) t ne in \<open>auto simp: AddTail_def set_defs Let_def\<close>)
    have x: "ls_prev (AddTail l x s) x = Some (last (L l))" "ls_next (AddTail l x s) x = None"
      using assms(2) t ne by (auto simp: AddTail_def set_defs Let_def)
    have other: "ls_prev (AddTail l x s) y = ls_prev s y \<and> ls_next (AddTail l x s) y = ls_next s y"
      if "k \<noteq> l" "y \<in> set (L k)" for k y
    proof -
      have "y \<noteq> x" "y \<noteq> last (L l)" using that fr links_disjoint [OF assms(1)] last_in_set [OF False] by blast+
      then show ?thesis using assms(2) t by (auto simp: AddTail_def set_defs Let_def)
    qed
    show ?thesis
      by (rule links_ok_upd [OF assms(1)])
        (use seg x other False assms(2) t fr d(1,4,5) in \<open>auto simp: seg_last rear_def AddTail_def set_defs Let_def front_def\<close>)
  qed
qed

lemma AddTail_skip: "ls_link s x \<noteq> None \<Longrightarrow> AddTail l x s = s"
  by (simp add: AddTail_def)

text \<open>Removing a node joins its neighbours.\<close>

lemma RemoveFromLink_eq:
  assumes "links_ok s L" "L l = as @ x # bs"
  shows "RemoveFromLink x s = Some (s\<lparr>
     ls_head := (ls_head s)(l := front (as @ bs) None),
     ls_tail := (ls_tail s)(l := rear None (as @ bs)),
     ls_next := (if as = [] then ls_next s else (ls_next s)(last as := front bs None))(x := None),
     ls_prev := (if bs = [] then ls_prev s else (ls_prev s)(hd bs := rear None as))(x := None),
     ls_link := (ls_link s)(x := None)\<rparr>)"
proof -
  note d = links_okD [OF assms(1), of l, unfolded assms(2)]
  have lk: "ls_link s x = Some l" using links_okD(5) [OF assms(1), of x l] assms(2) by simp
  have x: "ls_prev s x = rear None as" "ls_next s x = front bs None"
    using d(3) by (simp_all add: seg_append)
  have nx: "x \<notin> set as" "x \<notin> set bs" using d(4) by auto
  show ?thesis
  proof (cases as rule: rev_cases)
    case Nil
    show ?thesis
    proof (cases bs)
      case Nil
      with \<open>as = []\<close> lk x d(1,2) show ?thesis
        by (simp add: RemoveFromLink_def remove_front_def remove_back_def Let_def set_defs)
    next
      case (Cons b cs)
      have t: "ls_tail s l = rear (Some b) cs" "rear (Some b) cs \<noteq> Some x" "rear (Some b) cs \<noteq> None"
        using d(2) nx Cons \<open>as = []\<close> by (auto simp: rear_def split: if_splits)
      from t(1) have "(ls_tail s)(l := rear (Some b) cs) = ls_tail s" by (simp add: fun_upd_idem)
      with Cons \<open>as = []\<close> lk x d(1) nx t show ?thesis
        by (simp add: RemoveFromLink_def remove_front_def remove_back_def Let_def set_defs)
    qed
  next
    case (snoc ys y)
    then have h: "ls_head s l = front ys (Some y)" "front ys (Some y) \<noteq> Some x" "front ys (Some y) \<noteq> None"
      using d(1) nx by (auto simp: front_def split: if_splits)
    then have hu: "(ls_head s)(l := front ys (Some y)) = ls_head s" by (simp add: fun_upd_idem)
    show ?thesis
    proof (cases bs)
      case Nil
      with snoc lk x d(2) nx h hu show ?thesis
        by (simp add: RemoveFromLink_def remove_front_def remove_back_def Let_def set_defs)
    next
      case (Cons b cs)
      have t: "ls_tail s l = rear (Some b) cs" "rear (Some b) cs \<noteq> Some x" "rear (Some b) cs \<noteq> None"
        using d(2) nx Cons by (auto simp: rear_def split: if_splits)
      from t(1) have "(ls_tail s)(l := rear (Some b) cs) = ls_tail s" by (simp add: fun_upd_idem)
      with snoc Cons lk x nx h hu t show ?thesis
        by (simp add: RemoveFromLink_def remove_front_def remove_back_def Let_def set_defs)
    qed
  qed
qed

lemma RemoveFromLink_ok:
  assumes "links_ok s L" "x \<in> set (L l)"
  shows "\<exists>s'. RemoveFromLink x s = Some s' \<and> links_ok s' (L(l := remove1 x (L l)))"
proof -
  obtain as bs where L: "L l = as @ x # bs" using split_list [OF assms(2)] by blast
  note d = links_okD [OF assms(1), of l, unfolded L]
  have nx: "x \<notin> set as" "x \<notin> set bs" "distinct (as @ bs)" "set as \<inter> set bs = {}" using d(4) by auto
  have r: "remove1 x (L l) = as @ bs" using nx L by (simp add: remove1_append)
  let ?s = "s\<lparr>
     ls_head := (ls_head s)(l := front (as @ bs) None),
     ls_tail := (ls_tail s)(l := rear None (as @ bs)),
     ls_next := (if as = [] then ls_next s else (ls_next s)(last as := front bs None))(x := None),
     ls_prev := (if bs = [] then ls_prev s else (ls_prev s)(hd bs := rear None as))(x := None),
     ls_link := (ls_link s)(x := None)\<rparr>"
  have sg: "seg s None as (Some x)" "seg s (Some x) bs None" using d(3) by (simp_all add: seg_append)
  have la: "as \<noteq> [] \<Longrightarrow> y \<noteq> last as" if "y \<in> set bs" for y
    using that nx(4) last_in_set [of as] by blast
  have s1: "seg ?s None as (front bs None)"
  proof (cases "as = []")
    case False
    then have "last as \<notin> set (butlast as)" using nx(3) by (simp add: last_notin_butlast)
    have "last as \<noteq> x" using False nx(1) last_in_set by metis
    show ?thesis
    proof (rule seg_new_next [OF sg(1) _ False])
      show "distinct as" using nx(3) by simp
      show "ls_next ?s (last as) = front bs None" using False \<open>last as \<noteq> x\<close> by simp
      show "ls_next ?s y = ls_next s y" if "y \<in> set (butlast as)" for y
        using that \<open>last as \<notin> _\<close> nx(1) in_set_butlastD [OF that] False by auto
      show "ls_prev ?s y = ls_prev s y" if "y \<in> set as" for y
        using that nx by (cases bs) auto
    qed
  qed simp
  have s2: "seg ?s (rear None as) bs None"
  proof (cases bs)
    case (Cons b cs)
    then have "b \<noteq> x" "b \<notin> set cs" using nx by auto
    have "seg ?s (rear None as) (b # cs) None"
    proof (rule seg_new_prev [OF sg(2) [unfolded Cons] \<open>b \<notin> set cs\<close>])
      show "ls_prev ?s b = rear None as" using Cons \<open>b \<noteq> x\<close> by simp
      show "ls_next ?s b = ls_next s b" using Cons \<open>b \<noteq> x\<close> la [of b] by simp
      show "ls_prev ?s y = ls_prev s y \<and> ls_next ?s y = ls_next s y" if "y \<in> set cs" for y
      proof -
        have "y \<noteq> x" "y \<noteq> b" "as \<noteq> [] \<Longrightarrow> y \<noteq> last as"
          using that nx(2) \<open>b \<notin> set cs\<close> Cons la [of y] by auto
        then show ?thesis using Cons by simp
      qed
    qed
    then show ?thesis by (simp only: Cons)
  qed simp
  have other: "ls_prev ?s y = ls_prev s y \<and> ls_next ?s y = ls_next s y" if "k \<noteq> l" "y \<in> set (L k)" for k y
  proof -
    have "y \<notin> set (L l)" using that links_disjoint [OF assms(1)] by blast
    then have "y \<noteq> x" "y \<notin> set as" "y \<notin> set bs" by (auto simp: L)
    moreover have "as \<noteq> [] \<Longrightarrow> last as \<in> set as" "bs \<noteq> [] \<Longrightarrow> hd bs \<in> set bs" by simp_all
    ultimately have "as \<noteq> [] \<Longrightarrow> y \<noteq> last as" "bs \<noteq> [] \<Longrightarrow> y \<noteq> hd bs" "y \<noteq> x" by blast+
    then show ?thesis by simp
  qed
  have "links_ok ?s (L(l := as @ bs))"
  proof (rule links_ok_upd [OF assms(1)])
    fix y k
    show "ls_link ?s y = Some k \<longleftrightarrow> y \<in> set ((L(l := as @ bs)) k)"
    proof (cases "y = x")
      case True
      moreover have "x \<notin> set (L k)" if "k \<noteq> l" using that assms(2) links_disjoint [OF assms(1)] by blast
      ultimately show ?thesis using nx by (cases "k = l") simp_all
    next
      case False
      then show ?thesis using links_okD(5) [OF assms(1), of y k] L by (cases "k = l") simp_all
    qed
  next
    show "seg ?s None (as @ bs) None" using s1 s2 by (simp only: seg_append simp_thms)
  next
    fix k y assume "k \<noteq> l" "y \<in> set (L k)"
    then show "ls_prev ?s y = ls_prev s y \<and> ls_next ?s y = ls_next s y" by (rule other)
  qed (use nx(3) in simp_all)
  with RemoveFromLink_eq [OF assms(1) L] r show ?thesis by simp
qed

lemma RemoveFromLink_free: "ls_link s x = None \<Longrightarrow> RemoveFromLink x s = Some s"
  by (simp add: RemoveFromLink_def)

lemma PopHead_RemoveFromLink:
  assumes "links_ok s L" "L l = x # bs"
  shows "RemoveFromLink x s = Some (PopHead l s)"
proof -
  note d = links_okD [OF assms(1), of l, unfolded assms(2)]
  have x: "ls_prev s x = None" "ls_next s x = front bs None" "x \<notin> set bs" using d(3,4) by simp_all
  have "RemoveFromLink x s = Some (s\<lparr>
     ls_head := (ls_head s)(l := front bs None),
     ls_tail := (ls_tail s)(l := rear None bs),
     ls_next := (ls_next s)(x := None),
     ls_prev := (if bs = [] then ls_prev s else (ls_prev s)(hd bs := None))(x := None),
     ls_link := (ls_link s)(x := None)\<rparr>)"
    using RemoveFromLink_eq [OF assms(1), of l "[]" x bs] assms(2) by simp
  also have "\<dots> = Some (PopHead l s)"
  proof (cases bs)
    case Nil
    then show ?thesis using d(1,2) x by (simp add: PopHead_def Let_def set_defs)
  next
    case (Cons b cs)
    then have t: "ls_tail s l = rear (Some b) cs" "Some x \<noteq> rear (Some b) cs" "b \<noteq> x"
      using d(2) x(3) by (auto simp: rear_def split: if_splits)
    from t(1) have "(ls_tail s)(l := rear (Some b) cs) = ls_tail s" by (simp add: fun_upd_idem)
    with Cons d(1) x t show ?thesis by (simp add: PopHead_def Let_def set_defs fun_upd_twist)
  qed
  finally show ?thesis .
qed

lemma PopHead_ok:
  assumes "links_ok s L"
  shows "links_ok (PopHead l s) (L(l := tl (L l)))"
proof (cases "L l")
  case Nil
  then have "PopHead l s = s" using links_okD(1) [OF assms, of l] by (simp add: PopHead_def)
  moreover have "L(l := tl (L l)) = L" using Nil by (simp add: fun_upd_idem)
  ultimately show ?thesis using assms by simp
next
  case (Cons x bs)
  have "remove1 x (L l) = bs" by (simp add: Cons)
  with RemoveFromLink_ok [OF assms, of x l] PopHead_RemoveFromLink [OF assms Cons] Cons show ?thesis by simp
qed

definition links_to :: "nat \<Rightarrow> nat list \<Rightarrow> link_store \<Rightarrow> link_store" where
  "links_to a xs s = s\<lparr>ls_link := (\<lambda>x. if x \<in> set xs then Some a else ls_link s x)\<rparr>"

lemma relink_seg: "seg s p xs None \<Longrightarrow> relink a (front xs None) s = Some (links_to a xs s)"
proof (induction xs arbitrary: p s)
  case Nil
  then show ?case by (subst relink.simps) (simp add: links_to_def)
next
  case (Cons x xs)
  let ?s = "set_link x (Some a) s"
  have "seg ?s (Some x) xs None = seg s (Some x) xs None" by (rule seg_cong) (simp add: set_defs)
  with Cons.prems have "relink a (front xs None) ?s = Some (links_to a xs ?s)" by (intro Cons.IH) simp
  moreover have "links_to a xs ?s = links_to a (x # xs) s"
    by (simp add: links_to_def set_defs) (rule arg_cong [of _ _ "\<lambda>f. s\<lparr>ls_link := f\<rparr>"], auto)
  ultimately show ?case using Cons.prems by (subst relink.simps) simp
qed

lemma Join_nothing: "links_ok s L \<Longrightarrow> L b = [] \<Longrightarrow> Join a b s = Some s"
  by (simp add: Join_def links_okD(1))

lemma Join_eq:
  assumes "links_ok s L" "a \<noteq> b" "L b \<noteq> []"
  shows "Join a b s = Some (s\<lparr>
     ls_head := (ls_head s)(a := front (L a @ L b) None, b := None),
     ls_tail := (ls_tail s)(a := rear None (L a @ L b), b := None),
     ls_next := (if L a = [] then ls_next s else (ls_next s)(last (L a) := front (L b) None)),
     ls_prev := (if L a = [] then ls_prev s else (ls_prev s)(hd (L b) := rear None (L a))),
     ls_link := ls_link (links_to a (L b) s)\<rparr>)"
proof -
  note d = links_okD [OF assms(1)]
  have r: "relink a (ls_head s b) s = Some (links_to a (L b) s)"
    using relink_seg [OF d(3) [of b]] d(1) [of b] by simp
  have hb: "ls_head s b = Some (hd (L b))" "ls_tail s b = Some (last (L b))"
    using assms(3) d(1,2) [of b] by (simp_all add: front_def rear_def)
  have ab: "rear (rear None (L a)) (L b) = Some (last (L b))" "front (L a) (front (L b) None) = front (L a) (Some (hd (L b)))"
    "front (L b) None = Some (hd (L b))"
    using assms(3) by (simp_all add: rear_def front_def)
  show ?thesis
  proof (cases "L a = []")
    case True
    then have "ls_tail s a = None" using d(2) [of a] by simp
    with True r hb assms(2) ab show ?thesis
      by (simp add: Join_def links_to_def set_defs Let_def)
  next
    case False
    then have "ls_tail s a = Some (last (L a))" "front (L a) (Some (hd (L b))) = ls_head s a" "rear None (L a) = Some (last (L a))"
      using d(1,2) [of a] by (simp_all add: rear_def front_def)
    moreover have "(ls_head s)(a := ls_head s a) = ls_head s" by simp
    ultimately show ?thesis
      using False r hb assms(2) ab by (simp add: Join_def links_to_def set_defs Let_def)
  qed
qed

lemma Join_seg:
  assumes "links_ok s L" "a \<noteq> b" "L a \<noteq> []" "L b \<noteq> []"
    "ls_next s' = (ls_next s)(last (L a) := front (L b) None)" "ls_prev s' = (ls_prev s)(hd (L b) := rear None (L a))"
  shows "seg s' None (L a @ L b) None" "distinct (L a @ L b)"
proof -
  note d = links_okD [OF assms(1)]
  have disj: "set (L a) \<inter> set (L b) = {}" using links_disjoint [OF assms(1)] assms(2) by blast
  then show "distinct (L a @ L b)" using d(4) by simp
  obtain y ys where b: "L b = y # ys" using assms(4) by (cases "L b") auto
  have la: "last (L a) \<in> set (L a)" using assms(3) by simp
  have "seg s' None (L a) (front (L b) None)"
  proof (rule seg_new_next [OF d(3) [of a] d(4) assms(3)])
    show "ls_next s' (last (L a)) = front (L b) None" by (simp add: assms(5))
    show "ls_next s' z = ls_next s z" if "z \<in> set (butlast (L a))" for z
      using that last_notin_butlast [OF d(4) assms(3)] by (auto simp: assms(5))
    show "ls_prev s' z = ls_prev s z" if "z \<in> set (L a)" for z
      using that disj b by (auto simp: assms(6))
  qed
  moreover have "seg s' (rear None (L a)) (y # ys) None"
  proof (rule seg_new_prev)
    show "seg s None (y # ys) None" using d(3) [of b] b by simp
    show "y \<notin> set ys" using d(4) [of b] b by simp
    show "ls_prev s' y = rear None (L a)" by (simp add: assms(6) b)
    show "ls_next s' y = ls_next s y" using la disj b by (auto simp: assms(5))
    show "ls_prev s' z = ls_prev s z \<and> ls_next s' z = ls_next s z" if "z \<in> set ys" for z
      using that la disj b d(4) [of b] by (auto simp: assms(5,6))
  qed
  ultimately show "seg s' None (L a @ L b) None" by (simp only: seg_append b simp_thms)
qed

lemma Join_ok:
  assumes "links_ok s L" "a \<noteq> b"
  shows "\<exists>s'. Join a b s = Some s' \<and> links_ok s' (L(a := L a @ L b, b := []))"
proof (cases "L b = []")
  case True
  then have "L(a := L a @ L b, b := []) = L" by (auto simp: fun_eq_iff)
  with Join_nothing [OF assms(1) True] assms(1) show ?thesis by simp
next
  case False
  note d = links_okD [OF assms(1)]
  obtain s' where j: "Join a b s = Some s'"
    and f: "ls_head s' = (ls_head s)(a := front (L a @ L b) None, b := None)"
     "ls_tail s' = (ls_tail s)(a := rear None (L a @ L b), b := None)"
     "ls_next s' = (if L a = [] then ls_next s else (ls_next s)(last (L a) := front (L b) None))"
     "ls_prev s' = (if L a = [] then ls_prev s else (ls_prev s)(hd (L b) := rear None (L a)))"
     "ls_link s' = ls_link (links_to a (L b) s)"
    by (rule that [OF Join_eq [OF assms False]]) simp_all
  have disj: "set (L a) \<inter> set (L b) = {}" using links_disjoint [OF assms(1)] assms(2) by blast
  have sa: "seg s' None (L a @ L b) None \<and> distinct (L a @ L b)"
  proof (cases "L a = []")
    case True
    have "seg s' None (L b) None = seg s None (L b) None" by (rule seg_cong) (simp add: f True)
    with True d(3,4) [of b] show ?thesis by simp
  next
    case ne: False
    show ?thesis using Join_seg [OF assms ne False, of s'] f ne by simp
  qed
  have other: "seg s' None (L k) None" if k: "k \<noteq> a" "k \<noteq> b" for k
  proof -
    have "seg s' None (L k) None = seg s None (L k) None"
    proof (rule seg_cong)
      fix y assume y: "y \<in> set (L k)"
      have "y \<notin> set (L a)" "y \<notin> set (L b)" using y k links_disjoint [OF assms(1)] by blast+
      moreover have "hd (L b) \<in> set (L b)" "L a \<noteq> [] \<Longrightarrow> last (L a) \<in> set (L a)" using False by simp_all
      ultimately have "y \<noteq> hd (L b)" "L a \<noteq> [] \<Longrightarrow> y \<noteq> last (L a)" by blast+
      then show "ls_prev s' y = ls_prev s y \<and> ls_next s' y = ls_next s y" by (simp add: f)
    qed
    with d(3) [of k] show ?thesis by simp
  qed
  have "links_ok s' (L(a := L a @ L b, b := []))"
    unfolding links_ok_def
  proof (intro conjI allI)
    fix k
    show "ls_head s' k = front ((L(a := L a @ L b, b := [])) k) None" "ls_tail s' k = rear None ((L(a := L a @ L b, b := [])) k)"
      using d(1,2) [of k] assms(2) by (simp_all add: f)
    show "seg s' None ((L(a := L a @ L b, b := [])) k) None" "distinct ((L(a := L a @ L b, b := [])) k)"
      using sa other d(4) [of k] assms(2) by simp_all
  next
    fix x l
    show "ls_link s' x = Some l \<longleftrightarrow> x \<in> set ((L(a := L a @ L b, b := [])) l)"
    proof (cases "x \<in> set (L b)")
      case True
      have lk: "ls_link s' x = Some a" using True by (simp add: f(5) links_to_def)
      have "x \<notin> set (L l)" if "l \<noteq> b" using that True links_disjoint [OF assms(1)] by blast
      then show ?thesis unfolding lk using True assms(2) by auto
    next
      case False
      have lk: "ls_link s' x = ls_link s x" using False by (simp add: f(5) links_to_def)
      show ?thesis unfolding lk using d(5) [of x l] False assms(2) by auto
    qed
  qed
  with j show ?thesis by blast
qed

definition no_links :: link_store where
  "no_links = \<lparr>ls_prev = \<lambda>_. None, ls_next = \<lambda>_. None, ls_link = \<lambda>_. None, ls_head = \<lambda>_. None, ls_tail = \<lambda>_. None\<rparr>"

lemma no_links_ok: "links_ok no_links (\<lambda>_. [])"
  by (simp add: links_ok_def no_links_def)

section \<open>Properties\<close>

text \<open>
  C26: The pointer operations implement lists: \<^verbatim>\<open>AddTail\<close> appends a node that is in no list and leaves
  a node that is in one alone, \<^verbatim>\<open>RemoveFromLink\<close> removes a node from whatever list holds it,
  \<^verbatim>\<open>PopHead\<close> drops the first node, and \<^verbatim>\<open>Join\<close> moves all nodes of one list behind those of another.
  None of them touches another list, dereferences a null pointer or runs for ever.
\<close>

theorem libco_links_refine_lists:
  assumes "links_ok s L" "a \<noteq> b"
  shows "links_ok (AddTail a x s) (if \<exists>k. x \<in> set (L k) then L else L(a := L a @ [x])) \<and>
    (\<exists>s'. RemoveFromLink x s = Some s' \<and> links_ok s' (\<lambda>k. remove1 x (L k))) \<and>
    links_ok (PopHead a s) (L(a := tl (L a))) \<and>
    (\<exists>s'. Join a b s = Some s' \<and> links_ok s' (L(a := L a @ L b, b := [])))"
proof (intro conjI)
  show "links_ok (AddTail a x s) (if \<exists>k. x \<in> set (L k) then L else L(a := L a @ [x]))"
  proof (cases "ls_link s x")
    case None
    with links_free [OF assms(1)] AddTail_ok [OF assms(1) None] show ?thesis by simp
  next
    case (Some k)
    with links_okD(5) [OF assms(1)] AddTail_skip [of s x a] assms(1) show ?thesis by auto
  qed
  show "\<exists>s'. RemoveFromLink x s = Some s' \<and> links_ok s' (\<lambda>k. remove1 x (L k))"
  proof (cases "\<exists>k. x \<in> set (L k)")
    case True
    then obtain k where k: "x \<in> set (L k)" by blast
    have "L(k := remove1 x (L k)) = (\<lambda>k. remove1 x (L k))"
    proof (rule ext)
      fix j
      have "x \<notin> set (L j)" if "j \<noteq> k" using that links_disjoint [OF assms(1) k] by blast
      then show "(L(k := remove1 x (L k))) j = remove1 x (L j)" by (simp add: remove1_idem)
    qed
    with RemoveFromLink_ok [OF assms(1) k] show ?thesis by simp
  next
    case False
    then have "(\<lambda>k. remove1 x (L k)) = L" by (simp add: fun_eq_iff remove1_idem)
    moreover have "ls_link s x = None" using links_free [OF assms(1)] False by blast
    ultimately show ?thesis using RemoveFromLink_free assms(1) by simp
  qed
qed (use PopHead_ok [OF assms(1)] Join_ok [OF assms] in auto)

theorem libco_links_refine_lists_witness:
  "links_ok (AddTail 0 5 no_links) ((\<lambda>_. [])(0 := [5])) \<and>
   (\<exists>s'. Join 1 0 (AddTail 0 5 no_links) = Some s' \<and> links_ok s' ((\<lambda>_. [])(1 := [5])))"
proof -
  have 1: "links_ok (AddTail 0 5 no_links) ((\<lambda>_. [])(0 := [5]))"
    using libco_links_refine_lists [OF no_links_ok, of 0 1 5] by simp
  let ?L = "(\<lambda>_. [])(0 := [5]) :: nat \<Rightarrow> nat list"
  have "?L(1 := ?L 1 @ ?L 0, 0 := []) = ((\<lambda>_. [])(1 := [5]))"
    by (auto simp: fun_eq_iff)
  with 1 libco_links_refine_lists [OF 1, of 1 0 5] show ?thesis by auto
qed

end
