(* ===== verification/Libco_Timeout.thy ===== *)
theory Libco_Timeout
  imports Libco_Link
begin

text \<open>
  The time-outs and the event loop of \<^verbatim>\<open>src/cocgi/cocgi_lib/libco/co_routine.cpp\<close>: a wheel of one slot per
  millisecond, the list of active items and one round of \<^verbatim>\<open>co_eventloop\<close>.

  The lists of the wheel have the addresses \<open>0\<close> to \<open>iItemSize - 1\<close>; the active list and the list of
  expired items follow. Times are 64-bit words; \<^verbatim>\<open>llStartIdx\<close> is an integer, it would overflow after more
  milliseconds than a clock counts. What an item's procedure does is a parameter.
\<close>

section \<open>The wheel\<close>

record stCoEpoll_t =
  ce_iItemSize :: int
  ce_ullStart :: u64
  ce_llStartIdx :: int
  ce_links :: link_store
  ce_ullExpireTime :: "nat \<Rightarrow> u64"
  ce_bTimeout :: "nat \<Rightarrow> bool"
  ce_pfnPrepare :: "nat \<Rightarrow> bool"
  ce_pfnProcess :: "nat \<Rightarrow> bool"
  ce_pArg :: "nat \<Rightarrow> nat"
  ce_pPoll :: "nat \<Rightarrow> nat"
  ce_revents :: "nat \<Rightarrow> u16"
  ce_iRaiseCnt :: "nat \<Rightarrow> int"
  ce_iAllEventDetach :: "nat \<Rightarrow> bool"

definition active_list :: "stCoEpoll_t \<Rightarrow> nat" where
  "active_list t = nat (ce_iItemSize t)"

definition expired_list :: "stCoEpoll_t \<Rightarrow> nat" where
  "expired_list t = nat (ce_iItemSize t) + 1"

definition AllocTimeout :: "int \<Rightarrow> u64 \<Rightarrow> stCoEpoll_t" where
  "AllocTimeout iSize now =
     \<lparr>ce_iItemSize = iSize, ce_ullStart = now, ce_llStartIdx = 0, ce_links = no_links, ce_ullExpireTime = \<lambda>_. 0,
      ce_bTimeout = \<lambda>_. False, ce_pfnPrepare = \<lambda>_. False, ce_pfnProcess = \<lambda>_. False, ce_pArg = \<lambda>_. 0,
      ce_pPoll = \<lambda>_. 0, ce_revents = \<lambda>_. 0, ce_iRaiseCnt = \<lambda>_. 0, ce_iAllEventDetach = \<lambda>_. False\<rparr>"

definition AllocEpoll :: "u64 \<Rightarrow> stCoEpoll_t" where
  "AllocEpoll now = AllocTimeout (60 * 1000) now"

definition wheel_start :: "u64 \<Rightarrow> stCoEpoll_t \<Rightarrow> stCoEpoll_t" where
  "wheel_start allNow t = (if ce_ullStart t = 0 then t\<lparr>ce_ullStart := allNow, ce_llStartIdx := 0\<rparr> else t)"

text \<open>A failure returns the line of the source.\<close>

definition AddTimeout :: "nat \<Rightarrow> u64 \<Rightarrow> stCoEpoll_t \<Rightarrow> int \<times> stCoEpoll_t" where
  "AddTimeout apItem allNow t0 =
     (let t = wheel_start allNow t0 in
      if allNow < ce_ullStart t then (390, t)
      else if ce_ullExpireTime t apItem < allNow then (397, t)
      else
        let diff = ce_ullExpireTime t apItem - ce_ullStart t;
            diff1 = (if word_of_int (ce_iItemSize t) \<le> diff then word_of_int (ce_iItemSize t - 1) else diff);
            slot = unat ((word_of_int (ce_llStartIdx t) + diff1) mod word_of_int (ce_iItemSize t))
        in (0, t\<lparr>ce_links := AddTail slot apItem (ce_links t)\<rparr>))"

text \<open>The conversion of the difference to \<^verbatim>\<open>int\<close> keeps its low 32 bits.\<close>

definition elapsed :: "u64 \<Rightarrow> stCoEpoll_t \<Rightarrow> int" where
  "elapsed allNow t = sint (ucast (allNow - ce_ullStart t + 1) :: u32)"

text \<open>The remainder of C; a negative one is an access before the wheel.\<close>

definition c_rem :: "int \<Rightarrow> int \<Rightarrow> int" where
  "c_rem a b = (if a < 0 then - ((- a) mod b) else a mod b)"

primrec take_slots :: "nat \<Rightarrow> nat \<Rightarrow> int \<Rightarrow> nat \<Rightarrow> stCoEpoll_t \<Rightarrow> stCoEpoll_t option" where
  "take_slots 0 i idx apResult t = Some t"
| "take_slots (Suc n) i idx apResult t = do {
     let k = c_rem (idx + int i) (ce_iItemSize t);
     assert_opt (0 \<le> k);
     s \<leftarrow> Join apResult (nat k) (ce_links t);
     take_slots n (Suc i) idx apResult (t\<lparr>ce_links := s\<rparr>)
   }"

definition TakeAllTimeout :: "u64 \<Rightarrow> nat \<Rightarrow> stCoEpoll_t \<Rightarrow> stCoEpoll_t option" where
  "TakeAllTimeout allNow apResult t0 =
     (let t = wheel_start allNow t0 in
      if allNow < ce_ullStart t then Some t
      else
        let cnt0 = elapsed allNow t;
            cnt = (if ce_iItemSize t < cnt0 then ce_iItemSize t else cnt0)
        in if cnt < 0 then Some t
           else do {
             t1 \<leftarrow> take_slots (nat cnt) 0 (ce_llStartIdx t) apResult t;
             Some (t1\<lparr>ce_ullStart := allNow, ce_llStartIdx := ce_llStartIdx t1 + (cnt - 1)\<rparr>)
           })"

section \<open>Events\<close>

text \<open>The bits of \<^verbatim>\<open>poll\<close> and \<^verbatim>\<open>epoll\<close> on Linux.\<close>

definition POLLIN :: u16 where "POLLIN = 0x1"
definition POLLOUT :: u16 where "POLLOUT = 0x4"
definition POLLERR :: u16 where "POLLERR = 0x8"
definition POLLHUP :: u16 where "POLLHUP = 0x10"
definition POLLRDNORM :: u16 where "POLLRDNORM = 0x40"
definition POLLWRNORM :: u16 where "POLLWRNORM = 0x100"
definition EPOLLIN :: u32 where "EPOLLIN = 0x1"
definition EPOLLOUT :: u32 where "EPOLLOUT = 0x4"
definition EPOLLERR :: u32 where "EPOLLERR = 0x8"
definition EPOLLHUP :: u32 where "EPOLLHUP = 0x10"
definition EPOLLRDNORM :: u32 where "EPOLLRDNORM = 0x40"
definition EPOLLWRNORM :: u32 where "EPOLLWRNORM = 0x100"

definition PollEvent2Epoll :: "u16 \<Rightarrow> u32" where
  "PollEvent2Epoll events =
     (let e = 0;
          e = (if and events POLLIN \<noteq> 0 then or e EPOLLIN else e);
          e = (if and events POLLOUT \<noteq> 0 then or e EPOLLOUT else e);
          e = (if and events POLLHUP \<noteq> 0 then or e EPOLLHUP else e);
          e = (if and events POLLERR \<noteq> 0 then or e EPOLLERR else e);
          e = (if and events POLLRDNORM \<noteq> 0 then or e EPOLLRDNORM else e);
          e = (if and events POLLWRNORM \<noteq> 0 then or e EPOLLWRNORM else e)
      in e)"

definition EpollEvent2Poll :: "u32 \<Rightarrow> u16" where
  "EpollEvent2Poll events =
     (let e = 0;
          e = (if and events EPOLLIN \<noteq> 0 then or e POLLIN else e);
          e = (if and events EPOLLOUT \<noteq> 0 then or e POLLOUT else e);
          e = (if and events EPOLLHUP \<noteq> 0 then or e POLLHUP else e);
          e = (if and events EPOLLERR \<noteq> 0 then or e POLLERR else e);
          e = (if and events EPOLLRDNORM \<noteq> 0 then or e POLLRDNORM else e);
          e = (if and events EPOLLWRNORM \<noteq> 0 then or e POLLWRNORM else e)
      in e)"

definition OnPollPreparePfn :: "nat \<Rightarrow> u32 \<Rightarrow> stCoEpoll_t \<Rightarrow> stCoEpoll_t option" where
  "OnPollPreparePfn ap e t =
     (let pPoll = ce_pPoll t ap;
          t1 = t\<lparr>ce_revents := (ce_revents t)(ap := EpollEvent2Poll e),
                 ce_iRaiseCnt := (ce_iRaiseCnt t)(pPoll := ce_iRaiseCnt t pPoll + 1)\<rparr>
      in if ce_iAllEventDetach t1 pPoll then Some t1
         else do {
           s \<leftarrow> RemoveFromLink pPoll (ce_links t1);
           Some (t1\<lparr>ce_iAllEventDetach := (ce_iAllEventDetach t1)(pPoll := True),
                    ce_links := AddTail (active_list t) pPoll s\<rparr>)
         })"

text \<open>The events \<^verbatim>\<open>co_epoll_wait\<close> reported: the item and its event bits.\<close>

fun prepare_events :: "(nat \<times> u32) list \<Rightarrow> stCoEpoll_t \<Rightarrow> stCoEpoll_t option" where
  "prepare_events [] t = Some t"
| "prepare_events ((item, e) # evs) t = do {
     t1 \<leftarrow> (if ce_pfnPrepare t item then OnPollPreparePfn item e t
            else Some (t\<lparr>ce_links := AddTail (active_list t) item (ce_links t)\<rparr>));
     prepare_events evs t1
   }"

partial_function (option) raise_timeouts :: "nat option \<Rightarrow> stCoEpoll_t \<Rightarrow> stCoEpoll_t option" where
  "raise_timeouts lp t =
     (case lp of
        None \<Rightarrow> Some t
      | Some x \<Rightarrow> raise_timeouts (ls_next (ce_links t) x) (t\<lparr>ce_bTimeout := (ce_bTimeout t)(x := True)\<rparr>))"

text \<open>The loop over the active items; the result lists the items whose procedure was called.\<close>

type_synonym co_process = "nat \<Rightarrow> stCoEpoll_t \<Rightarrow> stCoEpoll_t option"

partial_function (option) process_active :: "co_process \<Rightarrow> u64 \<Rightarrow> nat list \<Rightarrow> stCoEpoll_t \<Rightarrow> (nat list \<times> stCoEpoll_t) option" where
  "process_active proc now seen t =
     (case ls_head (ce_links t) (active_list t) of
        None \<Rightarrow> Some (seen, t)
      | Some lp \<Rightarrow>
          let t1 = t\<lparr>ce_links := PopHead (active_list t) (ce_links t)\<rparr> in
          if ce_bTimeout t1 lp \<and> now < ce_ullExpireTime t1 lp \<and> fst (AddTimeout lp now t1) = 0
          then process_active proc now seen
                 ((snd (AddTimeout lp now t1))\<lparr>ce_bTimeout := (ce_bTimeout (snd (AddTimeout lp now t1)))(lp := False)\<rparr>)
          else
            let t2 = (if ce_bTimeout t1 lp \<and> now < ce_ullExpireTime t1 lp then snd (AddTimeout lp now t1) else t1) in
            if ce_pfnProcess t2 lp
            then Option.bind (proc lp t2) (\<lambda>t3. process_active proc now (seen @ [lp]) t3)
            else process_active proc now seen t2)"

definition clear_list :: "nat \<Rightarrow> stCoEpoll_t \<Rightarrow> stCoEpoll_t" where
  "clear_list l t = t\<lparr>ce_links := set_head l None (set_tail l None (ce_links t))\<rparr>"

text \<open>One round of the loop, between two calls of \<^verbatim>\<open>co_epoll_wait\<close>.\<close>

definition co_eventloop_round :: "co_process \<Rightarrow> (nat \<times> u32) list \<Rightarrow> u64 \<Rightarrow> stCoEpoll_t \<Rightarrow> (nat list \<times> stCoEpoll_t) option" where
  "co_eventloop_round proc evs now t = do {
     let t0 = clear_list (expired_list t) t;
     t1 \<leftarrow> prepare_events evs t0;
     t2 \<leftarrow> TakeAllTimeout now (expired_list t1) t1;
     t3 \<leftarrow> raise_timeouts (ls_head (ce_links t2) (expired_list t2)) t2;
     s \<leftarrow> Join (active_list t3) (expired_list t3) (ce_links t3);
     process_active proc now [] (t3\<lparr>ce_links := s\<rparr>)
   }"

section \<open>Well-formed wheels\<close>

abbreviation slots :: "stCoEpoll_t \<Rightarrow> nat" where
  "slots t \<equiv> nat (ce_iItemSize t)"

abbreviation slot_at :: "stCoEpoll_t \<Rightarrow> nat \<Rightarrow> nat" where
  "slot_at t d \<equiv> (nat (ce_llStartIdx t) + d) mod slots t"

text \<open>
  No item is kept beyond its time: the slot that comes up \<open>d\<close> milliseconds after the start of the wheel
  holds items that expire then or later. An item expires later than its slot comes up when its
  time-out is longer than the wheel. Clocks stay below \<open>2 ^ 62\<close> milliseconds.
\<close>

definition wheel_ok :: "stCoEpoll_t \<Rightarrow> (nat \<Rightarrow> nat list) \<Rightarrow> bool" where
  "wheel_ok t L \<longleftrightarrow> links_ok (ce_links t) L \<and> 0 < ce_iItemSize t \<and> ce_iItemSize t < 2 ^ 31 \<and>
     ce_ullStart t \<noteq> 0 \<and> unat (ce_ullStart t) < 2 ^ 62 \<and> 0 \<le> ce_llStartIdx t \<and> nat (ce_llStartIdx t) \<le> unat (ce_ullStart t) \<and>
     (\<forall>d < slots t. \<forall>x \<in> set (L (slot_at t d)). unat (ce_ullStart t) + d \<le> unat (ce_ullExpireTime t x))"

lemma wheel_okD:
  assumes "wheel_ok t L"
  shows "links_ok (ce_links t) L" "0 < ce_iItemSize t" "ce_iItemSize t < 2 ^ 31" "ce_ullStart t \<noteq> 0"
    "unat (ce_ullStart t) < 2 ^ 62" "0 \<le> ce_llStartIdx t" "nat (ce_llStartIdx t) \<le> unat (ce_ullStart t)"
    "d < slots t \<Longrightarrow> x \<in> set (L (slot_at t d)) \<Longrightarrow> unat (ce_ullStart t) + d \<le> unat (ce_ullExpireTime t x)"
  using assms by (auto simp: wheel_ok_def)

lemma wheel_start_id: "wheel_ok t L \<Longrightarrow> wheel_start now t = t"
  by (simp add: wheel_start_def wheel_ok_def)

lemma mod_add_inj:
  assumes "d < N" "e < N" "(k + d) mod N = (k + e) mod (N :: nat)"
  shows "d = e"
proof -
  have "x = y" if "x \<le> y" "y < N" "(k + x) mod N = (k + y) mod N" for x y
  proof -
    have "N dvd (k + y) - (k + x)" using that mod_eq_dvd_iff_nat [of "k + x" "k + y" N] by simp
    moreover have "(k + y) - (k + x) < N" using that(1,2) by linarith
    ultimately have "(k + y) - (k + x) = 0" using nat_dvd_not_less by blast
    with that(1) show ?thesis by simp
  qed
  with assms show ?thesis by (metis nat_le_linear)
qed

lemma slot_offset:
  assumes "0 < N" "l < N"
  shows "\<exists>d < N. l = (k + d) mod (N :: nat)"
proof (intro exI conjI)
  let ?d = "(l + N - k mod N) mod N"
  show "?d < N" using assms by simp
  have "(k + ?d) mod N = (k mod N + (l + N - k mod N)) mod N" by (simp add: mod_simps)
  also have "k mod N + (l + N - k mod N) = l + N" using mod_less_divisor [OF assms(1), of k] by linarith
  finally show "l = (k + ?d) mod N" using assms by simp
qed

text \<open>The slot that \<^verbatim>\<open>AddTimeout\<close> computes.\<close>

definition offset :: "nat \<Rightarrow> stCoEpoll_t \<Rightarrow> nat" where
  "offset x t = min (unat (ce_ullExpireTime t x) - unat (ce_ullStart t)) (slots t - 1)"

lemma unat_of_size:
  assumes "0 \<le> n" "n < 2 ^ 62"
  shows "unat (word_of_int n :: u64) = nat n"
proof -
  have "n mod 2 ^ 64 = n" using assms by (intro mod_pos_pos_trivial) simp_all
  then show ?thesis by (simp add: unat_eq_nat_uint uint_word_of_int)
qed

lemma AddTimeout_eq:
  assumes "wheel_ok t L" "ce_ullStart t \<le> now" "now \<le> ce_ullExpireTime t x"
  shows "AddTimeout x now t = (0, t\<lparr>ce_links := AddTail (slot_at t (offset x t)) x (ce_links t)\<rparr>)"
proof -
  note w = wheel_okD [OF assms(1)]
  let ?diff = "ce_ullExpireTime t x - ce_ullStart t"
  let ?n = "word_of_int (ce_iItemSize t) :: u64"
  have le: "ce_ullStart t \<le> ce_ullExpireTime t x" using assms(2,3) by simp
  have n: "unat ?n = slots t" using w(2,3) by (intro unat_of_size) simp_all
  have n1: "unat (word_of_int (ce_iItemSize t - 1) :: u64) = slots t - 1"
    using unat_of_size [of "ce_iItemSize t - 1"] w(2,3) by (simp add: nat_diff_distrib)
  have d: "unat ?diff = unat (ce_ullExpireTime t x) - unat (ce_ullStart t)"
    using le by (simp add: unat_sub_if_size word_le_nat_alt)
  let ?d1 = "if ?n \<le> ?diff then word_of_int (ce_iItemSize t - 1) else ?diff"
  have d1: "unat ?d1 = offset x t"
    using n n1 d w(2) by (auto simp: offset_def word_le_nat_alt)
  have i: "unat (word_of_int (ce_llStartIdx t) :: u64) = nat (ce_llStartIdx t)"
  proof (rule unat_of_size [OF w(6)])
    have "nat (ce_llStartIdx t) < 2 ^ 62" using w(5,7) by (rule order_le_less_trans [rotated])
    then show "ce_llStartIdx t < 2 ^ 62" using w(6) by (simp add: nat_less_iff)
  qed
  have "offset x t < 2 ^ 31" using w(2,3) by (auto simp: offset_def)
  then have "unat (word_of_int (ce_llStartIdx t) + ?d1) = nat (ce_llStartIdx t) + offset x t"
    using w(5,7) i d1 by (subst unat_add_lem [THEN iffD1]) simp_all
  then have "unat ((word_of_int (ce_llStartIdx t) + ?d1) mod ?n) = slot_at t (offset x t)"
    by (simp add: unat_mod n)
  moreover have "\<not> now < ce_ullStart t" "\<not> ce_ullExpireTime t x < now" using assms(2,3) by simp_all
  ultimately show ?thesis
    by (simp add: AddTimeout_def wheel_start_id [OF assms(1)] Let_def)
qed

lemma AddTimeout_ok:
  assumes "wheel_ok t L" "ce_ullStart t \<le> now" "now \<le> ce_ullExpireTime t x" "\<And>l. x \<notin> set (L l)"
  shows "\<exists>t' l. AddTimeout x now t = (0, t') \<and> t' = t\<lparr>ce_links := ce_links t'\<rparr> \<and> l < slots t \<and> wheel_ok t' (L(l := L l @ [x]))"
proof -
  note w = wheel_okD [OF assms(1)]
  let ?l = "slot_at t (offset x t)"
  let ?t = "t\<lparr>ce_links := AddTail ?l x (ce_links t)\<rparr>"
  have N: "0 < slots t" using w(2) by simp
  have o: "offset x t < slots t" "unat (ce_ullStart t) + offset x t \<le> unat (ce_ullExpireTime t x)"
    using N assms(2,3) by (auto simp: offset_def word_le_nat_alt)
  have "ls_link (ce_links t) x = None" using links_free [OF w(1)] assms(4) by blast
  then have "links_ok (ce_links ?t) (L(?l := L ?l @ [x]))" using AddTail_ok [OF w(1)] by simp
  moreover have "unat (ce_ullStart t) + d \<le> unat (ce_ullExpireTime t y)"
    if "d < slots t" "y \<in> set ((L(?l := L ?l @ [x])) (slot_at t d))" for d y
  proof (cases "slot_at t d = ?l")
    case True
    then have "d = offset x t" using mod_add_inj that(1) o(1) by blast
    with that True o(2) w(8) [OF that(1), of y] show ?thesis by auto
  qed (use that w(8) [OF that(1), of y] in simp)
  ultimately have "wheel_ok ?t (L(?l := L ?l @ [x]))" using w by (simp add: wheel_ok_def)
  moreover have "?l < slots t" using N by simp
  ultimately show ?thesis using AddTimeout_eq [OF assms(1-3)] by auto
qed

section \<open>Taking what has expired\<close>

text \<open>The lists after the slots from offset \<open>i\<close> to \<open>j\<close> have been joined to the list \<open>r\<close>.\<close>

definition emptied :: "nat \<Rightarrow> nat \<Rightarrow> nat \<Rightarrow> nat \<Rightarrow> nat \<Rightarrow> (nat \<Rightarrow> nat list) \<Rightarrow> nat \<Rightarrow> nat list" where
  "emptied k N r i j L l =
     (if l = r then L r @ concat (map (\<lambda>m. L ((k + m) mod N)) [i..<j])
      else if \<exists>m \<in> {i..<j}. l = (k + m) mod N then [] else L l)"

lemma emptied_step:
  assumes "i < j" "j \<le> N" "N \<le> r"
  shows "emptied k N r (Suc i) j (L(r := L r @ L ((k + i) mod N), (k + i) mod N := [])) = emptied k N r i j L"
proof (rule ext)
  fix l
  have N: "0 < N" using assms by linarith
  have ne: "(k + m) mod N \<noteq> r" for m using assms(3) mod_less_divisor [OF N, of "k + m"] by linarith
  have inj: "(k + m) mod N \<noteq> (k + i) mod N" if "m \<in> {Suc i..<j}" for m
    using that assms(1,2) mod_add_inj [of m N i k] by auto
  define M where "M = L(r := L r @ L ((k + i) mod N), (k + i) mod N := [])"
  have M: "M r = L r @ L ((k + i) mod N)" "M ((k + i) mod N) = []" "\<And>l. l \<noteq> r \<Longrightarrow> l \<noteq> (k + i) mod N \<Longrightarrow> M l = L l"
    using ne [of i] by (simp_all add: M_def)
  have m: "map (\<lambda>m. M ((k + m) mod N)) [Suc i..<j] = map (\<lambda>m. L ((k + m) mod N)) [Suc i..<j]"
    using inj ne by (intro map_cong refl M(3)) simp_all
  have u: "[i..<j] = i # [Suc i..<j]" "{i..<j} = insert i {Suc i..<j}" using assms(1) by (auto simp: upt_conv_Cons)
  have "emptied k N r (Suc i) j M l = emptied k N r i j L l"
    unfolding emptied_def m u using M by (cases "l = r"; cases "l = (k + i) mod N") simp_all
  then show "emptied k N r (Suc i) j (L(r := L r @ L ((k + i) mod N), (k + i) mod N := [])) l = emptied k N r i j L l"
    by (simp only: M_def)
qed

lemma c_rem_slot: "0 \<le> a \<Longrightarrow> 0 < n \<Longrightarrow> c_rem (a + int i) n = int ((nat a + i) mod nat n)"
  by (simp add: c_rem_def zmod_int)

lemma take_slots_ok:
  assumes "links_ok (ce_links t) L" "0 < ce_iItemSize t" "0 \<le> k" "slots t \<le> r" "i + n \<le> slots t"
  shows "\<exists>s. take_slots n i k r t = Some (t\<lparr>ce_links := s\<rparr>) \<and> links_ok s (emptied (nat k) (slots t) r i (i + n) L)"
  using assms
proof (induction n arbitrary: i t L)
  case 0
  have "emptied (nat k) (slots t) r i i L = L" by (rule ext) (simp add: emptied_def)
  with 0 show ?case by (intro exI [of _ "ce_links t"]) simp
next
  case (Suc n)
  let ?l = "(nat k + i) mod slots t"
  have "?l < slots t" using Suc.prems(2) by simp
  then have ne: "r \<noteq> ?l" using Suc.prems(4) by linarith
  define M where "M = L(r := L r @ L ?l, ?l := [])"
  obtain s where s: "Join r ?l (ce_links t) = Some s" "links_ok s M"
    using Join_ok [OF Suc.prems(1) ne] unfolding M_def by blast
  let ?t = "t\<lparr>ce_links := s\<rparr>"
  have "\<exists>s'. take_slots n (Suc i) k r ?t = Some (?t\<lparr>ce_links := s'\<rparr>) \<and>
      links_ok s' (emptied (nat k) (slots ?t) r (Suc i) (Suc i + n) M)"
    by (rule Suc.IH) (use Suc.prems s(2) in simp_all)
  moreover have "emptied (nat k) (slots t) r (Suc i) (i + Suc n) M = emptied (nat k) (slots t) r i (i + Suc n) L"
    unfolding M_def using Suc.prems(4,5) by (intro emptied_step) simp_all
  ultimately show ?case
    using s(1) Suc.prems(2,3) by (auto simp: c_rem_slot)
qed

lemma sint_ucast_small:
  fixes w :: u64
  assumes "unat w < 2 ^ 31"
  shows "sint (ucast w :: u32) = int (unat w)"
proof -
  have "int (unat w) < int (2 ^ 31)" using assms by (simp only: of_nat_less_iff)
  then have u: "uint w < 2 ^ 31" by (simp only: uint_nat of_nat_power of_nat_numeral)
  have "sint (ucast w :: u32) = signed_take_bit (LENGTH(32) - Suc 0) (uint w)" by (rule signed_ucast_eq)
  also have "\<dots> = uint w"
    using u by (intro signed_take_bit_int_eq_self) (simp_all add: order_trans [OF _ uint_ge_0])
  finally show ?thesis by (simp only: uint_nat)
qed

lemma elapsed_small:
  assumes "ce_ullStart t \<le> now" "unat now - unat (ce_ullStart t) + 1 < 2 ^ 31"
  shows "elapsed now t = int (unat now - unat (ce_ullStart t)) + 1"
proof -
  let ?g = "unat now - unat (ce_ullStart t)"
  have g: "unat (now - ce_ullStart t) = ?g" using assms(1) by (simp add: unat_sub_if_size word_le_nat_alt)
  have "unat (now - ce_ullStart t + 1) = ?g + 1"
    using assms(2) g by (subst unat_add_lem [THEN iffD1]) simp_all
  then show ?thesis using assms(2) sint_ucast_small [of "now - ce_ullStart t + 1"] by (simp add: elapsed_def)
qed

text \<open>The number of slots that come up until \<open>now\<close>.\<close>

definition due :: "u64 \<Rightarrow> stCoEpoll_t \<Rightarrow> nat" where
  "due now t = min (slots t) (unat now - unat (ce_ullStart t) + 1)"

definition taken :: "u64 \<Rightarrow> stCoEpoll_t \<Rightarrow> (nat \<Rightarrow> nat list) \<Rightarrow> nat list" where
  "taken now t L = concat (map (\<lambda>m. L (slot_at t m)) [0..<due now t])"

text \<open>A later clock that has not jumped by more than \<^verbatim>\<open>int\<close> can hold.\<close>

definition next_time :: "u64 \<Rightarrow> stCoEpoll_t \<Rightarrow> bool" where
  "next_time now t \<longleftrightarrow> ce_ullStart t \<le> now \<and> unat now - unat (ce_ullStart t) + 1 < 2 ^ 31 \<and> unat now < 2 ^ 62"

lemma wheel_turn:
  assumes "wheel_ok t L" "next_time now t" "slots t \<le> r" "d < slots t"
    "x \<in> set (emptied (nat (ce_llStartIdx t)) (slots t) r 0 (due now t) L
       ((nat (ce_llStartIdx t) + (due now t - 1) + d) mod slots t))"
  shows "unat now + d \<le> unat (ce_ullExpireTime t x)"
proof -
  note w = wheel_okD [OF assms(1)]
  let ?k = "nat (ce_llStartIdx t)" and ?N = "slots t" and ?c = "due now t"
  let ?l = "(?k + (?c - 1) + d) mod ?N"
  have N: "0 < ?N" using w(2) by simp
  have c: "1 \<le> ?c" "?c \<le> ?N" using N by (auto simp: due_def)
  have "?l \<noteq> r" using mod_less_divisor [OF N, of "?k + (?c - 1) + d"] assms(3) by linarith
  with assms(5) have ne: "\<And>m. m < ?c \<Longrightarrow> ?l \<noteq> (?k + m) mod ?N" and x: "x \<in> set (L ?l)"
    by (auto simp: emptied_def split: if_splits)
  have lt: "?c - 1 + d < ?N"
  proof (rule ccontr)
    assume "\<not> ?c - 1 + d < ?N"
    then obtain m where m: "?c - 1 + d = ?N + m" by (auto simp: not_less le_iff_add)
    then have "m < ?c" using c assms(4) by linarith
    moreover have "?l = (?k + m) mod ?N"
      using m by (simp add: add.assoc) (metis add.left_commute mod_add_self1)
    ultimately show False using ne by blast
  qed
  have d0: "d \<noteq> 0" using ne [of "?c - 1"] c by (metis add.right_neutral diff_less less_le_trans zero_less_one)
  with lt c have "?c < ?N" by linarith
  then have "?c - 1 = unat now - unat (ce_ullStart t)" by (auto simp: due_def)
  moreover have "unat (ce_ullStart t) + (?c - 1 + d) \<le> unat (ce_ullExpireTime t x)"
    by (rule w(8) [OF lt]) (use x in \<open>simp add: add.assoc\<close>)
  moreover have "unat (ce_ullStart t) \<le> unat now" using assms(2) by (simp add: next_time_def word_le_nat_alt)
  ultimately show ?thesis by linarith
qed

lemma TakeAllTimeout_ok:
  assumes "wheel_ok t L" "next_time now t" "slots t \<le> r"
  shows "\<exists>s. TakeAllTimeout now r t = Some (t\<lparr>ce_links := s, ce_ullStart := now, ce_llStartIdx := ce_llStartIdx t + int (due now t - 1)\<rparr>) \<and>
     wheel_ok (t\<lparr>ce_links := s, ce_ullStart := now, ce_llStartIdx := ce_llStartIdx t + int (due now t - 1)\<rparr>)
       (emptied (nat (ce_llStartIdx t)) (slots t) r 0 (due now t) L)"
proof -
  note w = wheel_okD [OF assms(1)]
  let ?c = "due now t"
  have nt: "ce_ullStart t \<le> now" "unat now < 2 ^ 62" "unat (ce_ullStart t) \<le> unat now"
    using assms(2) by (simp_all add: next_time_def word_le_nat_alt)
  have e: "elapsed now t = int (unat now - unat (ce_ullStart t)) + 1"
    using assms(2) by (intro elapsed_small) (simp_all add: next_time_def)
  have c: "1 \<le> ?c" "?c \<le> slots t" using w(2) by (auto simp: due_def)
  have cnt: "(if ce_iItemSize t < elapsed now t then ce_iItemSize t else elapsed now t) = int ?c"
    using w(2) unfolding e due_def by (auto simp: min_def)
  obtain s where s: "take_slots ?c 0 (ce_llStartIdx t) r t = Some (t\<lparr>ce_links := s\<rparr>)"
    "links_ok s (emptied (nat (ce_llStartIdx t)) (slots t) r 0 ?c L)"
    using take_slots_ok [OF w(1,2,6) assms(3), of 0 ?c] c(2) by auto
  let ?t = "t\<lparr>ce_links := s, ce_ullStart := now, ce_llStartIdx := ce_llStartIdx t + int (?c - 1)\<rparr>"
  have "TakeAllTimeout now r t = Some ?t"
    unfolding TakeAllTimeout_def wheel_start_id [OF assms(1)] Let_def cnt using nt(1) s(1) c(1) by (simp add: of_nat_diff)
  moreover have "now \<noteq> 0" using nt(1) w(4) by (auto simp: word_le_nat_alt unat_eq_0)
  moreover have i: "nat (ce_llStartIdx t + int (?c - 1)) = nat (ce_llStartIdx t) + (?c - 1)" using w(6) by (simp add: nat_add_distrib)
  moreover have "nat (ce_llStartIdx t) + (?c - 1) \<le> unat now"
    using w(7) nt(3) by (auto simp: due_def)
  moreover have "unat now + d \<le> unat (ce_ullExpireTime t x)"
    if "d < slots t" "x \<in> set (emptied (nat (ce_llStartIdx t)) (slots t) r 0 ?c L ((nat (ce_llStartIdx t) + (?c - 1) + d) mod slots t))" for d x
    by (rule wheel_turn [OF assms that])
  ultimately show ?thesis
    using s(2) w(2,3,6) nt(2) by (intro exI [of _ s]) (simp add: wheel_ok_def)
qed

text \<open>Every item whose time has come is taken.\<close>

lemma taken_expired:
  assumes "wheel_ok t L" "next_time now t" "l < slots t" "x \<in> set (L l)" "ce_ullExpireTime t x \<le> now"
  shows "x \<in> set (taken now t L)"
proof -
  note w = wheel_okD [OF assms(1)]
  obtain d where d: "d < slots t" "l = slot_at t d" using slot_offset [of "slots t" l] assms(3) w(2) by auto
  have "unat (ce_ullStart t) + d \<le> unat now"
    using w(8) [OF d(1), of x] assms(4,5) d(2) by (simp add: word_le_nat_alt)
  then have "d < due now t" using d(1) by (auto simp: due_def)
  then show ?thesis using assms(4) d(2) by (auto simp: taken_def)
qed

lemma taken_in_wheel: "0 < ce_iItemSize t \<Longrightarrow> x \<in> set (taken now t L) \<Longrightarrow> \<exists>l < slots t. x \<in> set (L l)"
  unfolding taken_def by clarsimp (metis mod_less_divisor zero_less_nat_eq)

lemma raise_seg:
  "seg (ce_links t) p xs None \<Longrightarrow>
   raise_timeouts (front xs None) t = Some (t\<lparr>ce_bTimeout := (\<lambda>x. x \<in> set xs \<or> ce_bTimeout t x)\<rparr>)"
proof (induction xs arbitrary: p t)
  case Nil
  then show ?case by (subst raise_timeouts.simps) simp
next
  case (Cons x xs)
  let ?t = "t\<lparr>ce_bTimeout := (ce_bTimeout t)(x := True)\<rparr>"
  have "raise_timeouts (front xs None) ?t = Some (?t\<lparr>ce_bTimeout := (\<lambda>y. y \<in> set xs \<or> ce_bTimeout ?t y)\<rparr>)"
    using Cons.prems by (intro Cons.IH [of _ "Some x"]) simp
  moreover have "(\<lambda>y. y \<in> set xs \<or> ce_bTimeout ?t y) = (\<lambda>y. y \<in> set (x # xs) \<or> ce_bTimeout t y)" by auto
  ultimately show ?case using Cons.prems by (subst raise_timeouts.simps) simp
qed

section \<open>One round of the event loop\<close>

text \<open>
  What a procedure may do to the event loop: resume a coroutine that starts and drops time-outs, without
  touching the items that are still to be processed.
\<close>

definition keeps_items :: "stCoEpoll_t \<Rightarrow> (nat \<Rightarrow> nat list) \<Rightarrow> stCoEpoll_t \<Rightarrow> (nat \<Rightarrow> nat list) \<Rightarrow> bool" where
  "keeps_items t L t' L' \<longleftrightarrow> wheel_ok t' L' \<and> ce_ullStart t' = ce_ullStart t \<and> ce_iItemSize t' = ce_iItemSize t \<and>
     L' (active_list t) = L (active_list t) \<and> L' (expired_list t) = L (expired_list t) \<and>
     (\<forall>y \<in> set (L (active_list t)). ce_ullExpireTime t' y = ce_ullExpireTime t y \<and> ce_bTimeout t' y = ce_bTimeout t y \<and>
        ce_pfnProcess t' y = ce_pfnProcess t y)"

definition proc_ok :: "co_process \<Rightarrow> bool" where
  "proc_ok proc \<longleftrightarrow> (\<forall>x t L. wheel_ok t L \<longrightarrow> (\<exists>t' L'. proc x t = Some t' \<and> keeps_items t L t' L'))"

text \<open>The items left to process, with the state of the loop.\<close>

definition to_process :: "u64 \<Rightarrow> nat list \<Rightarrow> stCoEpoll_t \<Rightarrow> (nat \<Rightarrow> nat list) \<Rightarrow> bool" where
  "to_process now A t L \<longleftrightarrow> wheel_ok t L \<and> ce_ullStart t = now \<and> L (active_list t) = A \<and> L (expired_list t) = [] \<and>
     (\<forall>x \<in> set A. ce_bTimeout t x \<and> ce_pfnProcess t x)"

lemma pop_active:
  assumes "to_process now (x # A) t L"
  shows "ls_head (ce_links t) (active_list t) = Some x"
    "to_process now A (t\<lparr>ce_links := PopHead (active_list t) (ce_links t)\<rparr>) (L(active_list t := A))"
    "\<And>l. x \<notin> set ((L(active_list t := A)) l)"
proof -
  have w: "wheel_ok t L" and a: "L (active_list t) = x # A" and e: "L (expired_list t) = []"
    using assms by (simp_all add: to_process_def)
  note d = wheel_okD [OF w]
  show "ls_head (ce_links t) (active_list t) = Some x" using links_okD(1) [OF d(1), of "active_list t"] a by simp
  have l: "links_ok (PopHead (active_list t) (ce_links t)) (L(active_list t := A))"
    using PopHead_ok [OF d(1), of "active_list t"] a by simp
  have "m mod slots t \<noteq> active_list t" for m
    unfolding active_list_def using d(2) by (metis less_irrefl mod_less_divisor zero_less_nat_eq)
  with l d have "wheel_ok (t\<lparr>ce_links := PopHead (active_list t) (ce_links t)\<rparr>) (L(active_list t := A))"
    by (simp add: wheel_ok_def)
  with assms e show "to_process now A (t\<lparr>ce_links := PopHead (active_list t) (ce_links t)\<rparr>) (L(active_list t := A))"
    by (simp add: to_process_def active_list_def expired_list_def)
  fix k
  have "x \<notin> set (L k)" if "k \<noteq> active_list t" using that a links_disjoint [OF d(1), of x k "active_list t"] by auto
  moreover have "x \<notin> set A" using links_okD(4) [OF d(1), of "active_list t"] a by simp
  ultimately show "x \<notin> set ((L(active_list t := A)) k)" by simp
qed

lemma readd_early:
  assumes "to_process now A t L" "now < ce_ullExpireTime t x" "\<And>l. x \<notin> set (L l)"
  shows "\<exists>t1 L1. AddTimeout x now t = (0, t1) \<and> t1 = t\<lparr>ce_links := ce_links t1\<rparr> \<and>
     to_process now A (t1\<lparr>ce_bTimeout := (ce_bTimeout t1)(x := False)\<rparr>) L1"
proof -
  have w: "wheel_ok t L" "ce_ullStart t \<le> now" "now \<le> ce_ullExpireTime t x" using assms by (auto simp: to_process_def)
  obtain t1 l where t1: "AddTimeout x now t = (0, t1)" "t1 = t\<lparr>ce_links := ce_links t1\<rparr>" "l < slots t" "wheel_ok t1 (L(l := L l @ [x]))"
    using AddTimeout_ok [OF w assms(3)] by blast
  have f: "ce_ullStart t1 = ce_ullStart t" "ce_iItemSize t1 = ce_iItemSize t" "ce_bTimeout t1 = ce_bTimeout t"
      "ce_pfnProcess t1 = ce_pfnProcess t"
    by (subst t1(2), simp)+
  have xA: "x \<notin> set A" using assms(1,3) by (auto simp: to_process_def)
  have "l \<noteq> active_list t" "l \<noteq> expired_list t" using t1(3) by (auto simp: active_list_def expired_list_def)
  then have "to_process now A (t1\<lparr>ce_bTimeout := (ce_bTimeout t1)(x := False)\<rparr>) (L(l := L l @ [x]))"
    using assms(1) t1(4) xA unfolding to_process_def
    by (auto simp: f active_list_def expired_list_def wheel_ok_def)
  with t1(1,2) show ?thesis by blast
qed

lemma process_active_ok:
  assumes "proc_ok proc" "to_process now A t L"
  shows "\<exists>t' L'. process_active proc now seen t = Some (seen @ filter (\<lambda>x. ce_ullExpireTime t x \<le> now) A, t') \<and> to_process now [] t' L'"
  using assms(2)
proof (induction A arbitrary: t L seen)
  case Nil
  then have "ls_head (ce_links t) (active_list t) = None"
    using links_okD(1) [OF wheel_okD(1), of t L "active_list t"] by (simp add: to_process_def)
  with Nil show ?case by (subst process_active.simps) auto
next
  case (Cons x A)
  note p = pop_active [OF Cons.prems]
  let ?t = "t\<lparr>ce_links := PopHead (active_list t) (ce_links t)\<rparr>"
  let ?L = "L(active_list t := A)"
  have bt: "ce_bTimeout t x" "ce_pfnProcess t x" using Cons.prems by (simp_all add: to_process_def)
  have xA: "x \<notin> set A" using p(3) [of "active_list t"] by simp
  show ?case
  proof (cases "now < ce_ullExpireTime t x")
    case True
    then obtain t1 L1 where t1: "AddTimeout x now ?t = (0, t1)" "t1 = ?t\<lparr>ce_links := ce_links t1\<rparr>"
      "to_process now A (t1\<lparr>ce_bTimeout := (ce_bTimeout t1)(x := False)\<rparr>) L1"
      using readd_early [OF p(2), of x] p(3) by auto
    let ?t2 = "t1\<lparr>ce_bTimeout := (ce_bTimeout t1)(x := False)\<rparr>"
    have ex: "ce_ullExpireTime ?t2 = ce_ullExpireTime t" by (subst t1(2)) simp
    obtain t' L' where r: "process_active proc now seen ?t2 = Some (seen @ filter (\<lambda>x. ce_ullExpireTime ?t2 x \<le> now) A, t')"
      "to_process now [] t' L'" using Cons.IH [OF t1(3), of seen] by blast
    have "process_active proc now seen t = process_active proc now seen ?t2"
      by (subst process_active.simps) (use p(1) bt True t1(1) in \<open>simp add: Let_def\<close>)
    with r True ex show ?thesis by auto
  next
    case False
    obtain t3 L3 where k: "proc x ?t = Some t3" "keeps_items ?t ?L t3 L3"
      using assms(1) p(2) unfolding proc_ok_def to_process_def by blast
    have tp: "to_process now A t3 L3"
      using p(2) k(2) by (simp add: to_process_def keeps_items_def active_list_def expired_list_def)
    have ex: "ce_ullExpireTime t3 y = ce_ullExpireTime t y" if "y \<in> set A" for y
      using that k(2) by (simp add: keeps_items_def active_list_def)
    obtain t' L' where r: "process_active proc now (seen @ [x]) t3 = Some ((seen @ [x]) @ filter (\<lambda>x. ce_ullExpireTime t3 x \<le> now) A, t')"
      "to_process now [] t' L'" using Cons.IH [OF tp, of "seen @ [x]"] by blast
    have "process_active proc now seen t = process_active proc now (seen @ [x]) t3"
      by (subst process_active.simps) (use p(1) bt False k(1) in \<open>simp add: Let_def\<close>)
    moreover have "filter (\<lambda>x. ce_ullExpireTime t3 x \<le> now) A = filter (\<lambda>x. ce_ullExpireTime t x \<le> now) A"
      using ex by (intro filter_cong) auto
    ultimately show ?thesis using r False by auto
  qed
qed

lemma clear_empty:
  assumes "links_ok (ce_links t) L" "L l = []"
  shows "clear_list l t = t"
  using links_okD(1,2) [OF assms(1), of l] assms(2) by (simp add: clear_list_def set_defs fun_upd_idem)

lemma taken_distinct:
  assumes "links_ok s (emptied k N r 0 c L)" "L r = []"
  shows "distinct (concat (map (\<lambda>m. L ((k + m) mod N)) [0..<c]))"
  using links_okD(4) [OF assms(1), of r] assms(2) by (simp add: emptied_def)

text \<open>The outside of the wheel does not matter to it.\<close>

lemma wheel_ok_outside:
  assumes "wheel_ok t L" "links_ok s L'" "\<And>l. l < slots t \<Longrightarrow> L' l = L l"
  shows "wheel_ok (t\<lparr>ce_bTimeout := b, ce_links := s\<rparr>) L'"
proof -
  have "slot_at t d < slots t" for d using wheel_okD(2) [OF assms(1)] by simp
  with assms show ?thesis by (auto simp: wheel_ok_def)
qed

lemma round_ok:
  assumes "wheel_ok t L" "L (active_list t) = []" "L (expired_list t) = []" "next_time now t" "proc_ok proc"
    "\<And>l x. l < slots t \<Longrightarrow> x \<in> set (L l) \<Longrightarrow> ce_pfnProcess t x"
  shows "\<exists>t' L'. co_eventloop_round proc [] now t =
       Some (filter (\<lambda>x. ce_ullExpireTime t x \<le> now) (taken now t L), t') \<and> to_process now [] t' L' \<and> distinct (taken now t L)"
proof -
  let ?r = "expired_list t" and ?T = "taken now t L"
  have r: "slots t \<le> ?r" by (simp add: expired_list_def)
  let ?L2 = "emptied (nat (ce_llStartIdx t)) (slots t) ?r 0 (due now t) L"
  obtain s2 where 2: "TakeAllTimeout now ?r t = Some (t\<lparr>ce_links := s2, ce_ullStart := now, ce_llStartIdx := ce_llStartIdx t + int (due now t - 1)\<rparr>)"
     (is "_ = Some ?t2")
    and w2: "wheel_ok (t\<lparr>ce_links := s2, ce_ullStart := now, ce_llStartIdx := ce_llStartIdx t + int (due now t - 1)\<rparr>) ?L2"
    using TakeAllTimeout_ok [OF assms(1,4) r] by (elim exE conjE) (rule that)
  have l2: "links_ok s2 ?L2" using wheel_okD(1) [OF w2] by simp
  have e2: "?L2 ?r = ?T" using assms(3) by (simp add: emptied_def taken_def)
  have a2: "?L2 (active_list t) = []"
    using assms(2) by (simp add: emptied_def active_list_def expired_list_def)
  let ?t3 = "?t2\<lparr>ce_bTimeout := (\<lambda>x. x \<in> set ?T \<or> ce_bTimeout t x)\<rparr>"
  have 3: "raise_timeouts (ls_head s2 ?r) ?t2 = Some ?t3"
    using raise_seg [of ?t2 None ?T] links_okD(1,3) [OF l2, of ?r] e2 by simp
  have ne: "active_list t \<noteq> ?r" by (simp add: active_list_def expired_list_def)
  obtain s4 where s4: "Join (active_list t) ?r s2 = Some s4" "links_ok s4 (?L2(active_list t := ?L2 (active_list t) @ ?L2 ?r, ?r := []))"
    using Join_ok [OF l2 ne] by blast
  define L4 where "L4 = ?L2(active_list t := ?L2 (active_list t) @ ?L2 ?r, ?r := [])"
  let ?t4 = "?t2\<lparr>ce_bTimeout := (\<lambda>x. x \<in> set ?T \<or> ce_bTimeout t x), ce_links := s4\<rparr>"
  have w4: "wheel_ok ?t4 L4"
    by (rule wheel_ok_outside [OF w2]) (use s4(2) in \<open>auto simp: L4_def active_list_def expired_list_def\<close>)
  have L4: "L4 (active_list t) = ?T" "L4 ?r = []" using ne a2 e2 by (simp_all add: L4_def)
  have pr: "ce_pfnProcess t x" if "x \<in> set ?T" for x
    using taken_in_wheel [OF wheel_okD(2) [OF assms(1)] that] assms(6) by blast
  have "to_process now ?T ?t4 L4"
    unfolding to_process_def using w4 L4 pr by (simp add: active_list_def expired_list_def)
  from process_active_ok [OF assms(5) this, of "[]"] obtain t' L' where p:
    "process_active proc now [] ?t4 = Some (filter (\<lambda>x. ce_ullExpireTime t x \<le> now) ?T, t')" "to_process now [] t' L'" by auto
  have "co_eventloop_round proc [] now t = process_active proc now [] ?t4"
    unfolding co_eventloop_round_def clear_empty [OF wheel_okD(1) [OF assms(1)] assms(3)] Let_def
    using 2 3 s4(1) by (simp add: active_list_def expired_list_def)
  moreover have "distinct ?T" using links_okD(4) [OF l2, of ?r] e2 by simp
  ultimately show ?thesis using p by auto
qed

section \<open>Events and conversions\<close>

text \<open>A poll item that has an event leaves the wheel, so that its time-out does not fire as well.\<close>

lemma prepare_detaches:
  assumes "wheel_ok t L" "\<not> ce_iAllEventDetach t (ce_pPoll t ap)" "l < slots t" "ce_pPoll t ap \<in> set (L l)"
  shows "\<exists>t'. OnPollPreparePfn ap e t = Some t' \<and> ce_revents t' ap = EpollEvent2Poll e \<and>
     ce_iRaiseCnt t' (ce_pPoll t ap) = ce_iRaiseCnt t (ce_pPoll t ap) + 1 \<and>
     links_ok (ce_links t') (L(l := remove1 (ce_pPoll t ap) (L l), active_list t := L (active_list t) @ [ce_pPoll t ap]))"
proof -
  let ?p = "ce_pPoll t ap"
  note d = wheel_okD(1) [OF assms(1)]
  obtain s where s: "RemoveFromLink ?p (ce_links t) = Some s" "links_ok s (L(l := remove1 ?p (L l)))"
    using RemoveFromLink_ok [OF d assms(4)] by blast
  have "?p \<notin> set ((L(l := remove1 ?p (L l))) k)" for k
    using links_disjoint [OF d assms(4), of k] links_okD(4) [OF d, of l] by (auto simp: set_remove1_eq)
  then have "ls_link s ?p = None" using links_free [OF s(2)] by blast
  moreover have "active_list t \<noteq> l" using assms(3) by (auto simp: active_list_def)
  ultimately have "links_ok (AddTail (active_list t) ?p s) (L(l := remove1 ?p (L l), active_list t := L (active_list t) @ [?p]))"
    using AddTail_ok [OF s(2), of ?p "active_list t"] by simp
  with s(1) assms(2) show ?thesis by (simp add: OnPollPreparePfn_def Let_def)
qed

text \<open>The two translations are inverse on the six events they know.\<close>

definition events_of :: "bool \<Rightarrow> bool \<Rightarrow> bool \<Rightarrow> bool \<Rightarrow> bool \<Rightarrow> bool \<Rightarrow> u16" where
  "events_of i out hup err rd wr =
     (if i then POLLIN else 0) + (if out then POLLOUT else 0) + (if hup then POLLHUP else 0) +
     (if err then POLLERR else 0) + (if rd then POLLRDNORM else 0) + (if wr then POLLWRNORM else 0)"

lemmas poll_bits = POLLIN_def POLLOUT_def POLLERR_def POLLHUP_def POLLRDNORM_def POLLWRNORM_def
  EPOLLIN_def EPOLLOUT_def EPOLLERR_def EPOLLHUP_def EPOLLRDNORM_def EPOLLWRNORM_def

lemma poll_epoll_inverse: "EpollEvent2Poll (PollEvent2Epoll (events_of i out hup err rd wr)) = events_of i out hup err rd wr"
  by (cases i; cases out; cases hup; cases err; cases rd; cases wr)
    (simp_all add: EpollEvent2Poll_def PollEvent2Epoll_def events_of_def poll_bits)

section \<open>A clock that jumps\<close>

text \<open>
  A clock that is put forward by more than 24 days makes the number of elapsed milliseconds negative:
  nothing is taken from the wheel, and its start is not moved, until the clock has gone on as far again.
\<close>

lemma clock_jump_blocks:
  assumes "wheel_ok t L" "ce_ullStart t \<le> now" "2 ^ 31 \<le> unat (now - ce_ullStart t + 1)" "unat (now - ce_ullStart t + 1) < 2 ^ 32"
  shows "TakeAllTimeout now r t = Some t"
proof -
  let ?w = "now - ce_ullStart t + 1"
  have "int (2 ^ 31) \<le> int (unat ?w)" "int (unat ?w) < int (2 ^ 32)" using assms(3,4) by (simp_all only: of_nat_le_iff of_nat_less_iff)
  then have u: "2 ^ 31 \<le> uint ?w" "uint ?w < 2 ^ 32" by (simp_all only: uint_nat of_nat_power of_nat_numeral)
  have "elapsed now t = signed_take_bit (LENGTH(32) - Suc 0) (uint ?w)"
    unfolding elapsed_def by (rule signed_ucast_eq)
  also have "\<dots> < 0"
  proof -
    have "signed_take_bit 31 (uint ?w) = uint ?w - 2 ^ 32"
    proof -
      have "(uint ?w + 2 ^ 31) mod 2 ^ 32 = ((uint ?w - 2 ^ 31) + 2 ^ 32) mod 2 ^ 32" by (simp add: add.commute)
      also have "\<dots> = uint ?w - 2 ^ 31" using u by (simp only: mod_add_self2) (simp add: mod_pos_pos_trivial)
      finally show ?thesis by (simp add: signed_take_bit_eq_take_bit_shift take_bit_eq_mod)
    qed
    with u show ?thesis by simp
  qed
  finally have "elapsed now t < 0" .
  then show ?thesis
    using assms(2) wheel_okD(2) [OF assms(1)] by (simp add: TakeAllTimeout_def wheel_start_id [OF assms(1)] Let_def)
qed

section \<open>Properties\<close>


text \<open>A wheel with a short time-out and one that is longer than the wheel.\<close>

definition two_timeouts :: stCoEpoll_t where
  "two_timeouts = (AllocEpoll 1000)\<lparr>ce_ullExpireTime := (\<lambda>x. if x = 7 then 1005 else 100000), ce_pfnProcess := (\<lambda>_. True)\<rparr>"

lemma two_timeouts_ok: "wheel_ok two_timeouts (\<lambda>_. [])"
  by (simp add: wheel_ok_def two_timeouts_def AllocEpoll_def AllocTimeout_def no_links_ok)

lemma idle_proc_ok: "proc_ok (\<lambda>x. Some)"
  by (auto simp: proc_ok_def keeps_items_def)

lemma two_timeouts_pending:
  "\<exists>t L l k. wheel_ok t L \<and> l < slots t \<and> k < slots t \<and> L = ((\<lambda>_. [])(l := [7]))(k := ((\<lambda>_. [])(l := [7])) k @ [8]) \<and>
     t = two_timeouts\<lparr>ce_links := ce_links t\<rparr>"
proof -
  have s: "ce_ullStart two_timeouts = 1000" "ce_ullExpireTime two_timeouts 7 = 1005" "ce_ullExpireTime two_timeouts 8 = 100000"
    by (simp_all add: two_timeouts_def AllocEpoll_def AllocTimeout_def)
  obtain t1 l where t1: "t1 = two_timeouts\<lparr>ce_links := ce_links t1\<rparr>" "l < slots two_timeouts" "wheel_ok t1 ((\<lambda>_. [])(l := [7]))"
    using AddTimeout_ok [OF two_timeouts_ok, of 1000 7] s by auto
  have s1: "ce_ullStart t1 = 1000" "ce_ullExpireTime t1 8 = 100000" "slots t1 = slots two_timeouts"
    by (subst t1(1), simp add: s)+
  obtain t2 k where t2: "t2 = t1\<lparr>ce_links := ce_links t2\<rparr>" "k < slots t1"
      "wheel_ok t2 (((\<lambda>_. [])(l := [7]))(k := ((\<lambda>_. [])(l := [7])) k @ [8]))"
    using AddTimeout_ok [OF t1(3), of 1000 8] s1 by auto
  have "t2 = two_timeouts\<lparr>ce_links := ce_links t2\<rparr>" by (subst t2(1), subst t1(1)) simp
  moreover have "slots t2 = slots two_timeouts" by (subst t2(1), subst t1(1)) simp
  ultimately show ?thesis
    using t2(2,3) t1(2) s1(3) by (intro exI [of _ t2] exI [of _ "((\<lambda>_. [])(l := [7]))(k := ((\<lambda>_. [])(l := [7])) k @ [8])"]
        exI [of _ l] exI [of _ k]) simp
qed


end
