(* ===== verification/Libco_Stack.thy ===== *)
theory Libco_Stack
  imports FCGI_Prelude
begin

text \<open>
  The coroutines of \<^verbatim>\<open>src/cocgi/cocgi_lib/libco/co_routine.cpp\<close>: their creation, the call stack of a thread
  and the switch between coroutines, with the copying of stacks that several coroutines share.

  A stack is the list of its bytes; a stack pointer is an offset into it, the stack in use is what lies
  above it. The switch of the machine registers (\<^verbatim>\<open>coctx_swap\<close>, in assembly) is not modelled: \<^verbatim>\<open>co_swap\<close> is
  split where it happens, \<open>swap_out\<close> runs before and \<open>swap_in\<close> in the coroutine that continues. \<open>None\<close> is an
  access outside an array.
\<close>

section \<open>Data\<close>

record stStackMem_t =
  sm_occupy_co :: "nat option"
  sm_stack_size :: int
  sm_stack_buffer :: bytes

record stShareStack_t =
  ss_alloc_idx :: u32
  ss_stack_size :: int
  ss_count :: int
  ss_stack_array :: "nat list"

record stCoRoutine_t =
  co_pfn :: "nat option"
  co_arg :: nat
  co_ss_size :: int
  co_cStart :: bool
  co_cEnd :: bool
  co_cIsMain :: bool
  co_cEnableSysHook :: bool
  co_cIsShareStack :: bool
  co_stack_mem :: nat
  co_stack_sp :: nat
  co_save_buffer :: "bytes option"
  co_aSpec :: "nat \<Rightarrow> nat"

text \<open>The environment of a thread and the objects it points to.\<close>

record co_world =
  cw_pCallStack :: "nat list"
  cw_pending_co :: "nat option"
  cw_occupy_co :: "nat option"
  cw_co :: "nat \<Rightarrow> stCoRoutine_t"
  cw_mem :: "nat \<Rightarrow> stStackMem_t"

section \<open>Creation\<close>

text \<open>\<open>buf\<close> is what \<^verbatim>\<open>malloc\<close> returns.\<close>

definition co_alloc_stackmem :: "bytes \<Rightarrow> int \<Rightarrow> stStackMem_t" where
  "co_alloc_stackmem buf stack_size =
     \<lparr>sm_occupy_co = None, sm_stack_size = stack_size, sm_stack_buffer = take (nat stack_size) buf\<rparr>"

text \<open>The stacks are allocated at the addresses \<open>a\<close>, \<open>a + 1\<close>, ...\<close>

definition co_alloc_sharestack :: "(nat \<Rightarrow> bytes) \<Rightarrow> nat \<Rightarrow> int \<Rightarrow> int \<Rightarrow> (nat \<Rightarrow> stStackMem_t) \<Rightarrow> stShareStack_t \<times> (nat \<Rightarrow> stStackMem_t)" where
  "co_alloc_sharestack buf a count stack_size m =
     (\<lparr>ss_alloc_idx = 0, ss_stack_size = stack_size, ss_count = count, ss_stack_array = [a..<a + nat count]\<rparr>,
      \<lambda>i. if a \<le> i \<and> i < a + nat count then co_alloc_stackmem (buf i) stack_size else m i)"

definition co_get_stackmem :: "stShareStack_t \<Rightarrow> (nat \<times> stShareStack_t) option" where
  "co_get_stackmem sh = do {
     assert_opt (ss_count sh \<noteq> 0);
     let idx = unat (ss_alloc_idx sh mod word_of_int (ss_count sh));
     assert_opt (idx < length (ss_stack_array sh));
     Some (ss_stack_array sh ! idx, sh\<lparr>ss_alloc_idx := ss_alloc_idx sh + 1\<rparr>)
   }"

text \<open>The size of a stack: between the default and a limit, rounded up to whole pages.\<close>

definition stack_size_of :: "int \<Rightarrow> int" where
  "stack_size_of n =
     (let n1 = (if n \<le> 0 then 128 * 1024 else if 1024 * 1024 * 8 < n then 1024 * 1024 * 8 else n)
      in if and n1 0xFFF \<noteq> 0 then and n1 (not 0xFFF) + 0x1000 else n1)"

text \<open>
  \<open>n\<close> is the size asked for and \<open>sh\<close> the shared stacks; \<open>mem\<close> is the address of a new stack of its own.
\<close>

definition new_co :: "nat option \<Rightarrow> nat \<Rightarrow> nat \<Rightarrow> int \<Rightarrow> bool \<Rightarrow> stCoRoutine_t" where
  "new_co pfn arg mem sz shared =
     \<lparr>co_pfn = pfn, co_arg = arg, co_ss_size = sz, co_cStart = False, co_cEnd = False, co_cIsMain = False,
      co_cEnableSysHook = False, co_cIsShareStack = shared, co_stack_mem = mem, co_stack_sp = 0, co_save_buffer = None,
      co_aSpec = \<lambda>_. 0\<rparr>"

definition co_create_env ::
  "nat option \<Rightarrow> nat \<Rightarrow> int \<Rightarrow> stShareStack_t option \<Rightarrow> nat \<Rightarrow> bytes \<Rightarrow> nat \<Rightarrow> co_world \<Rightarrow> (stShareStack_t option \<times> co_world) option" where
  "co_create_env pfn arg n sh mem buf co w =
     (case sh of
        Some s \<Rightarrow> do {
          (m, s1) \<leftarrow> co_get_stackmem s;
          Some (Some s1, w\<lparr>cw_co := (cw_co w)(co := new_co pfn arg m (ss_stack_size s1) True)\<rparr>)
        }
      | None \<Rightarrow>
          let sz = stack_size_of n
          in Some (None, w\<lparr>cw_mem := (cw_mem w)(mem := co_alloc_stackmem buf sz),
                           cw_co := (cw_co w)(co := new_co pfn arg mem sz False)\<rparr>))"

definition co_init_curr_thread_env :: "nat \<Rightarrow> bytes \<Rightarrow> nat \<Rightarrow> co_world \<Rightarrow> co_world option" where
  "co_init_curr_thread_env mem buf self w0 = do {
     (_, w) \<leftarrow> co_create_env None 0 0 None mem buf self (w0\<lparr>cw_pCallStack := []\<rparr>);
     Some (w\<lparr>cw_co := (cw_co w)(self := (cw_co w self)\<lparr>co_cIsMain := True\<rparr>),
             cw_pending_co := None, cw_occupy_co := None, cw_pCallStack := [self]\<rparr>)
   }"

section \<open>Switching\<close>

definition GetCurrCo :: "co_world \<Rightarrow> nat option" where
  "GetCurrCo w = (if cw_pCallStack w = [] then None else Some (last (cw_pCallStack w)))"

definition upd_co :: "nat \<Rightarrow> (stCoRoutine_t \<Rightarrow> stCoRoutine_t) \<Rightarrow> co_world \<Rightarrow> co_world" where
  "upd_co x f w = w\<lparr>cw_co := (cw_co w)(x := f (cw_co w x))\<rparr>"

definition upd_mem :: "nat \<Rightarrow> (stStackMem_t \<Rightarrow> stStackMem_t) \<Rightarrow> co_world \<Rightarrow> co_world" where
  "upd_mem m f w = w\<lparr>cw_mem := (cw_mem w)(m := f (cw_mem w m))\<rparr>"

definition live_stack :: "co_world \<Rightarrow> nat \<Rightarrow> bytes" where
  "live_stack w x = drop (co_stack_sp (cw_co w x)) (sm_stack_buffer (cw_mem w (co_stack_mem (cw_co w x))))"

definition save_stack_buffer :: "nat \<Rightarrow> co_world \<Rightarrow> co_world" where
  "save_stack_buffer occ w = upd_co occ (\<lambda>c. c\<lparr>co_save_buffer := Some (live_stack w occ)\<rparr>) w"

text \<open>\<open>sp\<close> is the stack pointer of the coroutine that is left.\<close>

definition swap_out :: "nat \<Rightarrow> nat \<Rightarrow> nat \<Rightarrow> co_world \<Rightarrow> co_world" where
  "swap_out cur sp pending w =
     (let w1 = upd_co cur (\<lambda>c. c\<lparr>co_stack_sp := sp\<rparr>) w in
      if \<not> co_cIsShareStack (cw_co w1 pending) then w1\<lparr>cw_pending_co := None, cw_occupy_co := None\<rparr>
      else
        let m = co_stack_mem (cw_co w1 pending);
            occupy = sm_occupy_co (cw_mem w1 m);
            w2 = (upd_mem m (\<lambda>s. s\<lparr>sm_occupy_co := Some pending\<rparr>) w1)\<lparr>cw_pending_co := Some pending, cw_occupy_co := occupy\<rparr>
        in case occupy of
             Some x \<Rightarrow> if x \<noteq> pending then save_stack_buffer x w2 else w2
           | None \<Rightarrow> w2)"

definition swap_in :: "co_world \<Rightarrow> co_world" where
  "swap_in w =
     (case (cw_occupy_co w, cw_pending_co w) of
        (Some oc, Some pd) \<Rightarrow>
          if oc \<noteq> pd then
            (case co_save_buffer (cw_co w pd) of
               Some saved \<Rightarrow>
                 if 0 < length saved
                 then upd_mem (co_stack_mem (cw_co w pd))
                        (\<lambda>s. s\<lparr>sm_stack_buffer := overwrite (co_stack_sp (cw_co w pd)) saved (sm_stack_buffer s)\<rparr>) w
                 else w
             | None \<Rightarrow> w)
          else w
      | _ \<Rightarrow> w)"

text \<open>A coroutine that starts does not come back from a switch.\<close>

definition co_resume :: "nat \<Rightarrow> nat \<Rightarrow> co_world \<Rightarrow> co_world option" where
  "co_resume co sp w = do {
     lpCurrRoutine \<leftarrow> GetCurrCo w;
     let started = co_cStart (cw_co w co);
     let w1 = upd_co co (\<lambda>c. c\<lparr>co_cStart := True\<rparr>) w;
     assert_opt (length (cw_pCallStack w1) < 128);
     let w2 = swap_out lpCurrRoutine sp co (w1\<lparr>cw_pCallStack := cw_pCallStack w1 @ [co]\<rparr>);
     Some (if started then swap_in w2 else w2)
   }"

definition co_yield_env :: "nat \<Rightarrow> co_world \<Rightarrow> co_world option" where
  "co_yield_env sp w = do {
     assert_opt (2 \<le> length (cw_pCallStack w));
     let n = length (cw_pCallStack w);
     let lst = cw_pCallStack w ! (n - 2);
     let cur = cw_pCallStack w ! (n - 1);
     Some (swap_in (swap_out cur sp lst (w\<lparr>cw_pCallStack := butlast (cw_pCallStack w)\<rparr>)))
   }"

text \<open>The end of a coroutine: \<^verbatim>\<open>CoRoutineFunc\<close> after the function has returned.\<close>

definition CoRoutineFunc :: "nat \<Rightarrow> nat \<Rightarrow> co_world \<Rightarrow> co_world option" where
  "CoRoutineFunc co sp w = co_yield_env sp (upd_co co (\<lambda>c. c\<lparr>co_cEnd := True\<rparr>) w)"

text \<open>\<^verbatim>\<open>co_free\<close> on the sets of the coroutines and of the stacks that are allocated.\<close>

definition co_free :: "nat \<Rightarrow> nat set \<times> nat set \<times> co_world \<Rightarrow> nat set \<times> nat set \<times> co_world" where
  "co_free co s =
     (case s of (cos, mems, w) \<Rightarrow>
        (cos - {co}, if co_cIsShareStack (cw_co w co) then mems else mems - {co_stack_mem (cw_co w co)}, w))"

section \<open>Data of a coroutine\<close>

definition co_getspecific :: "(nat \<Rightarrow> nat) \<Rightarrow> nat \<Rightarrow> co_world \<Rightarrow> nat option" where
  "co_getspecific thread key w =
     (case GetCurrCo w of
        None \<Rightarrow> Some (thread key)
      | Some co \<Rightarrow> if co_cIsMain (cw_co w co) then Some (thread key)
                   else if key < 1024 then Some (co_aSpec (cw_co w co) key) else None)"

definition co_setspecific :: "nat \<Rightarrow> nat \<Rightarrow> (nat \<Rightarrow> nat) \<times> co_world \<Rightarrow> ((nat \<Rightarrow> nat) \<times> co_world) option" where
  "co_setspecific key v tw =
     (case tw of (thread, w) \<Rightarrow>
        case GetCurrCo w of
          None \<Rightarrow> Some (thread(key := v), w)
        | Some co \<Rightarrow> if co_cIsMain (cw_co w co) then Some (thread(key := v), w)
                     else if key < 1024 then Some (thread, upd_co co (\<lambda>c. c\<lparr>co_aSpec := (co_aSpec c)(key := v)\<rparr>) w) else None)"

definition co_disable_hook_sys :: "co_world \<Rightarrow> co_world" where
  "co_disable_hook_sys w = (case GetCurrCo w of None \<Rightarrow> w | Some co \<Rightarrow> upd_co co (\<lambda>c. c\<lparr>co_cEnableSysHook := False\<rparr>) w)"

definition co_is_enable_sys_hook :: "co_world \<Rightarrow> bool" where
  "co_is_enable_sys_hook w = (case GetCurrCo w of None \<Rightarrow> False | Some co \<Rightarrow> co_cEnableSysHook (cw_co w co))"

section \<open>Shared stacks\<close>

abbreviation shared :: "co_world \<Rightarrow> nat \<Rightarrow> bool" where
  "shared w x \<equiv> co_cIsShareStack (cw_co w x)"

abbreviation mem_of :: "co_world \<Rightarrow> nat \<Rightarrow> nat" where
  "mem_of w x \<equiv> co_stack_mem (cw_co w x)"

abbreviation occupant :: "co_world \<Rightarrow> nat \<Rightarrow> nat option" where
  "occupant w m \<equiv> sm_occupy_co (cw_mem w m)"

abbreviation stack_bytes :: "co_world \<Rightarrow> nat \<Rightarrow> bytes" where
  "stack_bytes w x \<equiv> sm_stack_buffer (cw_mem w (mem_of w x))"

text \<open>The stack of a coroutine that is not running: still in place, or in its copy.\<close>

definition held :: "co_world \<Rightarrow> nat \<Rightarrow> bytes" where
  "held w x = (if occupant w (mem_of w x) = Some x then live_stack w x else the (co_save_buffer (cw_co w x)))"

definition frozen_ok :: "co_world \<Rightarrow> nat \<Rightarrow> bool" where
  "frozen_ok w x \<longleftrightarrow> occupant w (mem_of w x) \<noteq> None \<and> co_stack_sp (cw_co w x) \<le> length (stack_bytes w x) \<and>
     (occupant w (mem_of w x) \<noteq> Some x \<longrightarrow>
        (\<exists>saved. co_save_buffer (cw_co w x) = Some saved \<and> length saved = length (stack_bytes w x) - co_stack_sp (cw_co w x)))"

definition stacks_ok :: "nat \<Rightarrow> co_world \<Rightarrow> bool" where
  "stacks_ok c w \<longleftrightarrow>
     (shared w c \<longrightarrow> occupant w (mem_of w c) = Some c) \<and>
     (\<forall>x. x \<noteq> c \<longrightarrow> shared w x \<longrightarrow> co_cStart (cw_co w x) \<longrightarrow> frozen_ok w x) \<and>
     (\<forall>m x. occupant w m = Some x \<longrightarrow> shared w x \<and> co_cStart (cw_co w x) \<and> mem_of w x = m) \<and>
     (\<forall>x y. shared w x \<longrightarrow> \<not> shared w y \<longrightarrow> mem_of w x \<noteq> mem_of w y)"

text \<open>
  The switch from \<open>c\<close> with stack pointer \<open>sp\<close> to \<open>p\<close>, which comes back from a switch of its own if it has
  been started before.
\<close>

definition switch :: "nat \<Rightarrow> nat \<Rightarrow> nat \<Rightarrow> co_world \<Rightarrow> co_world" where
  "switch c sp p w =
     (let w1 = upd_co p (\<lambda>x. x\<lparr>co_cStart := True\<rparr>) w; w2 = swap_out c sp p w1
      in if co_cStart (cw_co w p) then swap_in w2 else w2)"

lemmas world_simps = upd_co_def upd_mem_def live_stack_def save_stack_buffer_def

text \<open>What a switch changes: stack pointer, occupant, saved copy, and the stack that is brought back.\<close>

definition leaving :: "nat \<Rightarrow> nat \<Rightarrow> nat \<Rightarrow> co_world \<Rightarrow> co_world" where
  "leaving c sp p w = upd_co c (\<lambda>x. x\<lparr>co_stack_sp := sp\<rparr>) (upd_co p (\<lambda>x. x\<lparr>co_cStart := True\<rparr>) w)"

lemma leaving_simps [simp]:
  "cw_mem (leaving c sp p w) = cw_mem w" "co_stack_mem (cw_co (leaving c sp p w) x) = mem_of w x"
  "co_cIsShareStack (cw_co (leaving c sp p w) x) = shared w x"
  "co_cStart (cw_co (leaving c sp p w) x) \<longleftrightarrow> x = p \<or> co_cStart (cw_co w x)"
  "co_save_buffer (cw_co (leaving c sp p w) x) = co_save_buffer (cw_co w x)"
  "co_stack_sp (cw_co (leaving c sp p w) x) = (if x = c then sp else co_stack_sp (cw_co w x))"
  by (auto simp: leaving_def world_simps)

lemma switch_private:
  assumes "\<not> shared w p" "p \<noteq> c"
  shows "cw_co (switch c sp p w) = cw_co (leaving c sp p w)" "cw_mem (switch c sp p w) = cw_mem w"
  using assms by (simp_all add: switch_def swap_out_def swap_in_def Let_def world_simps leaving_def)

lemma switch_same:
  assumes "shared w p" "p \<noteq> c" "occupant w (mem_of w p) = Some p"
  shows "cw_co (switch c sp p w) = cw_co (leaving c sp p w)" "cw_mem (switch c sp p w) = cw_mem w"
  using assms by (auto simp: switch_def swap_out_def swap_in_def Let_def world_simps fun_upd_idem leaving_def)

lemma switch_first:
  assumes "shared w p" "p \<noteq> c" "occupant w (mem_of w p) = None"
  shows "cw_co (switch c sp p w) = cw_co (leaving c sp p w)"
    "cw_mem (switch c sp p w) = (cw_mem w)(mem_of w p := (cw_mem w (mem_of w p))\<lparr>sm_occupy_co := Some p\<rparr>)"
  using assms by (auto simp: switch_def swap_out_def swap_in_def Let_def world_simps leaving_def)

definition brought_back :: "nat \<Rightarrow> co_world \<Rightarrow> bytes" where
  "brought_back p w =
     (case co_save_buffer (cw_co w p) of
        Some saved \<Rightarrow> if co_cStart (cw_co w p) \<and> 0 < length saved
                      then overwrite (co_stack_sp (cw_co w p)) saved (stack_bytes w p) else stack_bytes w p
      | None \<Rightarrow> stack_bytes w p)"

lemma switch_other:
  assumes "shared w p" "p \<noteq> c" "occupant w (mem_of w p) = Some y" "y \<noteq> p"
  shows "cw_co (switch c sp p w) =
      (cw_co (leaving c sp p w))(y := (cw_co (leaving c sp p w) y)\<lparr>co_save_buffer := Some (live_stack (leaving c sp p w) y)\<rparr>)"
    "cw_mem (switch c sp p w) = (cw_mem w)(mem_of w p := (cw_mem w (mem_of w p))\<lparr>sm_occupy_co := Some p, sm_stack_buffer := brought_back p w\<rparr>)"
  using assms by (auto simp: switch_def swap_out_def swap_in_def Let_def world_simps leaving_def brought_back_def split: option.splits)

text \<open>The coroutine whose stack a switch to \<open>p\<close> copies out.\<close>

definition evicted :: "nat \<Rightarrow> co_world \<Rightarrow> nat option" where
  "evicted p w = (if shared w p \<and> occupant w (mem_of w p) \<noteq> Some p then occupant w (mem_of w p) else None)"

lemma switch_fields:
  fixes w :: co_world and sp :: nat
  assumes "p \<noteq> c"
  defines "w' \<equiv> switch c sp p w"
  shows "mem_of w' x = mem_of w x" "shared w' x = shared w x" "co_cStart (cw_co w' x) \<longleftrightarrow> x = p \<or> co_cStart (cw_co w x)"
    "co_stack_sp (cw_co w' x) = (if x = c then sp else co_stack_sp (cw_co w x))"
    "co_save_buffer (cw_co w' x) = (if evicted p w = Some x then Some (live_stack (leaving c sp p w) x) else co_save_buffer (cw_co w x))"
    "occupant w' m = (if shared w p \<and> m = mem_of w p then Some p else occupant w m)"
    "sm_stack_buffer (cw_mem w' m) =
       (if evicted p w \<noteq> None \<and> m = mem_of w p then brought_back p w else sm_stack_buffer (cw_mem w m))"
proof -
  consider (priv) "\<not> shared w p" | (same) "shared w p" "occupant w (mem_of w p) = Some p"
    | (first) "shared w p" "occupant w (mem_of w p) = None" | (other) y where "shared w p" "occupant w (mem_of w p) = Some y" "y \<noteq> p"
    by (cases "occupant w (mem_of w p)") auto
  then have "mem_of w' x = mem_of w x \<and> shared w' x = shared w x \<and> (co_cStart (cw_co w' x) \<longleftrightarrow> x = p \<or> co_cStart (cw_co w x)) \<and>
    co_stack_sp (cw_co w' x) = (if x = c then sp else co_stack_sp (cw_co w x)) \<and>
    co_save_buffer (cw_co w' x) = (if evicted p w = Some x then Some (live_stack (leaving c sp p w) x) else co_save_buffer (cw_co w x)) \<and>
    occupant w' m = (if shared w p \<and> m = mem_of w p then Some p else occupant w m) \<and>
    sm_stack_buffer (cw_mem w' m) = (if evicted p w \<noteq> None \<and> m = mem_of w p then brought_back p w else sm_stack_buffer (cw_mem w m))"
  proof cases
    case priv
    then show ?thesis unfolding w'_def by (simp add: switch_private [OF priv assms(1)] evicted_def)
  next
    case same
    then show ?thesis unfolding w'_def by (simp add: switch_same [OF same(1) assms(1) same(2)] evicted_def)
  next
    case first
    then show ?thesis unfolding w'_def by (simp add: switch_first [OF first(1) assms(1) first(2)] evicted_def)
  next
    case (other y)
    then have "evicted p w = Some y" by (simp add: evicted_def)
    then show ?thesis unfolding w'_def using other
      by (simp add: switch_other [OF other(1) assms(1) other(2,3)])
  qed
  then show "mem_of w' x = mem_of w x" "shared w' x = shared w x" "co_cStart (cw_co w' x) \<longleftrightarrow> x = p \<or> co_cStart (cw_co w x)"
    "co_stack_sp (cw_co w' x) = (if x = c then sp else co_stack_sp (cw_co w x))"
    "co_save_buffer (cw_co w' x) = (if evicted p w = Some x then Some (live_stack (leaving c sp p w) x) else co_save_buffer (cw_co w x))"
    "occupant w' m = (if shared w p \<and> m = mem_of w p then Some p else occupant w m)"
    "sm_stack_buffer (cw_mem w' m) =
       (if evicted p w \<noteq> None \<and> m = mem_of w p then brought_back p w else sm_stack_buffer (cw_mem w m))"
    by blast+
qed

lemma leaving_live: "live_stack (leaving c sp p w) x = drop (if x = c then sp else co_stack_sp (cw_co w x)) (stack_bytes w x)"
  by (simp add: live_stack_def)

lemma brought_back_ok:
  assumes "shared w p" "co_cStart (cw_co w p) \<longrightarrow> frozen_ok w p" "evicted p w \<noteq> None"
  shows "length (brought_back p w) = length (stack_bytes w p)"
    "co_cStart (cw_co w p) \<Longrightarrow> drop (co_stack_sp (cw_co w p)) (brought_back p w) = held w p"
proof -
  have ev: "occupant w (mem_of w p) \<noteq> Some p" using assms(3) by (auto simp: evicted_def split: if_splits)
  have fr: "\<exists>saved. co_save_buffer (cw_co w p) = Some saved \<and> length saved = length (stack_bytes w p) - co_stack_sp (cw_co w p) \<and>
      co_stack_sp (cw_co w p) \<le> length (stack_bytes w p)" if "co_cStart (cw_co w p)"
    using that assms(2) ev by (auto simp: frozen_ok_def)
  show "length (brought_back p w) = length (stack_bytes w p)"
    using fr by (cases "co_cStart (cw_co w p)") (auto simp: brought_back_def split: option.splits)
  show "drop (co_stack_sp (cw_co w p)) (brought_back p w) = held w p" if s: "co_cStart (cw_co w p)"
  proof -
    obtain saved where sv: "co_save_buffer (cw_co w p) = Some saved" "length saved = length (stack_bytes w p) - co_stack_sp (cw_co w p)"
      "co_stack_sp (cw_co w p) \<le> length (stack_bytes w p)" using fr [OF s] by blast
    then show ?thesis using s ev by (auto simp: brought_back_def held_def overwrite_def)
  qed
qed

text \<open>What is known of the world a switch starts from.\<close>

lemma stacks_okD:
  assumes "stacks_ok c w"
  shows "shared w c \<Longrightarrow> occupant w (mem_of w c) = Some c"
    "x \<noteq> c \<Longrightarrow> shared w x \<Longrightarrow> co_cStart (cw_co w x) \<Longrightarrow> frozen_ok w x"
    "occupant w m = Some x \<Longrightarrow> shared w x \<and> co_cStart (cw_co w x) \<and> mem_of w x = m"
    "shared w x \<Longrightarrow> \<not> shared w y \<Longrightarrow> mem_of w x \<noteq> mem_of w y"
  using assms by (simp_all add: stacks_ok_def)

lemma evicted_iff:
  assumes "stacks_ok c w" "x \<noteq> p"
  shows "evicted p w = Some x \<longleftrightarrow> shared w p \<and> occupant w (mem_of w p) = Some x"
  using assms(2) by (auto simp: evicted_def)

text \<open>A coroutine that is left keeps its stack from the stack pointer up.\<close>

lemma switch_held:
  assumes ok: "stacks_ok c w" and pc: "p \<noteq> c" and x: "x \<noteq> p" "shared w x" "co_cStart (cw_co w x) \<or> x = c"
  shows "held (switch c sp p w) x = (if x = c then drop sp (stack_bytes w c) else held w x)"
proof (cases "shared w p \<and> mem_of w x = mem_of w p")
  case True
  then have "held (switch c sp p w) x = the (if evicted p w = Some x then Some (live_stack (leaving c sp p w) x) else co_save_buffer (cw_co w x))"
    using x(1) by (simp add: held_def switch_fields [OF pc])
  also have "\<dots> = (if x = c then drop sp (stack_bytes w c) else held w x)"
  proof (cases "occupant w (mem_of w p) = Some x")
    case occ: True
    then have "evicted p w = Some x" using True by (simp add: evicted_iff [OF ok x(1)])
    then show ?thesis using occ True by (cases "x = c") (simp_all add: leaving_live held_def live_stack_def)
  next
    case no: False
    then have "evicted p w \<noteq> Some x" "x \<noteq> c" using True stacks_okD(1) [OF ok] x(2) by (auto simp: evicted_iff [OF ok x(1)])
    then show ?thesis using no True by (simp add: held_def)
  qed
  finally show ?thesis .
next
  case False
  then have ev: "evicted p w \<noteq> Some x" using stacks_okD(3) [OF ok, of "mem_of w p" x] by (simp add: evicted_iff [OF ok x(1)]) metis
  have "\<not> (evicted p w \<noteq> None \<and> mem_of w x = mem_of w p)" using False by (simp add: evicted_def)
  then have "stack_bytes (switch c sp p w) x = stack_bytes w x" by (simp only: switch_fields [OF pc] if_False)
  moreover have "occupant (switch c sp p w) (mem_of w x) = occupant w (mem_of w x)" using False by (simp only: switch_fields [OF pc] if_False)
  moreover have "occupant w (mem_of w c) = Some c" if "x = c" using that x(2) stacks_okD(1) [OF ok] by simp
  ultimately show ?thesis using ev
    by (cases "x = c") (simp_all add: held_def live_stack_def switch_fields(1,4,5) [OF pc])
qed

text \<open>The coroutine that takes over finds the stack it left.\<close>

lemma switch_live:
  assumes ok: "stacks_ok c w" and pc: "p \<noteq> c" and p: "shared w p" "co_cStart (cw_co w p)"
  shows "live_stack (switch c sp p w) p = held w p"
proof (cases "evicted p w")
  case None
  moreover have "occupant w (mem_of w p) \<noteq> None" using stacks_okD(2) [OF ok pc p] by (simp add: frozen_ok_def)
  ultimately have "occupant w (mem_of w p) = Some p" using p by (auto simp: evicted_def split: if_splits)
  then show ?thesis using None pc by (simp add: live_stack_def held_def switch_fields [OF pc])
next
  case (Some y)
  then show ?thesis using brought_back_ok(2) [of w p] stacks_okD(2) [OF ok pc p] p pc
    by (simp add: live_stack_def switch_fields [OF pc])
qed

lemma switch_length:
  assumes ok: "stacks_ok c w" and pc: "p \<noteq> c"
  shows "length (sm_stack_buffer (cw_mem (switch c sp p w) m)) = length (sm_stack_buffer (cw_mem w m))"
proof (cases "evicted p w \<noteq> None \<and> m = mem_of w p")
  case True
  then have "shared w p" by (auto simp: evicted_def split: if_splits)
  then show ?thesis using True brought_back_ok(1) [of w p] stacks_okD(2) [OF ok pc] by (simp add: switch_fields [OF pc])
next
  case False
  then show ?thesis by (auto simp: switch_fields [OF pc])
qed

lemma switch_frozen:
  assumes ok: "stacks_ok c w" and pc: "p \<noteq> c" and sp: "shared w c \<longrightarrow> sp \<le> length (stack_bytes w c)"
    and x: "x \<noteq> p" "shared w x" "co_cStart (cw_co w x)"
  shows "frozen_ok (switch c sp p w) x"
proof -
  have occ: "occupant w (mem_of w x) \<noteq> None" "(if x = c then sp else co_stack_sp (cw_co w x)) \<le> length (stack_bytes w x)"
    using stacks_okD(1) [OF ok] stacks_okD(2) [OF ok _ x(2,3)] sp x(2) by (auto simp: frozen_ok_def)
  have sv: "\<exists>saved. co_save_buffer (cw_co w x) = Some saved \<and> length saved = length (stack_bytes w x) - co_stack_sp (cw_co w x)"
    if "occupant w (mem_of w x) \<noteq> Some x"
    using that stacks_okD(1) [OF ok] stacks_okD(2) [OF ok _ x(2,3)] x(2) by (cases "x = c") (auto simp: frozen_ok_def)
  have xc: "x \<noteq> c" if "occupant w (mem_of w x) \<noteq> Some x" using that stacks_okD(1) [OF ok] x(2) by auto
  have new: "\<exists>saved. co_save_buffer (cw_co (switch c sp p w) x) = Some saved \<and>
      length saved = length (stack_bytes w x) - (if x = c then sp else co_stack_sp (cw_co w x))"
    if "occupant (switch c sp p w) (mem_of w x) \<noteq> Some x"
  proof (cases "evicted p w = Some x")
    case True
    then show ?thesis by (simp add: switch_fields [OF pc] leaving_live)
  next
    case False
    then have "occupant w (mem_of w x) \<noteq> Some x" using that x(1) evicted_iff [OF ok x(1)]
      by (auto simp: switch_fields [OF pc] split: if_splits)
    then show ?thesis using sv xc False by (simp add: switch_fields [OF pc])
  qed
  have "occupant (switch c sp p w) (mem_of w x) \<noteq> None" using occ(1) by (simp add: switch_fields [OF pc])
  moreover have "co_stack_sp (cw_co (switch c sp p w) x) = (if x = c then sp else co_stack_sp (cw_co w x))"
    by (rule switch_fields(4) [OF pc])
  moreover have "mem_of (switch c sp p w) x = mem_of w x" by (rule switch_fields(1) [OF pc])
  ultimately show ?thesis using new occ(2) by (simp only: frozen_ok_def switch_length [OF ok pc]) blast
qed

lemma switch_ok:
  assumes ok: "stacks_ok c w" and pc: "p \<noteq> c" and sp: "shared w c \<longrightarrow> sp \<le> length (stack_bytes w c)"
  shows "stacks_ok p (switch c sp p w)"
  unfolding stacks_ok_def
proof (intro conjI allI impI)
  show "shared (switch c sp p w) p \<Longrightarrow> occupant (switch c sp p w) (mem_of (switch c sp p w) p) = Some p"
    by (simp add: switch_fields [OF pc])
  show "frozen_ok (switch c sp p w) x"
    if "x \<noteq> p" "shared (switch c sp p w) x" "co_cStart (cw_co (switch c sp p w) x)" for x
    using that by (intro switch_frozen [OF ok pc sp]) (simp_all add: switch_fields [OF pc])
  show "shared (switch c sp p w) x" "co_cStart (cw_co (switch c sp p w) x)" "mem_of (switch c sp p w) x = m"
    if "occupant (switch c sp p w) m = Some x" for m x
    using that stacks_okD(3) [OF ok, of m x] by (auto simp: switch_fields [OF pc] split: if_splits)
  show "mem_of (switch c sp p w) x \<noteq> mem_of (switch c sp p w) y"
    if "shared (switch c sp p w) x" "\<not> shared (switch c sp p w) y" for x y
    using that stacks_okD(4) [OF ok, of x y] by (simp add: switch_fields [OF pc])
qed

text \<open>
  The stack of a coroutine that has been freed still names it as its occupant: the next switch to another
  coroutine on that stack copies the stack out to the freed object.
\<close>

lemma co_free_dangles:
  assumes "stacks_ok c w" "shared w x" "occupant w (mem_of w x) = Some x"
    and "shared w p" "mem_of w p = mem_of w x" "p \<noteq> x" "p \<noteq> c" "co_free x (cos, mems, w) = (cos', mems', w')"
  shows "x \<notin> cos' \<and> evicted p w' = Some x \<and>
    co_save_buffer (cw_co (switch c sp p w') x) = Some (live_stack (leaving c sp p w') x)"
proof -
  have w: "w' = w" "cos' = cos - {x}" using assms(8) by (simp_all add: co_free_def)
  then have "evicted p w' = Some x" using assms by (simp add: evicted_def)
  then show ?thesis using w by (simp add: switch_fields [OF assms(7)])
qed

section \<open>The coroutines of a thread\<close>

text \<open>Two worlds that differ only in the call stack and in the start flag of coroutines with their own stack.\<close>

definition same_stacks :: "co_world \<Rightarrow> co_world \<Rightarrow> bool" where
  "same_stacks w1 w2 \<longleftrightarrow> cw_mem w1 = cw_mem w2 \<and>
     (\<forall>x. mem_of w1 x = mem_of w2 x \<and> shared w1 x = shared w2 x \<and> co_stack_sp (cw_co w1 x) = co_stack_sp (cw_co w2 x) \<and>
        co_save_buffer (cw_co w1 x) = co_save_buffer (cw_co w2 x) \<and>
        (shared w1 x \<longrightarrow> co_cStart (cw_co w1 x) = co_cStart (cw_co w2 x)))"

lemma same_stacks_facts:
  assumes "same_stacks w1 w2"
  shows "stacks_ok c w1 = stacks_ok c w2" "held w1 x = held w2 x" "live_stack w1 x = live_stack w2 x"
  using assms by (auto simp: same_stacks_def stacks_ok_def frozen_ok_def held_def live_stack_def)

lemma same_stacks_start:
  assumes "same_stacks w1 w2" "shared w1 x"
  shows "co_cStart (cw_co w1 x) = co_cStart (cw_co w2 x)"
  using assms by (auto simp: same_stacks_def)

lemma swap_call_stack:
  "swap_out c sp p (w\<lparr>cw_pCallStack := s\<rparr>) = (swap_out c sp p w)\<lparr>cw_pCallStack := s\<rparr>"
  "swap_in (w\<lparr>cw_pCallStack := s\<rparr>) = (swap_in w)\<lparr>cw_pCallStack := s\<rparr>"
  by (simp_all add: swap_out_def swap_in_def Let_def world_simps split: option.splits)

lemma same_stacks_call_stack [simp]: "same_stacks (w\<lparr>cw_pCallStack := s\<rparr>) w"
  by (simp add: same_stacks_def)

lemma co_resume_switch:
  assumes "co_resume co sp w = Some w'" "GetCurrCo w = Some c"
  shows "same_stacks w' (switch c sp co w)" "cw_pCallStack w' = cw_pCallStack w @ [co]"
proof -
  have "w' = (switch c sp co w)\<lparr>cw_pCallStack := cw_pCallStack w @ [co]\<rparr>"
    using assms by (auto simp: co_resume_def switch_def Let_def swap_call_stack upd_co_def assert_opt_def bind_eq_Some_conv split: if_splits)
  then show "same_stacks w' (switch c sp co w)" "cw_pCallStack w' = cw_pCallStack w @ [co]" by simp_all
qed

lemma co_yield_switch:
  assumes "co_yield_env sp w = Some w'" "cw_pCallStack w = cs @ [p, c]" "p \<noteq> c" "shared w p \<longrightarrow> co_cStart (cw_co w p)"
  shows "same_stacks w' (switch c sp p w)" "cw_pCallStack w' = cs @ [p]"
proof -
  have w': "w' = (swap_in (swap_out c sp p w))\<lparr>cw_pCallStack := cs @ [p]\<rparr>"
    using assms(1,2) by (simp add: co_yield_env_def Let_def swap_call_stack assert_opt_def nth_append butlast_append split: if_splits)
  have "same_stacks (swap_in (swap_out c sp p w)) (switch c sp p w)"
  proof (cases "shared w p")
    case True
    then have "(cw_co w p)\<lparr>co_cStart := True\<rparr> = cw_co w p" using assms(4) by simp
    then have "upd_co p (\<lambda>x. x\<lparr>co_cStart := True\<rparr>) w = w" by (simp add: upd_co_def)
    then show ?thesis using True assms(4) by (simp add: switch_def same_stacks_def)
  next
    case False
    then show ?thesis using assms(3) by (simp add: same_stacks_def switch_private swap_out_def swap_in_def Let_def world_simps leaving_def)
  qed
  then show "same_stacks w' (switch c sp p w)" "cw_pCallStack w' = cs @ [p]" using w' by (simp_all add: same_stacks_def)
qed

text \<open>
  A step of a thread: the current coroutine writes to its stack, creates a coroutine (at an address and,
  for a stack of its own, with memory that are not in use), resumes another one, or yields.
\<close>

inductive co_step :: "co_world \<Rightarrow> co_world \<Rightarrow> bool" where
  run: "GetCurrCo w = Some c \<Longrightarrow> length b = length (stack_bytes w c) \<Longrightarrow>
    co_step w (upd_mem (mem_of w c) (\<lambda>s. s\<lparr>sm_stack_buffer := b\<rparr>) w)"
| create_shared: "\<not> co_cStart (cw_co w co) \<Longrightarrow> co \<notin> set (cw_pCallStack w) \<Longrightarrow>
    \<forall>m\<in>set (ss_stack_array s). \<forall>y. y \<noteq> co \<longrightarrow> mem_of w y = m \<longrightarrow> shared w y \<Longrightarrow>
    co_create_env pfn arg n (Some s) mem buf co w = Some (s1, w') \<Longrightarrow> co_step w w'"
| create_private: "\<not> co_cStart (cw_co w co) \<Longrightarrow> co \<notin> set (cw_pCallStack w) \<Longrightarrow> \<forall>y. y \<noteq> co \<longrightarrow> mem_of w y \<noteq> mem \<Longrightarrow>
    co_create_env pfn arg n None mem buf co w = Some (s1, w') \<Longrightarrow> co_step w w'"
| resume: "GetCurrCo w = Some c \<Longrightarrow> co \<noteq> c \<Longrightarrow> sp \<le> length (stack_bytes w c) \<Longrightarrow> co_resume co sp w = Some w' \<Longrightarrow> co_step w w'"
| yield: "GetCurrCo w = Some c \<Longrightarrow> sp \<le> length (stack_bytes w c) \<Longrightarrow> co_yield_env sp w = Some w' \<Longrightarrow> co_step w w'"

text \<open>No coroutine is resumed by itself, and those on the call stack have been started.\<close>

definition thread_inv :: "co_world \<Rightarrow> bool" where
  "thread_inv w \<longleftrightarrow> cw_pCallStack w \<noteq> [] \<and> stacks_ok (last (cw_pCallStack w)) w \<and> distinct_adj (cw_pCallStack w) \<and>
     (\<forall>x\<in>set (cw_pCallStack w). shared w x \<longrightarrow> co_cStart (cw_co w x))"

lemma thread_inv_current: "thread_inv w \<Longrightarrow> GetCurrCo w = Some (last (cw_pCallStack w))"
  by (simp add: thread_inv_def GetCurrCo_def)

lemma switch_step:
  assumes inv: "thread_inv w" and c: "last (cw_pCallStack w) = c" and p: "p \<noteq> c"
    and sp: "sp \<le> length (stack_bytes w c)" and same: "same_stacks w' (switch c sp p w)"
    and cs: "cw_pCallStack w' \<noteq> []" "last (cw_pCallStack w') = p" "distinct_adj (cw_pCallStack w')"
      "set (cw_pCallStack w') \<subseteq> insert p (set (cw_pCallStack w))"
  shows "thread_inv w'"
proof -
  have ok: "stacks_ok c w" using inv c by (simp add: thread_inv_def)
  then have "stacks_ok p (switch c sp p w)" using sp p by (simp add: switch_ok)
  then have "stacks_ok p w'" using same_stacks_facts(1) [OF same] by simp
  moreover have "co_cStart (cw_co w' x)" if "x \<in> set (cw_pCallStack w')" "shared w' x" for x
  proof -
    have "shared w x" using that(2) same by (simp add: same_stacks_def switch_fields [OF p])
    then have "co_cStart (cw_co (switch c sp p w) x)" using that(1) cs(4) inv by (auto simp: switch_fields [OF p] thread_inv_def)
    then show ?thesis using same_stacks_start [OF same that(2)] by simp
  qed
  ultimately show ?thesis using cs by (simp add: thread_inv_def)
qed

text \<open>What a step keeps of a coroutine \<open>x\<close> that is not running.\<close>

definition kept :: "nat \<Rightarrow> co_world \<Rightarrow> co_world \<Rightarrow> bool" where
  "kept x w w' \<longleftrightarrow> shared w' x \<and> co_cStart (cw_co w' x) \<and> co_stack_sp (cw_co w' x) = co_stack_sp (cw_co w x) \<and>
     (if GetCurrCo w' = Some x then live_stack w' x else held w' x) = held w x"

lemma switch_kept:
  assumes ok: "stacks_ok c w" and p: "p \<noteq> c" and same: "same_stacks w' (switch c sp p w)" and cur: "GetCurrCo w' = Some p"
    and x: "x \<noteq> c" "shared w x" "co_cStart (cw_co w x)"
  shows "kept x w w'"
proof -
  have "shared w' x" "co_stack_sp (cw_co w' x) = co_stack_sp (cw_co w x)"
    using same x by (simp_all add: same_stacks_def switch_fields [OF p])
  moreover from this have "co_cStart (cw_co w' x)" using same_stacks_start [OF same] x(3) by (simp add: switch_fields [OF p])
  moreover have "live_stack w' x = held w x" if "x = p" using that switch_live [OF ok p] x same_stacks_facts(3) [OF same] by simp
  moreover have "held w' x = held w x" if "x \<noteq> p" using that switch_held [OF ok p that x(2)] x same_stacks_facts(2) [OF same] by simp
  ultimately show ?thesis using cur by (auto simp: kept_def)
qed

text \<open>The coroutine a step continues with, and the facts about the switch in it.\<close>

lemma yield_split:
  assumes "thread_inv w" "co_yield_env sp w = Some w'"
  obtains cs p where "cw_pCallStack w = cs @ [p, last (cw_pCallStack w)]" "p \<noteq> last (cw_pCallStack w)"
    "same_stacks w' (switch (last (cw_pCallStack w)) sp p w)" "cw_pCallStack w' = cs @ [p]"
proof -
  have "2 \<le> length (cw_pCallStack w)" using assms(2) by (simp add: co_yield_env_def assert_opt_def split: if_splits)
  then obtain cs p c where cs: "cw_pCallStack w = cs @ [p, c]"
    by (cases "cw_pCallStack w" rule: rev_cases; cases "butlast (cw_pCallStack w)" rule: rev_cases) simp_all
  have "p \<noteq> c" "shared w p \<longrightarrow> co_cStart (cw_co w p)" using assms(1) cs by (auto simp: thread_inv_def distinct_adj_append_iff)
  then show thesis using co_yield_switch [OF assms(2) cs] cs by (intro that [of cs p]) simp_all
qed

text \<open>The coroutine that runs writes to its own stack only.\<close>

lemma run_keeps:
  assumes ok: "stacks_ok c w" and b: "length b = length (stack_bytes w c)"
  defines "w' \<equiv> upd_mem (mem_of w c) (\<lambda>s. s\<lparr>sm_stack_buffer := b\<rparr>) w"
  shows "stacks_ok c w'" "x \<noteq> c \<Longrightarrow> shared w x \<Longrightarrow> held w' x = held w x"
proof -
  have co: "cw_co w' = cw_co w" and occ: "occupant w' m = occupant w m"
    and len: "length (sm_stack_buffer (cw_mem w' m)) = length (sm_stack_buffer (cw_mem w m))"
    and other: "m \<noteq> mem_of w c \<Longrightarrow> cw_mem w' m = cw_mem w m" for m
    using b by (simp_all add: w'_def upd_mem_def)
  show "stacks_ok c w'" using ok by (simp add: stacks_ok_def frozen_ok_def co occ len)
  show "held w' x = held w x" if x: "x \<noteq> c" "shared w x"
  proof (cases "mem_of w x = mem_of w c")
    case True
    then have "occupant w (mem_of w x) \<noteq> Some x" using stacks_okD(1) [OF ok] stacks_okD(4) [OF ok, of x c] x by (cases "shared w c") auto
    then show ?thesis by (simp add: held_def co occ)
  next
    case False
    then show ?thesis by (simp add: held_def live_stack_def co other)
  qed
qed

lemma create_keeps:
  assumes ok: "stacks_ok c w" and co: "\<not> co_cStart (cw_co w co)" "co \<noteq> c"
    and w': "cw_co w' = (cw_co w)(co := new_co pfn arg m sz sh)" "\<forall>k. k \<noteq> m \<or> sh \<longrightarrow> cw_mem w' k = cw_mem w k"
    and m: "\<forall>y. y \<noteq> co \<longrightarrow> mem_of w y = m \<longrightarrow> sh \<and> shared w y" and occ: "\<not> sh \<longrightarrow> occupant w' m = None"
  shows "stacks_ok c w'" "co_cStart (cw_co w x) \<Longrightarrow> held w' x = held w x"
proof -
  have mem: "cw_mem w' (mem_of w y) = cw_mem w (mem_of w y)" if "y \<noteq> co" for y using w'(2) m that by blast
  have none: "occupant w k \<noteq> Some co" for k using stacks_okD(3) [OF ok, of k co] co(1) by blast
  have old: "frozen_ok w' x = frozen_ok w x" "held w' x = held w x" if "x \<noteq> co" for x
    using that by (simp_all add: frozen_ok_def held_def live_stack_def w'(1) mem)
  show "held w' x = held w x" if "co_cStart (cw_co w x)" using that co(1) old(2) by (cases "x = co") simp_all
  have occ': "occupant w' k = Some x \<Longrightarrow> occupant w k = Some x" for k x
    using w'(2) occ by (cases "k \<noteq> m \<or> sh") auto
  show "stacks_ok c w'" unfolding stacks_ok_def
  proof (intro conjI allI impI)
    show "occupant w' (mem_of w' c) = Some c" if "shared w' c"
      using that co(2) stacks_okD(1) [OF ok] by (simp add: w'(1) mem)
    show "frozen_ok w' x" if "x \<noteq> c" "shared w' x" "co_cStart (cw_co w' x)" for x
      using that stacks_okD(2) [OF ok, of x] old(1) by (cases "x = co") (simp_all add: w'(1) new_co_def)
    show "shared w' x" "co_cStart (cw_co w' x)" "mem_of w' x = k" if "occupant w' k = Some x" for k x
    proof -
      have "x \<noteq> co" using none occ' [OF that] by blast
      then show "shared w' x" "co_cStart (cw_co w' x)" "mem_of w' x = k"
        using stacks_okD(3) [OF ok occ' [OF that]] by (simp_all add: w'(1))
    qed
    show "mem_of w' x \<noteq> mem_of w' y" if "shared w' x" "\<not> shared w' y" for x y
      using that stacks_okD(4) [OF ok, of x y] m by (auto simp: w'(1) new_co_def split: if_splits)
  qed
qed

lemma create_shared_result:
  assumes "co_create_env pfn arg n (Some s) mem buf co w = Some (s1, w')"
  obtains m sz where "m \<in> set (ss_stack_array s)" "cw_co w' = (cw_co w)(co := new_co pfn arg m sz True)"
    "cw_mem w' = cw_mem w" "cw_pCallStack w' = cw_pCallStack w"
  using assms
  by (intro that [of "ss_stack_array s ! unat (ss_alloc_idx s mod word_of_int (ss_count s))" "ss_stack_size s"])
    (auto simp: co_create_env_def co_get_stackmem_def Let_def assert_opt_def bind_eq_Some_conv split: if_splits)

lemma create_private_result:
  assumes "co_create_env pfn arg n None mem buf co w = Some (s1, w')"
  shows "cw_co w' = (cw_co w)(co := new_co pfn arg mem (stack_size_of n) False)" "cw_pCallStack w' = cw_pCallStack w"
    "cw_mem w' = (cw_mem w)(mem := co_alloc_stackmem buf (stack_size_of n))"
  using assms by (auto simp: co_create_env_def Let_def)

text \<open>A step keeps the invariant, and the stack of every coroutine that is not running.\<close>

lemma co_create_step:
  assumes inv: "thread_inv w" and co: "\<not> co_cStart (cw_co w co)" "co \<notin> set (cw_pCallStack w)"
    and w': "cw_co w' = (cw_co w)(co := new_co pfn arg m sz sh)" "\<forall>k. k \<noteq> m \<or> sh \<longrightarrow> cw_mem w' k = cw_mem w k"
    and m: "\<forall>y. y \<noteq> co \<longrightarrow> mem_of w y = m \<longrightarrow> sh \<and> shared w y" and occ: "\<not> sh \<longrightarrow> occupant w' m = None"
    and cs: "cw_pCallStack w' = cw_pCallStack w"
  shows "thread_inv w' \<and> (\<forall>x. GetCurrCo w \<noteq> Some x \<longrightarrow> shared w x \<longrightarrow> co_cStart (cw_co w x) \<longrightarrow> kept x w w')"
proof -
  have ok: "stacks_ok (last (cw_pCallStack w)) w" "cw_pCallStack w \<noteq> []" using inv by (simp_all add: thread_inv_def)
  then have c: "co \<noteq> last (cw_pCallStack w)" using co(2) by auto
  note keeps = create_keeps [OF ok(1) co(1) c w' m occ]
  have "thread_inv w'" using inv keeps(1) co(2) by (auto simp: thread_inv_def cs w'(1))
  moreover have "kept x w w'" if "GetCurrCo w \<noteq> Some x" "shared w x" "co_cStart (cw_co w x)" for x
    using that keeps(2) [of x] co(1) by (cases "x = co") (auto simp: kept_def w'(1) GetCurrCo_def cs)
  ultimately show ?thesis by blast
qed

lemma co_step_keeps:
  assumes "co_step w w'" "thread_inv w"
  shows "thread_inv w' \<and> (\<forall>x. GetCurrCo w \<noteq> Some x \<longrightarrow> shared w x \<longrightarrow> co_cStart (cw_co w x) \<longrightarrow> kept x w w')"
  using assms
proof cases
  case (run c b)
  have ok: "stacks_ok c w" using run(2) assms(2) by (simp add: thread_inv_def GetCurrCo_def)
  note k = run_keeps [OF ok run(3)]
  have f: "cw_pCallStack w' = cw_pCallStack w" "cw_co w' = cw_co w" "GetCurrCo w' = GetCurrCo w" using run(1) by (simp_all add: upd_mem_def GetCurrCo_def)
  have "thread_inv w'" using assms(2) k(1) run(2) unfolding run(1) [symmetric] by (auto simp: thread_inv_def f GetCurrCo_def)
  then show ?thesis using k(2) run(2) unfolding run(1) [symmetric] by (auto simp: kept_def f)
next
  case (create_shared co s pfn arg n mem buf s1)
  obtain m sz where r: "m \<in> set (ss_stack_array s)" "cw_co w' = (cw_co w)(co := new_co pfn arg m sz True)"
    "cw_mem w' = cw_mem w" "cw_pCallStack w' = cw_pCallStack w" using create_shared_result [OF create_shared(4)] .
  show ?thesis by (rule co_create_step [OF assms(2) create_shared(1,2) r(2) _ _ _ r(4)]) (use create_shared(3) r(1,3) in auto)
next
  case (create_private co mem pfn arg n buf s1)
  note r = create_private_result [OF create_private(4)]
  show ?thesis by (rule co_create_step [OF assms(2) create_private(1,2) r(1) _ _ _ r(2)])
      (use create_private(3) r(3) in \<open>auto simp: co_alloc_stackmem_def\<close>)
next
  case (resume c co sp)
  have c: "last (cw_pCallStack w) = c" "stacks_ok c w" "cw_pCallStack w \<noteq> []" using resume(1) assms(2) by (auto simp: thread_inv_def GetCurrCo_def)
  note r = co_resume_switch [OF resume(4,1)]
  have "thread_inv w'" by (rule switch_step [OF assms(2) c(1) resume(2,3) r(1)])
      (use assms(2) c resume(2) in \<open>auto simp: r(2) thread_inv_def distinct_adj_append_iff\<close>)
  moreover have "GetCurrCo w' = Some co" by (simp add: GetCurrCo_def r(2))
  ultimately show ?thesis using switch_kept [OF c(2) resume(2) r(1)] resume(1) by auto
next
  case (yield c sp)
  have c: "last (cw_pCallStack w) = c" "stacks_ok c w" using yield(1) assms(2) by (auto simp: thread_inv_def GetCurrCo_def)
  obtain cs p where r: "cw_pCallStack w = cs @ [p, c]" "p \<noteq> c" "same_stacks w' (switch c sp p w)" "cw_pCallStack w' = cs @ [p]"
    using yield_split [OF assms(2) yield(3)] unfolding c(1) .
  have "thread_inv w'" by (rule switch_step [OF assms(2) c(1) r(2) yield(2) r(3)])
      (use assms(2) r in \<open>auto simp: thread_inv_def distinct_adj_append_iff\<close>)
  moreover have "GetCurrCo w' = Some p" by (simp add: GetCurrCo_def r(4))
  ultimately show ?thesis using switch_kept [OF c(2) r(2,3)] yield(1) by auto
qed

text \<open>The world a thread finds before its first coroutine.\<close>

definition no_coroutines :: "co_world \<Rightarrow> bool" where
  "no_coroutines w \<longleftrightarrow> (\<forall>m. occupant w m = None) \<and> (\<forall>x. \<not> shared w x \<and> \<not> co_cStart (cw_co w x))"

lemma thread_init_inv:
  assumes "no_coroutines w" "co_init_curr_thread_env mem buf self w = Some w0"
  shows "thread_inv w0"
proof -
  have "cw_pCallStack w0 = [self]" "occupant w0 m = None" "\<not> shared w0 x" for m x
    using assms by (auto simp: co_init_curr_thread_env_def co_create_env_def Let_def no_coroutines_def co_alloc_stackmem_def new_co_def
        split: if_splits)
  then show ?thesis by (simp add: thread_inv_def stacks_ok_def)
qed

lemma thread_steps_inv: "co_step\<^sup>*\<^sup>* w w' \<Longrightarrow> thread_inv w \<Longrightarrow> thread_inv w'"
  by (induction rule: rtranclp_induct) (blast dest: co_step_keeps)+

text \<open>A step taken while \<open>c\<close> does not run, and the ways \<open>c\<close> stops running.\<close>

definition away :: "nat \<Rightarrow> co_world \<Rightarrow> co_world \<Rightarrow> bool" where
  "away c w w' \<longleftrightarrow> GetCurrCo w \<noteq> Some c \<and> co_step w w'"

definition leaves :: "nat \<Rightarrow> nat \<Rightarrow> co_world \<Rightarrow> co_world \<Rightarrow> bool" where
  "leaves c sp w w' \<longleftrightarrow> GetCurrCo w = Some c \<and> sp \<le> length (stack_bytes w c) \<and>
     ((\<exists>co. co \<noteq> c \<and> co_resume co sp w = Some w') \<or> co_yield_env sp w = Some w')"

lemma leaves_step: "leaves c sp w w' \<Longrightarrow> co_step w w'"
  unfolding leaves_def by (auto intro: co_step.resume co_step.yield)

lemma leaves_held:
  assumes inv: "thread_inv w" and lv: "leaves c sp w w'" and sh: "shared w c"
  shows "GetCurrCo w' \<noteq> Some c \<and> shared w' c \<and> co_cStart (cw_co w' c) \<and> co_stack_sp (cw_co w' c) = sp \<and> held w' c = drop sp (stack_bytes w c)"
proof -
  have c: "GetCurrCo w = Some c" "last (cw_pCallStack w) = c" using lv inv by (auto simp: leaves_def thread_inv_def GetCurrCo_def)
  then have ok: "stacks_ok c w" using inv by (simp add: thread_inv_def)
  obtain p where p: "p \<noteq> c" "same_stacks w' (switch c sp p w)" "GetCurrCo w' = Some p"
  proof -
    consider (r) co where "co \<noteq> c" "co_resume co sp w = Some w'" | (y) "co_yield_env sp w = Some w'" using lv by (auto simp: leaves_def)
    then show thesis
    proof cases
      case (r co)
      then show thesis using co_resume_switch [OF r(2) c(1)] by (intro that [of co]) (simp_all add: GetCurrCo_def)
    next
      case y
      obtain cs p where "p \<noteq> c" "same_stacks w' (switch c sp p w)" "cw_pCallStack w' = cs @ [p]"
        using yield_split [OF inv y] unfolding c(2) .
      then show thesis by (intro that [of p]) (simp_all add: GetCurrCo_def)
    qed
  qed
  have st: "co_cStart (cw_co w c)" using stacks_okD(1,3) [OF ok] sh by blast
  have "shared w' c" "co_stack_sp (cw_co w' c) = sp" using p(2) sh by (simp_all add: same_stacks_def switch_fields [OF p(1)])
  moreover from this have "co_cStart (cw_co w' c)" using same_stacks_start [OF p(2)] st by (simp add: switch_fields [OF p(1)])
  moreover have "held w' c = drop sp (stack_bytes w c)"
    using switch_held [OF ok p(1) p(1) [symmetric] sh] same_stacks_facts(2) [OF p(2)] by simp
  ultimately show ?thesis using p by simp
qed

lemma away_kept:
  assumes "(away c)\<^sup>*\<^sup>* w1 w2" "thread_inv w1" "GetCurrCo w1 \<noteq> Some c" "shared w1 c" "co_cStart (cw_co w1 c)"
  shows "thread_inv w2 \<and> shared w2 c \<and> co_cStart (cw_co w2 c) \<and> co_stack_sp (cw_co w2 c) = co_stack_sp (cw_co w1 c) \<and>
    (if GetCurrCo w2 = Some c then live_stack w2 c else held w2 c) = held w1 c"
  using assms(1)
proof (induction rule: rtranclp_induct)
  case base
  then show ?case using assms by simp
next
  case (step y z)
  have st: "GetCurrCo y \<noteq> Some c" "co_step y z" using step(2) by (simp_all add: away_def)
  then have "thread_inv z \<and> kept c y z" using co_step_keeps [OF st(2)] step.IH by blast
  then show ?case using step.IH st(1) by (simp add: kept_def)
qed

text \<open>
  An example: two coroutines on one stack of four bytes. The first writes to the stack and resumes the
  second, which overwrites it and yields.
\<close>

definition ex_sh :: "u32 \<Rightarrow> stShareStack_t" where
  "ex_sh i = (fst (co_alloc_sharestack (\<lambda>_. ''abcd'') 7 1 4 (\<lambda>_. co_alloc_stackmem [] 0)))\<lparr>ss_alloc_idx := i\<rparr>"

definition ex_co :: "nat \<Rightarrow> bool \<Rightarrow> nat \<Rightarrow> bytes option \<Rightarrow> stCoRoutine_t" where
  "ex_co i st sp sv = (new_co (Some i) 0 7 4 True)\<lparr>co_cStart := st, co_stack_sp := sp, co_save_buffer := sv\<rparr>"

definition ex_world ::
  "nat list \<Rightarrow> nat option \<Rightarrow> nat option \<Rightarrow> (nat \<Rightarrow> stCoRoutine_t) \<Rightarrow> nat option \<Rightarrow> bytes \<Rightarrow> co_world" where
  "ex_world cs pd oc f occ b = \<lparr>cw_pCallStack = cs, cw_pending_co = pd, cw_occupy_co = oc, cw_co = f,
     cw_mem = (\<lambda>m. if m = 7 then (co_alloc_stackmem b 4)\<lparr>sm_occupy_co := occ\<rparr> else co_alloc_stackmem [] (if m = 0 then stack_size_of 0 else 0))\<rparr>"

definition ex_cos :: "stCoRoutine_t \<Rightarrow> stCoRoutine_t \<Rightarrow> nat \<Rightarrow> stCoRoutine_t" where
  "ex_cos c1 c2 i = (if i = 0 then (new_co None 0 0 (stack_size_of 0) False)\<lparr>co_cIsMain := True\<rparr>
     else if i = 3 then c1 else if i = 2 then c2 else new_co None 0 0 0 False)"

definition ex_base :: co_world where
  "ex_base = ex_world [] None None (\<lambda>_. new_co None 0 0 0 False) None ''abcd''"

abbreviation "ex_none \<equiv> new_co None 0 0 0 False"

abbreviation "ex_w0 \<equiv> ex_world [0] None None (ex_cos ex_none ex_none) None ''abcd''"
abbreviation "ex_w1 \<equiv> ex_world [0] None None (ex_cos (ex_co 3 False 0 None) ex_none) None ''abcd''"
abbreviation "ex_w2 \<equiv> ex_world [0] None None (ex_cos (ex_co 3 False 0 None) (ex_co 2 False 0 None)) None ''abcd''"
abbreviation "ex_w3 \<equiv> ex_world [0, 3] (Some 3) None (ex_cos (ex_co 3 True 0 None) (ex_co 2 False 0 None)) (Some 3) ''abcd''"
abbreviation "ex_w4 \<equiv> ex_world [0, 3] (Some 3) None (ex_cos (ex_co 3 True 0 None) (ex_co 2 False 0 None)) (Some 3) ''wxyz''"
abbreviation "ex_w5 \<equiv> ex_world [0, 3, 2] (Some 2) (Some 3) (ex_cos (ex_co 3 True 2 (Some ''yz'')) (ex_co 2 True 0 None)) (Some 2) ''wxyz''"
abbreviation "ex_w6 \<equiv> ex_world [0, 3, 2] (Some 2) (Some 3) (ex_cos (ex_co 3 True 2 (Some ''yz'')) (ex_co 2 True 0 None)) (Some 2) ''1234''"
abbreviation "ex_w7 \<equiv> ex_world [0, 3] (Some 3) (Some 2) (ex_cos (ex_co 3 True 2 (Some ''yz'')) (ex_co 2 True 3 (Some ''4''))) (Some 3) ''12yz''"

lemmas ex_simps = ex_world_def ex_cos_def ex_co_def ex_sh_def new_co_def co_alloc_stackmem_def co_alloc_sharestack_def assert_opt_def Let_def
  world_simps overwrite_def fun_eq_iff

lemma ex_init: "co_init_curr_thread_env 0 [] 0 ex_base = Some ex_w0" "no_coroutines ex_base"
  by (simp_all add: ex_simps co_init_curr_thread_env_def co_create_env_def ex_base_def no_coroutines_def)

lemma ex_create:
  "co_create_env (Some 3) 0 0 (Some (ex_sh 0)) 0 [] 3 ex_w0 = Some (Some (ex_sh 1), ex_w1)"
  "co_create_env (Some 2) 0 0 (Some (ex_sh 1)) 0 [] 2 ex_w1 = Some (Some (ex_sh 2), ex_w2)"
  by (simp_all add: ex_simps co_create_env_def co_get_stackmem_def)

lemma ex_resume: "co_resume 3 0 ex_w2 = Some ex_w3" "co_resume 2 2 ex_w4 = Some ex_w5" 
  by (simp_all add: ex_simps co_resume_def swap_out_def GetCurrCo_def)

lemma ex_yield: "co_yield_env 3 ex_w6 = Some ex_w7"
  by (simp add: ex_simps co_yield_env_def swap_out_def swap_in_def numeral_nat)

lemma ex_run: "upd_mem 7 (\<lambda>s. s\<lparr>sm_stack_buffer := ''wxyz''\<rparr>) ex_w3 = ex_w4" "upd_mem 7 (\<lambda>s. s\<lparr>sm_stack_buffer := ''1234''\<rparr>) ex_w5 = ex_w6"
  by (simp_all add: ex_simps)

lemma ex_steps: "co_step\<^sup>*\<^sup>* ex_w0 ex_w4"
proof -
  have "co_step ex_w0 ex_w1" by (rule co_step.create_shared [OF _ _ _ ex_create(1)]) (simp_all add: ex_simps)
  moreover have "co_step ex_w1 ex_w2" by (rule co_step.create_shared [OF _ _ _ ex_create(2)]) (simp_all add: ex_simps)
  moreover have "co_step ex_w2 ex_w3" by (rule co_step.resume [OF _ _ _ ex_resume(1), where c = 0]) (simp_all add: ex_simps GetCurrCo_def)
  moreover have "co_step ex_w3 (upd_mem (mem_of ex_w3 3) (\<lambda>s. s\<lparr>sm_stack_buffer := ''wxyz''\<rparr>) ex_w3)"
    by (rule co_step.run) (simp_all add: ex_simps GetCurrCo_def)
  moreover have "mem_of ex_w3 3 = 7" by (simp add: ex_simps)
  ultimately show ?thesis by (simp add: ex_run)
qed

lemma ex_away: "(away 3)\<^sup>*\<^sup>* ex_w5 ex_w7"
proof -
  have "co_step ex_w5 (upd_mem (mem_of ex_w5 2) (\<lambda>s. s\<lparr>sm_stack_buffer := ''1234''\<rparr>) ex_w5)"
    by (rule co_step.run) (simp_all add: ex_simps GetCurrCo_def)
  moreover have "mem_of ex_w5 2 = 7" by (simp add: ex_simps)
  ultimately have "away 3 ex_w5 ex_w6" by (simp add: ex_run away_def) (simp add: ex_world_def GetCurrCo_def)
  moreover have "co_step ex_w6 ex_w7" by (rule co_step.yield [OF _ _ ex_yield, where c = 2]) (simp_all add: ex_simps GetCurrCo_def)
  then have "away 3 ex_w6 ex_w7" by (simp add: away_def ex_world_def GetCurrCo_def)
  ultimately show ?thesis by simp
qed


text \<open>
  C13: Coroutines that share a stack do not lose it. In a thread that has done any number of steps (creating
  coroutines, resuming them, yielding, writing to the stack of the running coroutine), let a coroutine \<open>c\<close> on
  a shared stack stop running, with its stack pointer at \<open>sp\<close>. Whatever the other coroutines do until \<open>c\<close> runs
  again, on the same stack or not, \<open>c\<close> then finds its stack pointer and all bytes above it as it left them.
\<close>

theorem libco_stack_restored:
  assumes "no_coroutines base" "co_init_curr_thread_env mem buf self base = Some w0" "co_step\<^sup>*\<^sup>* w0 w"
    and "shared w c" "leaves c sp w w1" "(away c)\<^sup>*\<^sup>* w1 w2" "GetCurrCo w2 = Some c"
  shows "co_stack_sp (cw_co w2 c) = sp \<and> live_stack w2 c = drop sp (stack_bytes w c)"
proof -
  have inv: "thread_inv w" using thread_steps_inv [OF assms(3) thread_init_inv [OF assms(1,2)]] .
  then have inv1: "thread_inv w1" using co_step_keeps [OF leaves_step [OF assms(5)]] by blast
  note h = leaves_held [OF inv assms(5,4)]
  show ?thesis using away_kept [OF assms(6) inv1] h assms(7) by simp
qed

theorem libco_stack_restored_witness:
  "no_coroutines ex_base \<and> co_init_curr_thread_env 0 [] 0 ex_base = Some ex_w0 \<and> co_step\<^sup>*\<^sup>* ex_w0 ex_w4 \<and>
   shared ex_w4 3 \<and> leaves 3 2 ex_w4 ex_w5 \<and> (away 3)\<^sup>*\<^sup>* ex_w5 ex_w7 \<and> GetCurrCo ex_w7 = Some 3 \<and>
   stack_bytes ex_w6 2 = ''1234'' \<and> live_stack ex_w7 3 = ''yz''"
proof -
  have sh: "shared ex_w4 3" and cur: "GetCurrCo ex_w7 = Some 3" and b: "stack_bytes ex_w4 3 = ''wxyz''" "stack_bytes ex_w6 2 = ''1234''"
    by (simp_all add: ex_simps GetCurrCo_def)
  have lv: "leaves 3 2 ex_w4 ex_w5" unfolding leaves_def using ex_resume(2)
    by (intro conjI disjI1 exI [of _ 2]) (simp_all add: b(1), simp add: ex_world_def GetCurrCo_def)
  show ?thesis
    using libco_stack_restored [OF ex_init(2,1) ex_steps sh lv ex_away cur] ex_init ex_steps sh lv ex_away cur b by simp
qed

end
