(* ===== verification/Muduo_Tcp.thy ===== *)
theory Muduo_Tcp
  imports Mucgi_Main
begin

unbundle bit_operations_syntax

text \<open>
  Connections of muduo: \<^verbatim>\<open>Channel\<close> and \<^verbatim>\<open>TcpConnection\<close> (\<^verbatim>\<open>src/mucgi/muduo_net\<close>), the part of
  \<^verbatim>\<open>TcpServer\<close> and \<^verbatim>\<open>EventLoop\<close> they call, and the connection of the muCGI server to them
  (\<^verbatim>\<open>onConnection\<close> of \<^verbatim>\<open>src/mucgi/main.cpp\<close>).

  The bytes written to the socket, the shutdown of its writing half, the functors queued in the loop and
  the calls of the user's callbacks are part of the state. The results of \<^verbatim>\<open>readv\<close>, \<^verbatim>\<open>write\<close> and
  \<^verbatim>\<open>poll\<close> are parameters. A failed assertion is \<open>None\<close>. Log lines, addresses and the options of the
  socket are not modelled.
\<close>

section \<open>Channel\<close>

definition ev_IN :: u32 where "ev_IN = 0x1"
definition ev_PRI :: u32 where "ev_PRI = 0x2"
definition ev_OUT :: u32 where "ev_OUT = 0x4"
definition ev_HUP :: u32 where "ev_HUP = 0x10"
definition ev_RDHUP :: u32 where "ev_RDHUP = 0x2000"

definition kNoneEvent :: u32 where "kNoneEvent = 0"
definition kReadEvent :: u32 where "kReadEvent = ev_IN OR ev_PRI"
definition kWriteEvent :: u32 where "kWriteEvent = ev_OUT"

record Channel =
  chn_fd :: int
  chn_events :: u32
  chn_tied :: bool
  chn_eventHandling :: bool
  chn_addedToLoop :: bool

definition new_Channel :: "int \<Rightarrow> Channel" where
  "new_Channel fd = \<lparr>chn_fd = fd, chn_events = 0, chn_tied = False, chn_eventHandling = False, chn_addedToLoop = False\<rparr>"

definition chn_update :: "Channel \<Rightarrow> Channel" where
  "chn_update ch = ch\<lparr>chn_addedToLoop := True\<rparr>"

definition enableReading :: "Channel \<Rightarrow> Channel" where
  "enableReading ch = chn_update (ch\<lparr>chn_events := chn_events ch OR kReadEvent\<rparr>)"

definition disableReading :: "Channel \<Rightarrow> Channel" where
  "disableReading ch = chn_update (ch\<lparr>chn_events := chn_events ch AND NOT kReadEvent\<rparr>)"

definition enableWriting :: "Channel \<Rightarrow> Channel" where
  "enableWriting ch = chn_update (ch\<lparr>chn_events := chn_events ch OR kWriteEvent\<rparr>)"

definition disableWriting :: "Channel \<Rightarrow> Channel" where
  "disableWriting ch = chn_update (ch\<lparr>chn_events := chn_events ch AND NOT kWriteEvent\<rparr>)"

definition disableAll :: "Channel \<Rightarrow> Channel" where
  "disableAll ch = chn_update (ch\<lparr>chn_events := kNoneEvent\<rparr>)"

definition isWriting :: "Channel \<Rightarrow> bool" where
  "isWriting ch \<longleftrightarrow> chn_events ch AND kWriteEvent \<noteq> 0"

definition isReading :: "Channel \<Rightarrow> bool" where
  "isReading ch \<longleftrightarrow> chn_events ch AND kReadEvent \<noteq> 0"

definition isNoneEvent :: "Channel \<Rightarrow> bool" where
  "isNoneEvent ch \<longleftrightarrow> chn_events ch = kNoneEvent"

definition chn_tie :: "Channel \<Rightarrow> Channel" where
  "chn_tie ch = ch\<lparr>chn_tied := True\<rparr>"

definition chn_remove :: "Channel \<Rightarrow> Channel option" where
  "chn_remove ch = do { assert_opt (isNoneEvent ch); Some (ch\<lparr>chn_addedToLoop := False\<rparr>) }"

section \<open>Connection\<close>

datatype StateE = kDisconnected | kConnecting | kConnected | kDisconnecting

datatype loop_functor = FWriteComplete | FHighWaterMark nat | FSendInLoop bytes | FShutdownInLoop | FForceCloseInLoop | FConnectDestroyed

datatype user_call = OnConnection bool | OnWriteComplete | OnHighWaterMark nat

record 'a TcpConnection =
  tc_state :: StateE
  tc_reading :: bool
  tc_channel :: Channel
  tc_writeComplete :: bool
  tc_highWaterMarkCallback :: bool
  tc_highWaterMark :: nat
  tc_inputBuffer :: Buffer
  tc_outputBuffer :: Buffer
  tc_context :: 'a
  tc_wire :: bytes
  tc_shutWrite :: bool
  tc_functors :: "loop_functor list"
  tc_calls :: "user_call list"
  tc_timers :: nat
  tc_inServer :: bool

definition new_TcpConnection :: "int \<Rightarrow> 'a \<Rightarrow> 'a TcpConnection" where
  "new_TcpConnection sockfd x =
     \<lparr>tc_state = kConnecting, tc_reading = True, tc_channel = new_Channel sockfd, tc_writeComplete = False,
      tc_highWaterMarkCallback = False, tc_highWaterMark = 64 * 1024 * 1024, tc_inputBuffer = new_Buffer kInitialSize,
      tc_outputBuffer = new_Buffer kInitialSize, tc_context = x, tc_wire = [], tc_shutWrite = False, tc_functors = [],
      tc_calls = [], tc_timers = 0, tc_inServer = False\<rparr>"

text \<open>
  \<^verbatim>\<open>TcpServer::newConnection\<close> puts a new connection into the map of the server and gives it the server's
  callbacks; \<^verbatim>\<open>connectEstablished\<close> follows in the loop of the connection.
\<close>

definition newConnection :: "int \<Rightarrow> bool \<Rightarrow> 'a \<Rightarrow> 'a TcpConnection" where
  "newConnection sockfd wcb x = (new_TcpConnection sockfd x)\<lparr>tc_writeComplete := wcb, tc_inServer := True\<rparr>"

definition EWOULDBLOCK :: int where "EWOULDBLOCK = 11"
definition EPIPE :: int where "EPIPE = 32"
definition ECONNRESET :: int where "ECONNRESET = 104"

text \<open>The result of \<^verbatim>\<open>write\<close>, for the bytes written so far and the length: an error number or a count.\<close>

type_synonym sock_write = "nat \<Rightarrow> nat \<Rightarrow> int + nat"

definition sendInLoop :: "sock_write \<Rightarrow> bytes \<Rightarrow> 'a TcpConnection \<Rightarrow> 'a TcpConnection option" where
  "sendInLoop w data c =
     (if tc_state c = kDisconnected then Some c
      else
        let direct = \<not> isWriting (tc_channel c) \<and> readableBytes (tc_outputBuffer c) = 0;
            r = w (length (tc_wire c)) (length data);
            nwrote = (if direct then case r of Inr n \<Rightarrow> n | Inl e \<Rightarrow> 0 else 0);
            remaining = length data - nwrote;
            faultError = (direct \<and> (case r of Inl e \<Rightarrow> e \<noteq> EWOULDBLOCK \<and> (e = EPIPE \<or> e = ECONNRESET) | Inr n \<Rightarrow> False));
            c1 = c\<lparr>tc_wire := tc_wire c @ take nwrote data,
                   tc_functors := tc_functors c @
                     (if direct \<and> \<not> isl r \<and> remaining = 0 \<and> tc_writeComplete c then [FWriteComplete] else [])\<rparr>
        in do {
          assert_opt (nwrote \<le> length data);
          if \<not> faultError \<and> 0 < remaining then do {
            let oldLen = readableBytes (tc_outputBuffer c1);
            let c2 = (if tc_highWaterMark c1 \<le> oldLen + remaining \<and> oldLen < tc_highWaterMark c1 \<and> tc_highWaterMarkCallback c1
                      then c1\<lparr>tc_functors := tc_functors c1 @ [FHighWaterMark (oldLen + remaining)]\<rparr> else c1);
            out \<leftarrow> append (drop nwrote data) remaining (tc_outputBuffer c2);
            Some (c2\<lparr>tc_outputBuffer := out,
                     tc_channel := (if \<not> isWriting (tc_channel c2) then enableWriting (tc_channel c2) else tc_channel c2)\<rparr>)
          }
          else Some c1
        })"

text \<open>\<open>inLoop\<close> tells whether the caller is the thread of the loop.\<close>

definition tcp_send :: "bool \<Rightarrow> sock_write \<Rightarrow> bytes \<Rightarrow> 'a TcpConnection \<Rightarrow> 'a TcpConnection option" where
  "tcp_send inLoop w message c =
     (if tc_state c = kConnected then
        if inLoop then sendInLoop w message c
        else Some (c\<lparr>tc_functors := tc_functors c @ [FSendInLoop message]\<rparr>)
      else Some c)"

definition shutdownInLoop :: "'a TcpConnection \<Rightarrow> 'a TcpConnection" where
  "shutdownInLoop c = (if \<not> isWriting (tc_channel c) then c\<lparr>tc_shutWrite := True\<rparr> else c)"

definition tcp_shutdown :: "bool \<Rightarrow> 'a TcpConnection \<Rightarrow> 'a TcpConnection" where
  "tcp_shutdown inLoop c =
     (if tc_state c = kConnected then
        let c1 = c\<lparr>tc_state := kDisconnecting\<rparr>
        in if inLoop then shutdownInLoop c1 else c1\<lparr>tc_functors := tc_functors c1 @ [FShutdownInLoop]\<rparr>
      else c)"

definition tcp_send_buffer :: "bool \<Rightarrow> sock_write \<Rightarrow> Buffer \<Rightarrow> 'a TcpConnection \<Rightarrow> (Buffer \<times> 'a TcpConnection) option" where
  "tcp_send_buffer inLoop w buf c =
     (if tc_state c = kConnected then
        if inLoop then do { c1 \<leftarrow> sendInLoop w (content buf) c; Some (retrieveAll buf, c1) }
        else do {
          (message, buf1) \<leftarrow> retrieveAllAsString buf;
          Some (buf1, c\<lparr>tc_functors := tc_functors c @ [FSendInLoop message]\<rparr>)
        }
      else Some (buf, c))"

text \<open>
  The connection callback of the user is a parameter; the close callback is \<^verbatim>\<open>TcpServer::removeConnection\<close>,
  which runs in the same loop.
\<close>

type_synonym 'a on_connection = "'a TcpConnection \<Rightarrow> 'a TcpConnection"

definition call_connection :: "'a on_connection \<Rightarrow> 'a TcpConnection \<Rightarrow> 'a TcpConnection" where
  "call_connection cc c = cc (c\<lparr>tc_calls := tc_calls c @ [OnConnection (tc_state c = kConnected)]\<rparr>)"

definition removeConnectionInLoop :: "'a TcpConnection \<Rightarrow> 'a TcpConnection option" where
  "removeConnectionInLoop c = do {
     assert_opt (tc_inServer c);
     Some (c\<lparr>tc_inServer := False, tc_functors := tc_functors c @ [FConnectDestroyed]\<rparr>)
   }"

definition connectEstablished :: "'a on_connection \<Rightarrow> 'a TcpConnection \<Rightarrow> 'a TcpConnection option" where
  "connectEstablished cc c = do {
     assert_opt (tc_state c = kConnecting);
     Some (call_connection cc (c\<lparr>tc_state := kConnected, tc_channel := enableReading (chn_tie (tc_channel c))\<rparr>))
   }"

definition connectDestroyed :: "'a on_connection \<Rightarrow> 'a TcpConnection \<Rightarrow> 'a TcpConnection option" where
  "connectDestroyed cc c = do {
     let c1 = (if tc_state c = kConnected
               then call_connection cc (c\<lparr>tc_state := kDisconnected, tc_channel := disableAll (tc_channel c)\<rparr>) else c);
     ch \<leftarrow> chn_remove (tc_channel c1);
     Some (c1\<lparr>tc_channel := ch\<rparr>)
   }"

definition tcp_handleClose :: "'a on_connection \<Rightarrow> 'a TcpConnection \<Rightarrow> 'a TcpConnection option" where
  "tcp_handleClose cc c = do {
     assert_opt (tc_state c = kConnected \<or> tc_state c = kDisconnecting);
     removeConnectionInLoop
       (call_connection cc (c\<lparr>tc_state := kDisconnected, tc_channel := disableAll (tc_channel c)\<rparr>))
   }"

definition forceCloseInLoop :: "'a on_connection \<Rightarrow> 'a TcpConnection \<Rightarrow> 'a TcpConnection option" where
  "forceCloseInLoop cc c =
     (if tc_state c = kConnected \<or> tc_state c = kDisconnecting then tcp_handleClose cc c else Some c)"

definition forceClose :: "'a TcpConnection \<Rightarrow> 'a TcpConnection" where
  "forceClose c =
     (if tc_state c = kConnected \<or> tc_state c = kDisconnecting
      then c\<lparr>tc_state := kDisconnecting, tc_functors := tc_functors c @ [FForceCloseInLoop]\<rparr> else c)"

definition forceCloseWithDelay :: "'a TcpConnection \<Rightarrow> 'a TcpConnection" where
  "forceCloseWithDelay c =
     (if tc_state c = kConnected \<or> tc_state c = kDisconnecting
      then c\<lparr>tc_state := kDisconnecting, tc_timers := Suc (tc_timers c)\<rparr> else c)"

definition startReadInLoop :: "'a TcpConnection \<Rightarrow> 'a TcpConnection" where
  "startReadInLoop c =
     (if \<not> tc_reading c \<or> \<not> isReading (tc_channel c)
      then c\<lparr>tc_channel := enableReading (tc_channel c), tc_reading := True\<rparr> else c)"

definition stopReadInLoop :: "'a TcpConnection \<Rightarrow> 'a TcpConnection" where
  "stopReadInLoop c =
     (if tc_reading c \<or> isReading (tc_channel c)
      then c\<lparr>tc_channel := disableReading (tc_channel c), tc_reading := False\<rparr> else c)"

text \<open>
  The message callback works on the input buffer and the context of the connection and asks for data to
  be sent and for the connection to be shut down.
\<close>

type_synonym 'a on_message = "Buffer \<Rightarrow> 'a \<Rightarrow> (bytes conn_effect list \<times> Buffer \<times> 'a) option"

primrec do_effects :: "sock_write \<Rightarrow> bytes conn_effect list \<Rightarrow> 'a TcpConnection \<Rightarrow> 'a TcpConnection option" where
  "do_effects w [] c = Some c"
| "do_effects w (e # es) c =
     (case e of
        Cb out \<Rightarrow> Option.bind (tcp_send True w out c) (do_effects w es)
      | Shutdown \<Rightarrow> do_effects w es (tcp_shutdown True c))"

definition call_message :: "'a on_message \<Rightarrow> sock_write \<Rightarrow> 'a TcpConnection \<Rightarrow> 'a TcpConnection option" where
  "call_message msg w c = do {
     (es, buf, x) \<leftarrow> msg (tc_inputBuffer c) (tc_context c);
     do_effects w es (c\<lparr>tc_inputBuffer := buf, tc_context := x\<rparr>)
   }"

definition tcp_handleRead ::
  "'a on_connection \<Rightarrow> 'a on_message \<Rightarrow> sock_write \<Rightarrow> int + bytes \<Rightarrow> 'a TcpConnection \<Rightarrow> 'a TcpConnection option" where
  "tcp_handleRead cc msg w r c = do {
     (n, savedErrno, buf) \<leftarrow> readFd r (tc_inputBuffer c);
     let c1 = c\<lparr>tc_inputBuffer := buf\<rparr>;
     if 0 < n then call_message msg w c1
     else if n = 0 then tcp_handleClose cc c1
     else Some c1
   }"

definition tcp_handleWrite :: "sock_write \<Rightarrow> 'a TcpConnection \<Rightarrow> 'a TcpConnection option" where
  "tcp_handleWrite w c =
     (if isWriting (tc_channel c) then
        case w (length (tc_wire c)) (readableBytes (tc_outputBuffer c)) of
          Inr n \<Rightarrow>
            if 0 < n then do {
              out \<leftarrow> retrieve n (tc_outputBuffer c);
              let c1 = c\<lparr>tc_wire := tc_wire c @ take n (content (tc_outputBuffer c)), tc_outputBuffer := out\<rparr>;
              if readableBytes out = 0 then
                let c2 = c1\<lparr>tc_channel := disableWriting (tc_channel c1)\<rparr>;
                    c3 = (if tc_writeComplete c2 then c2\<lparr>tc_functors := tc_functors c2 @ [FWriteComplete]\<rparr> else c2)
                in Some (if tc_state c3 = kDisconnecting then shutdownInLoop c3 else c3)
              else Some c1
            }
            else Some c
        | Inl e \<Rightarrow> Some c
      else Some c)"

section \<open>Event loop\<close>

definition set_handling :: "bool \<Rightarrow> 'a TcpConnection \<Rightarrow> 'a TcpConnection" where
  "set_handling b c = c\<lparr>tc_channel := (tc_channel c)\<lparr>chn_eventHandling := b\<rparr>\<rparr>"

text \<open>\<^verbatim>\<open>errorCallback_\<close> only writes to the log.\<close>

definition handleEventWithGuard ::
  "'a on_connection \<Rightarrow> 'a on_message \<Rightarrow> sock_write \<Rightarrow> u32 \<Rightarrow> int + bytes \<Rightarrow> 'a TcpConnection \<Rightarrow> 'a TcpConnection option" where
  "handleEventWithGuard cc msg w revents r c = do {
     let c0 = set_handling True c;
     c1 \<leftarrow> (if revents AND ev_HUP \<noteq> 0 \<and> revents AND ev_IN = 0 then tcp_handleClose cc c0 else Some c0);
     c2 \<leftarrow> (if revents AND (ev_IN OR ev_PRI OR ev_RDHUP) \<noteq> 0 then tcp_handleRead cc msg w r c1 else Some c1);
     c3 \<leftarrow> (if revents AND ev_OUT \<noteq> 0 then tcp_handleWrite w c2 else Some c2);
     Some (set_handling False c3)
   }"

definition run_functor :: "'a on_connection \<Rightarrow> sock_write \<Rightarrow> loop_functor \<Rightarrow> 'a TcpConnection \<Rightarrow> 'a TcpConnection option" where
  "run_functor cc w f c =
     (case f of
        FWriteComplete \<Rightarrow> Some (c\<lparr>tc_calls := tc_calls c @ [OnWriteComplete]\<rparr>)
      | FHighWaterMark n \<Rightarrow> Some (c\<lparr>tc_calls := tc_calls c @ [OnHighWaterMark n]\<rparr>)
      | FSendInLoop data \<Rightarrow> sendInLoop w data c
      | FShutdownInLoop \<Rightarrow> Some (shutdownInLoop c)
      | FForceCloseInLoop \<Rightarrow> forceCloseInLoop cc c
      | FConnectDestroyed \<Rightarrow> connectDestroyed cc c)"

primrec run_functors :: "'a on_connection \<Rightarrow> sock_write \<Rightarrow> loop_functor list \<Rightarrow> 'a TcpConnection \<Rightarrow> 'a TcpConnection option" where
  "run_functors cc w [] c = Some c"
| "run_functors cc w (f # fs) c = Option.bind (run_functor cc w f c) (run_functors cc w fs)"

definition doPendingFunctors :: "'a on_connection \<Rightarrow> sock_write \<Rightarrow> 'a TcpConnection \<Rightarrow> 'a TcpConnection option" where
  "doPendingFunctors cc w c = run_functors cc w (tc_functors c) (c\<lparr>tc_functors := []\<rparr>)"

section \<open>The muCGI server\<close>

definition onConnection :: "FastCgiCodec on_connection" where
  "onConnection c = (if tc_state c = kConnected then c\<lparr>tc_context := new_FastCgiCodec\<rparr> else c)"

definition mucgi_message :: "(ParamMap \<Rightarrow> ParamMap \<Rightarrow> bytes) \<Rightarrow> FastCgiCodec on_message" where
  "mucgi_message backend = onMessage (onRequest backend)"

section \<open>Lemmas\<close>

lemma bit_4: "bit (4 :: u32) n \<longleftrightarrow> n = 2"
  using bit_exp_iff [of 2 n, where ?'a = u32] by auto

lemma bit_2: "bit (2 :: u32) n \<longleftrightarrow> n = 1"
  using bit_exp_iff [of 1 n, where ?'a = u32] by auto

lemma event_bits:
  "isWriting ch \<longleftrightarrow> bit (chn_events ch) 2" "isReading ch \<longleftrightarrow> bit (chn_events ch) 0 \<or> bit (chn_events ch) 1"
proof -
  show "isWriting ch \<longleftrightarrow> bit (chn_events ch) 2"
    using and_exp_eq_0_iff_not_bit [of "chn_events ch" 2] by (simp add: isWriting_def kWriteEvent_def ev_OUT_def)
  have "chn_events ch AND kReadEvent = (chn_events ch AND 2 ^ 0) OR (chn_events ch AND 2 ^ 1)"
    unfolding kReadEvent_def ev_IN_def ev_PRI_def by (simp only: bit.conj_disj_distrib power_0 power_one_right numeral_One)
  then show "isReading ch \<longleftrightarrow> bit (chn_events ch) 0 \<or> bit (chn_events ch) 1"
    by (simp only: isReading_def or_eq_0_iff and_exp_eq_0_iff_not_bit) blast
qed

lemma bit_masks: "bit kWriteEvent n \<longleftrightarrow> n = 2" "bit kReadEvent n \<longleftrightarrow> n = 0 \<or> n = 1" "bit kNoneEvent n \<longleftrightarrow> False"
  unfolding kReadEvent_def ev_IN_def ev_PRI_def kWriteEvent_def ev_OUT_def kNoneEvent_def bit_or_iff bit_4 bit_2
  by (auto simp: bit_1_iff)

lemma channel_flags [simp]:
  "isWriting (enableReading ch) = isWriting ch" "isWriting (disableReading ch) = isWriting ch"
  "isWriting (enableWriting ch)" "\<not> isWriting (disableWriting ch)" "\<not> isWriting (disableAll ch)"
  "isReading (enableReading ch)" "\<not> isReading (disableReading ch)" "isReading (enableWriting ch) = isReading ch"
  "isReading (disableWriting ch) = isReading ch" "\<not> isReading (disableAll ch)" "isNoneEvent (disableAll ch)"
  "isWriting (ch\<lparr>chn_eventHandling := b\<rparr>) = isWriting ch" "isNoneEvent (ch\<lparr>chn_eventHandling := b\<rparr>) = isNoneEvent ch"
  "isReading (ch\<lparr>chn_eventHandling := b\<rparr>) = isReading ch"
  by (auto simp: event_bits enableReading_def disableReading_def enableWriting_def disableWriting_def disableAll_def chn_update_def
      isNoneEvent_def bit_or_iff bit_and_iff bit_not_iff bit_masks)

lemma none_not_writing: "isNoneEvent ch \<Longrightarrow> \<not> isWriting ch"
  by (simp add: isNoneEvent_def isWriting_def kNoneEvent_def)

text \<open>All bytes the connection has taken: those written and those that wait.\<close>

definition stream :: "'a TcpConnection \<Rightarrow> bytes" where
  "stream c = tc_wire c @ content (tc_outputBuffer c)"

definition is_open :: "'a TcpConnection \<Rightarrow> bool" where
  "is_open c \<longleftrightarrow> tc_state c = kConnected \<or> tc_state c = kDisconnecting"

definition loop_only :: "loop_functor \<Rightarrow> bool" where
  "loop_only f \<longleftrightarrow> (\<forall>d. f \<noteq> FSendInLoop d) \<and> f \<noteq> FShutdownInLoop \<and> f \<noteq> FForceCloseInLoop"

text \<open>
  A connection used from the thread of its loop: it waits for writing exactly while there is output, its
  writing half is shut down exactly when it is closing and everything has been written, and it leaves the
  poller when it is closed.
\<close>

definition tcp_ok :: "'a TcpConnection \<Rightarrow> bool" where
  "tcp_ok c \<longleftrightarrow> Buffer_inv (tc_inputBuffer c) \<and> Buffer_inv (tc_outputBuffer c) \<and> list_all loop_only (tc_functors c) \<and>
     tc_state c \<noteq> kConnecting \<and>
     (is_open c \<longrightarrow> (isWriting (tc_channel c) \<longleftrightarrow> content (tc_outputBuffer c) \<noteq> []) \<and> tc_inServer c \<and>
        FConnectDestroyed \<notin> set (tc_functors c) \<and>
        (tc_shutWrite c \<longleftrightarrow> tc_state c = kDisconnecting \<and> content (tc_outputBuffer c) = [])) \<and>
     (\<not> is_open c \<longrightarrow> isNoneEvent (tc_channel c))"

definition write_results_ok :: "sock_write \<Rightarrow> bool" where
  "write_results_ok w \<longleftrightarrow> (\<forall>k n. case w k n of Inr m \<Rightarrow> m \<le> n | Inl e \<Rightarrow> e \<noteq> EPIPE \<and> e \<noteq> ECONNRESET)"

lemma write_result_ok:
  assumes "write_results_ok w"
  shows "w k n = Inr m \<Longrightarrow> m \<le> n" "w k n = Inl e \<Longrightarrow> e \<noteq> EPIPE \<and> e \<noteq> ECONNRESET"
proof -
  have "case w k n of Inr m \<Rightarrow> m \<le> n | Inl e \<Rightarrow> e \<noteq> EPIPE \<and> e \<noteq> ECONNRESET" using assms by (simp add: write_results_ok_def)
  then show "w k n = Inr m \<Longrightarrow> m \<le> n" "w k n = Inl e \<Longrightarrow> e \<noteq> EPIPE \<and> e \<noteq> ECONNRESET" by simp_all
qed

text \<open>What \<^verbatim>\<open>sendInLoop\<close> does with \<open>n\<close> bytes written directly.\<close>

definition sent_some :: "nat \<Rightarrow> bytes \<Rightarrow> loop_functor list \<Rightarrow> 'a TcpConnection \<Rightarrow> 'a TcpConnection" where
  "sent_some n data fs c = c\<lparr>tc_wire := tc_wire c @ take n data, tc_functors := tc_functors c @ fs\<rparr>"

lemma sendInLoop_eq:
  assumes "tcp_ok c" "is_open c" "write_results_ok w"
  obtains n fs where "n \<le> length data" "content (tc_outputBuffer c) \<noteq> [] \<longrightarrow> n = 0" "list_all loop_only fs" "FConnectDestroyed \<notin> set fs"
    "sendInLoop w data c =
       (if n = length data then Some (sent_some n data fs c)
        else do {
          out \<leftarrow> append (drop n data) (length data - n) (tc_outputBuffer c);
          Some ((sent_some n data fs c)\<lparr>tc_outputBuffer := out,
            tc_channel := (if \<not> isWriting (tc_channel c) then enableWriting (tc_channel c) else tc_channel c)\<rparr>)
        })"
proof -
  have st: "tc_state c \<noteq> kDisconnected" using assms(2) by (auto simp: is_open_def)
  define r where "r = w (length (tc_wire c)) (length data)"
  define old where "old = length (content (tc_outputBuffer c))"
  define n where "n = (if old = 0 then case r of Inr n \<Rightarrow> n | Inl e \<Rightarrow> 0 else 0)"
  define f1 where "f1 = (if old = 0 \<and> \<not> isl r \<and> length data - n = 0 \<and> tc_writeComplete c then [FWriteComplete] else [])"
  define f2 where "f2 = (if n < length data \<and> tc_highWaterMark c \<le> old + (length data - n) \<and> old < tc_highWaterMark c \<and> tc_highWaterMarkCallback c
     then [FHighWaterMark (old + (length data - n))] else [])"
  have rd: "readableBytes (tc_outputBuffer c) = old" using assms(1) by (simp add: tcp_ok_def old_def)
  have wr: "isWriting (tc_channel c) \<longleftrightarrow> old \<noteq> 0" using assms(1,2) by (simp add: tcp_ok_def old_def del: length_content)
  have n: "n \<le> length data" using write_result_ok(1) [OF assms(3)] by (auto simp: n_def r_def split: sum.splits)
  have fault: "(case r of Inl e \<Rightarrow> e \<noteq> EWOULDBLOCK \<and> (e = EPIPE \<or> e = ECONNRESET) | Inr n \<Rightarrow> False) = False"
    using write_result_ok(2) [OF assms(3)] by (auto simp: r_def split: sum.splits)
  have direct: "(\<not> isWriting (tc_channel c) \<and> readableBytes (tc_outputBuffer c) = 0) = (old = 0)" by (simp add: rd wr)
  have eq: "sendInLoop w data c =
       (if 0 < length data - n then do {
          out \<leftarrow> append (drop n data) (length data - n) (tc_outputBuffer c);
          Some ((sent_some n data (f1 @ f2) c)\<lparr>tc_outputBuffer := out,
            tc_channel := (if \<not> isWriting (tc_channel c) then enableWriting (tc_channel c) else tc_channel c)\<rparr>)
        }
        else Some (sent_some n data f1 c))"
    unfolding sendInLoop_def Let_def direct r_def [symmetric] n_def [symmetric] f1_def [symmetric] fault
    using st n by (simp add: rd f2_def sent_some_def assert_opt_def)
  have f2: "f2 = []" if "n = length data" using that by (simp add: f2_def)
  show thesis
  proof (rule that [of n "f1 @ f2"])
    show "sendInLoop w data c =
       (if n = length data then Some (sent_some n data (f1 @ f2) c)
        else do {
          out \<leftarrow> append (drop n data) (length data - n) (tc_outputBuffer c);
          Some ((sent_some n data (f1 @ f2) c)\<lparr>tc_outputBuffer := out,
            tc_channel := (if \<not> isWriting (tc_channel c) then enableWriting (tc_channel c) else tc_channel c)\<rparr>)
        })"
      using n f2 unfolding eq by (cases "n = length data") simp_all
    show "content (tc_outputBuffer c) \<noteq> [] \<longrightarrow> n = 0" by (simp add: n_def old_def)
  qed (use n in \<open>simp_all add: f1_def f2_def loop_only_def\<close>)
qed

text \<open>What a send leaves alone.\<close>

definition same_but_output :: "'a TcpConnection \<Rightarrow> 'a TcpConnection \<Rightarrow> bool" where
  "same_but_output c c' \<longleftrightarrow> tc_inputBuffer c' = tc_inputBuffer c \<and> tc_context c' = tc_context c \<and> tc_calls c' = tc_calls c"

lemma sendInLoop_ok:
  assumes ok: "tcp_ok c" "tc_state c = kConnected" and w: "write_results_ok w"
  obtains c' where "sendInLoop w data c = Some c'" "tcp_ok c'" "tc_state c' = kConnected" "stream c' = stream c @ data" "same_but_output c c'"
proof -
  have op: "is_open c" using ok(2) by (simp add: is_open_def)
  obtain n fs where n: "n \<le> length data" "content (tc_outputBuffer c) \<noteq> [] \<longrightarrow> n = 0" "list_all loop_only fs" "FConnectDestroyed \<notin> set fs"
    and eq: "sendInLoop w data c =
       (if n = length data then Some (sent_some n data fs c)
        else do {
          out \<leftarrow> append (drop n data) (length data - n) (tc_outputBuffer c);
          Some ((sent_some n data fs c)\<lparr>tc_outputBuffer := out,
            tc_channel := (if \<not> isWriting (tc_channel c) then enableWriting (tc_channel c) else tc_channel c)\<rparr>)
        })"
    by (rule sendInLoop_eq [OF ok(1) op w])
  have old: "content (tc_outputBuffer c) = [] \<or> n = 0" using n(2) by blast
  show thesis
  proof (cases "n = length data")
    case True
    have "tcp_ok (sent_some n data fs c)" using ok n(3,4) by (simp add: tcp_ok_def sent_some_def is_open_def)
    moreover have "stream (sent_some n data fs c) = stream c @ data" using old True by (auto simp: stream_def sent_some_def)
    ultimately show thesis using eq True ok(2) by (intro that [of "sent_some n data fs c"]) (simp_all add: sent_some_def same_but_output_def)
  next
    case False
    have "Buffer_inv (tc_outputBuffer c)" using ok(1) by (simp add: tcp_ok_def)
    then obtain out where out: "append (drop n data) (length data - n) (tc_outputBuffer c) = Some out" "Buffer_inv out"
      "content out = content (tc_outputBuffer c) @ take (length data - n) (drop n data)"
      by (rule append_total [where len = "length data - n" and data = "drop n data"]) simp_all
    let ?c = "(sent_some n data fs c)\<lparr>tc_outputBuffer := out,
      tc_channel := (if \<not> isWriting (tc_channel c) then enableWriting (tc_channel c) else tc_channel c)\<rparr>"
    have con: "content out = content (tc_outputBuffer c) @ drop n data" using out(3) by simp
    moreover have "content out \<noteq> []" using False n(1) con by simp
    ultimately have "tcp_ok ?c" using ok n(3,4) out(2) by (simp add: tcp_ok_def sent_some_def is_open_def)
    moreover have "stream ?c = stream c @ data" using old con by (auto simp: stream_def sent_some_def)
    ultimately show thesis using eq False out(1) ok(2) by (intro that [of ?c]) (simp_all add: sent_some_def same_but_output_def)
  qed
qed

text \<open>The bytes a callback asks to send before it asks for the shutdown.\<close>

fun sent_before :: "bytes conn_effect list \<Rightarrow> bytes" where
  "sent_before [] = []"
| "sent_before (Cb out # es) = out @ sent_before es"
| "sent_before (Shutdown # es) = []"

lemma sent_before_append: "sent_before (es @ fs) = sent_before es @ (if Shutdown \<in> set es then [] else sent_before fs)"
  by (induction es rule: sent_before.induct) simp_all

lemma shutdown_ok:
  assumes "tcp_ok c" "is_open c"
  shows "tcp_ok (tcp_shutdown True c)" "tc_state (tcp_shutdown True c) = kDisconnecting" "stream (tcp_shutdown True c) = stream c"
    "same_but_output c (tcp_shutdown True c)"
  using assms by (auto simp: tcp_shutdown_def shutdownInLoop_def tcp_ok_def is_open_def stream_def same_but_output_def Let_def)

lemma do_effects_ok:
  assumes "tcp_ok c" "is_open c" "write_results_ok w"
  shows "\<exists>c'. do_effects w es c = Some c' \<and> tcp_ok c' \<and> same_but_output c c' \<and>
    stream c' = stream c @ (if tc_state c = kConnected then sent_before es else []) \<and>
    tc_state c' = (if tc_state c = kConnected \<and> Shutdown \<notin> set es then kConnected else kDisconnecting)"
  using assms(1,2)
proof (induction es arbitrary: c)
  case Nil
  then show ?case by (auto simp: is_open_def same_but_output_def)
next
  case (Cons e es)
  show ?case
  proof (cases e)
    case (Cb out)
    show ?thesis
    proof (cases "tc_state c = kConnected")
      case True
      obtain c1 where c1: "sendInLoop w out c = Some c1" "tcp_ok c1" "tc_state c1 = kConnected" "stream c1 = stream c @ out" "same_but_output c c1"
        by (rule sendInLoop_ok [OF Cons.prems(1) True assms(3)])
      from Cons.IH [OF c1(2)] c1(3) obtain c' where "do_effects w es c1 = Some c'" "tcp_ok c'" "same_but_output c1 c'"
        "stream c' = stream c1 @ sent_before es" "tc_state c' = (if Shutdown \<notin> set es then kConnected else kDisconnecting)"
        by (auto simp: is_open_def)
      then show ?thesis using Cb True c1 by (intro exI [of _ c']) (simp add: tcp_send_def same_but_output_def)
    next
      case False
      then show ?thesis using Cons.IH [OF Cons.prems] Cb by (simp add: tcp_send_def)
    qed
  next
    case Shutdown
    note sh = shutdown_ok [OF Cons.prems]
    have "is_open (tcp_shutdown True c)" using sh(2) by (simp add: is_open_def)
    from Cons.IH [OF sh(1) this] sh(2) obtain c' where "do_effects w es (tcp_shutdown True c) = Some c'" "tcp_ok c'"
      "same_but_output (tcp_shutdown True c) c'" "stream c' = stream (tcp_shutdown True c)" "tc_state c' = kDisconnecting"
      by auto
    then show ?thesis using Shutdown sh by (intro exI [of _ c']) (simp add: same_but_output_def)
  qed
qed

text \<open>The user's connection callback sets the context, as \<^verbatim>\<open>onConnection\<close> does.\<close>

definition context_only :: "'a on_connection \<Rightarrow> bool" where
  "context_only cc \<longleftrightarrow> (\<forall>c. cc c = c\<lparr>tc_context := tc_context (cc c)\<rparr>)"

lemma onConnection_context: "context_only onConnection"
  by (simp add: context_only_def onConnection_def)

lemma call_connection_fields:
  assumes "context_only cc"
  shows "\<exists>x. call_connection cc c = c\<lparr>tc_calls := tc_calls c @ [OnConnection (tc_state c = kConnected)], tc_context := x\<rparr>"
proof -
  let ?c = "c\<lparr>tc_calls := tc_calls c @ [OnConnection (tc_state c = kConnected)]\<rparr>"
  have "cc ?c = ?c\<lparr>tc_context := tc_context (cc ?c)\<rparr>" using assms by (simp only: context_only_def)
  then show ?thesis by (intro exI [of _ "tc_context (cc ?c)"]) (simp add: call_connection_def)
qed

lemma handleClose_ok:
  assumes "tcp_ok c" "is_open c" "context_only cc"
  shows "\<exists>c'. tcp_handleClose cc c = Some c' \<and> tcp_ok c' \<and> tc_state c' = kDisconnected \<and> stream c' = stream c"
proof -
  let ?c = "c\<lparr>tc_state := kDisconnected, tc_channel := disableAll (tc_channel c)\<rparr>"
  obtain x where x: "call_connection cc ?c = ?c\<lparr>tc_calls := tc_calls c @ [OnConnection False], tc_context := x\<rparr>"
    using call_connection_fields [OF assms(3), of ?c] by auto
  moreover have "tc_inServer c" using assms(1,2) by (simp add: tcp_ok_def)
  ultimately show ?thesis using assms(1,2)
    by (simp add: tcp_handleClose_def removeConnectionInLoop_def assert_opt_def is_open_def tcp_ok_def stream_def loop_only_def)
qed

lemma handleWrite_ok:
  assumes "tcp_ok c" "write_results_ok w"
  shows "\<exists>c'. tcp_handleWrite w c = Some c' \<and> tcp_ok c' \<and> tc_state c' = tc_state c \<and> stream c' = stream c \<and> same_but_output c c'"
proof (cases "isWriting (tc_channel c) \<and> (\<exists>n > 0. w (length (tc_wire c)) (readableBytes (tc_outputBuffer c)) = Inr n)")
  case True
  then obtain n where n: "0 < n" "w (length (tc_wire c)) (readableBytes (tc_outputBuffer c)) = Inr n" by blast
  have le: "n \<le> readableBytes (tc_outputBuffer c)" using write_result_ok(1) [OF assms(2) n(2)] .
  have op: "is_open c" using assms(1) True none_not_writing by (auto simp: tcp_ok_def)
  have inv: "Buffer_inv (tc_outputBuffer c)" using assms(1) by (simp add: tcp_ok_def)
  obtain out where out: "retrieve n (tc_outputBuffer c) = Some out" "Buffer_inv out" "content out = drop n (content (tc_outputBuffer c))"
    "readableBytes out = readableBytes (tc_outputBuffer c) - n" by (rule retrieve_total [OF inv le])
  have nil: "readableBytes out = 0 \<longleftrightarrow> content out = []" using length_content [OF out(2)] by (metis length_0_conv)
  have str: "tc_wire c @ take n (content (tc_outputBuffer c)) @ content out = stream c" by (simp add: out(3) stream_def)
  have ne: "content (tc_outputBuffer c) \<noteq> []" using True op assms(1) by (simp add: tcp_ok_def)
  show ?thesis
  proof (cases "content out = []")
    case True
    then show ?thesis using n out assms(1) op ne str nil \<open>isWriting _ \<and> _\<close>
      by (auto simp: tcp_handleWrite_def Let_def tcp_ok_def is_open_def shutdownInLoop_def stream_def same_but_output_def loop_only_def)
  next
    case False
    then show ?thesis using n out assms(1) op ne str nil \<open>isWriting _ \<and> _\<close>
      by (auto simp: tcp_handleWrite_def Let_def tcp_ok_def is_open_def stream_def same_but_output_def)
  qed
next
  case False
  then have "tcp_handleWrite w c = Some c"
    by (cases "w (length (tc_wire c)) (readableBytes (tc_outputBuffer c))") (auto simp: tcp_handleWrite_def)
  then show ?thesis using assms(1) by (simp add: same_but_output_def)
qed

section \<open>Runs\<close>

text \<open>
  What happens to a connection: the poller reports events, with the result of the read they lead to, or the
  loop runs its functors.
\<close>

datatype tcp_event = Polled u32 "int + bytes" sock_write | Pending sock_write

fun on_event :: "'a on_connection \<Rightarrow> 'a on_message \<Rightarrow> tcp_event \<Rightarrow> 'a TcpConnection \<Rightarrow> 'a TcpConnection option" where
  "on_event cc msg (Polled revents r w) c = handleEventWithGuard cc msg w revents r c"
| "on_event cc msg (Pending w) c = doPendingFunctors cc w c"

abbreviation reads :: "u32 \<Rightarrow> bool" where
  "reads revents \<equiv> revents AND (ev_IN OR ev_PRI OR ev_RDHUP) \<noteq> 0"

text \<open>
  What the poller reports: events of a connection it watches, data only while it waits for data, readiness
  for writing only while it waits for that, and a hang-up either with \<^verbatim>\<open>POLLIN\<close> or without any event to read.
\<close>

fun admissible :: "'a TcpConnection \<Rightarrow> tcp_event \<Rightarrow> bool" where
  "admissible c (Polled revents r w) \<longleftrightarrow> write_results_ok w \<and> \<not> isNoneEvent (tc_channel c) \<and>
     (reads revents \<longrightarrow> isReading (tc_channel c)) \<and> (revents AND ev_OUT \<noteq> 0 \<longrightarrow> isWriting (tc_channel c)) \<and>
     (revents AND ev_HUP \<noteq> 0 \<and> revents AND ev_IN = 0 \<longrightarrow> \<not> reads revents)"
| "admissible c (Pending w) \<longleftrightarrow> write_results_ok w"

text \<open>The bytes an event reads, and what the message callback makes of them.\<close>

fun read_by :: "tcp_event \<Rightarrow> bytes" where
  "read_by (Polled revents r w) = (if reads revents then case r of Inr data \<Rightarrow> data | Inl e \<Rightarrow> [] else [])"
| "read_by (Pending w) = []"

definition message_of :: "'a on_message \<Rightarrow> tcp_event \<Rightarrow> 'a TcpConnection \<Rightarrow> (bytes conn_effect list \<times> Buffer \<times> 'a) option" where
  "message_of msg ev c =
     (if read_by ev = [] then Some ([], tc_inputBuffer c, tc_context c)
      else do { (n, e, buf) \<leftarrow> readFd (Inr (read_by ev)) (tc_inputBuffer c); msg buf (tc_context c) })"

text \<open>A callback keeps the input buffer and the context well formed.\<close>

definition keeps_context :: "('a \<Rightarrow> bool) \<Rightarrow> 'a on_message \<Rightarrow> bool" where
  "keeps_context I msg \<longleftrightarrow>
     (\<forall>b x es b' x'. Buffer_inv b \<longrightarrow> I x \<longrightarrow> msg b x = Some (es, b', x') \<longrightarrow> Buffer_inv b' \<and> I x')"

lemma set_handling_simps [simp]:
  "tcp_ok (set_handling b c) = tcp_ok c" "is_open (set_handling b c) = is_open c" "stream (set_handling b c) = stream c"
  "tc_state (set_handling b c) = tc_state c" "tc_inputBuffer (set_handling b c) = tc_inputBuffer c" "tc_context (set_handling b c) = tc_context c"
  by (simp_all add: set_handling_def tcp_ok_def is_open_def stream_def)

lemma new_input_simps [simp]:
  "is_open (c\<lparr>tc_inputBuffer := b\<rparr>) = is_open c" "is_open (c\<lparr>tc_context := x\<rparr>) = is_open c"
  "stream (c\<lparr>tc_inputBuffer := b\<rparr>) = stream c" "stream (c\<lparr>tc_context := x\<rparr>) = stream c"
  "tcp_ok (c\<lparr>tc_context := x\<rparr>) = tcp_ok c"
  by (simp_all add: is_open_def stream_def tcp_ok_def)

lemma new_input_ok: "tcp_ok c \<Longrightarrow> Buffer_inv b \<Longrightarrow> tcp_ok (c\<lparr>tc_inputBuffer := b\<rparr>)"
  unfolding tcp_ok_def new_input_simps by simp

text \<open>What an event makes of a connection when the callback asks for \<open>es\<close> and leaves \<open>b\<close> and \<open>x\<close>.\<close>

definition moved_on :: "bytes conn_effect list \<Rightarrow> Buffer \<Rightarrow> 'a \<Rightarrow> 'a TcpConnection \<Rightarrow> 'a TcpConnection \<Rightarrow> bool" where
  "moved_on es b x c c' \<longleftrightarrow> tcp_ok c' \<and> stream c' = stream c @ (if tc_state c = kConnected then sent_before es else []) \<and>
     (is_open c' \<longrightarrow> is_open c \<and> tc_inputBuffer c' = b \<and> tc_context c' = x \<and>
        tc_state c' = (if tc_state c = kConnected \<and> Shutdown \<notin> set es then kConnected else kDisconnecting))"

lemma handleRead_ok:
  assumes ok: "tcp_ok c" "is_open c" and env: "context_only cc" "write_results_ok w" "keeps_context I msg" "I (tc_context c)"
    and msg: "case r of Inr data \<Rightarrow> data \<noteq> [] \<longrightarrow>
        Option.bind (readFd (Inr data) (tc_inputBuffer c)) (\<lambda>(n, e, buf). msg buf (tc_context c)) = Some (es, b, x) | Inl e \<Rightarrow> True"
    and none: "r = Inr [] \<or> isl r \<longrightarrow> es = [] \<and> b = tc_inputBuffer c \<and> x = tc_context c"
  shows "\<exists>c'. tcp_handleRead cc msg w r c = Some c' \<and> moved_on es b x c c' \<and> (is_open c' \<longrightarrow> I x)"
proof -
  have inv: "Buffer_inv (tc_inputBuffer c)" using ok(1) by (simp add: tcp_ok_def)
  consider (err) e where "r = Inl e" | (eof) "r = Inr []" | (dat) d where "r = Inr d" "d \<noteq> []" by (cases r) auto
  then show ?thesis
  proof cases
    case err
    then have "es = [] \<and> b = tc_inputBuffer c \<and> x = tc_context c" using none by simp
    then show ?thesis using err ok env(4) by (auto simp: tcp_handleRead_def moved_on_def is_open_def)
  next
    case eof
    then have es: "es = [] \<and> b = tc_inputBuffer c \<and> x = tc_context c" using none by simp
    obtain b' where b': "readFd (Inr []) (tc_inputBuffer c) = Some (0, None, b')" "Buffer_inv b'"
      using readFd_total [OF inv, of "[]"] by auto
    have "tcp_ok (c\<lparr>tc_inputBuffer := b'\<rparr>)" "is_open (c\<lparr>tc_inputBuffer := b'\<rparr>)" using ok b'(2) by (simp_all add: new_input_ok)
    from handleClose_ok [OF this env(1)] obtain c' where "tcp_handleClose cc (c\<lparr>tc_inputBuffer := b'\<rparr>) = Some c'" "tcp_ok c'"
      "tc_state c' = kDisconnected" "stream c' = stream c" by auto
    then show ?thesis using eof es b'(1) by (auto simp: tcp_handleRead_def moved_on_def is_open_def)
  next
    case (dat d)
    obtain b1 where b1: "readFd (Inr d) (tc_inputBuffer c) = Some (int (length d), None, b1)" "Buffer_inv b1" by (rule readFd_total [OF inv])
    then have m: "msg b1 (tc_context c) = Some (es, b, x)" using msg dat by simp
    have kept: "Buffer_inv b" "I x" using env(3) [unfolded keeps_context_def, rule_format, OF b1(2) env(4) m] by simp_all
    let ?c = "c\<lparr>tc_inputBuffer := b, tc_context := x\<rparr>"
    have "tcp_ok ?c" "is_open ?c" "tc_state ?c = tc_state c" "stream ?c = stream c" using ok kept(1) by (simp_all add: new_input_ok)
    with do_effects_ok [OF this(1,2) env(2), of es] obtain c' where "do_effects w es ?c = Some c'" "tcp_ok c'" "same_but_output ?c c'"
      "stream c' = stream c @ (if tc_state c = kConnected then sent_before es else [])"
      "tc_state c' = (if tc_state c = kConnected \<and> Shutdown \<notin> set es then kConnected else kDisconnecting)" by auto
    then show ?thesis using dat b1(1) m kept(2) ok(2)
      by (intro exI [of _ c']) (simp add: tcp_handleRead_def call_message_def moved_on_def same_but_output_def)
  qed
qed

lemma moved_on_write:
  assumes "moved_on es b x c c1" "write_results_ok w"
  shows "\<exists>c2. tcp_handleWrite w c1 = Some c2 \<and> moved_on es b x c c2 \<and> tc_state c2 = tc_state c1"
proof -
  have "tcp_ok c1" using assms(1) by (simp add: moved_on_def)
  from handleWrite_ok [OF this assms(2)] obtain c2 where "tcp_handleWrite w c1 = Some c2" "tcp_ok c2" "tc_state c2 = tc_state c1"
    "stream c2 = stream c1" "same_but_output c1 c2" by (elim exE conjE) (rule that)
  then show ?thesis using assms(1) by (intro exI [of _ c2]) (simp add: moved_on_def is_open_def same_but_output_def)
qed

lemma moved_on_handling [simp]:
  "moved_on es b x c (set_handling h c') = moved_on es b x c c'" "moved_on es b x (set_handling h c) c' = moved_on es b x c c'"
  by (simp_all add: moved_on_def)

lemma message_of_read:
  assumes "message_of msg (Polled revents r w) c = Some (es, b, x)" "reads revents"
  shows "case r of Inr data \<Rightarrow> data \<noteq> [] \<longrightarrow>
      Option.bind (readFd (Inr data) (tc_inputBuffer c)) (\<lambda>(n, e, buf). msg buf (tc_context c)) = Some (es, b, x) | Inl e \<Rightarrow> True"
    "r = Inr [] \<or> isl r \<longrightarrow> es = [] \<and> b = tc_inputBuffer c \<and> x = tc_context c"
proof -
  have rb: "read_by (Polled revents r w) = (case r of Inr data \<Rightarrow> data | Inl e \<Rightarrow> [])" using assms(2) by (simp only: read_by.simps if_True not_False_eq_True)
  show "case r of Inr data \<Rightarrow> data \<noteq> [] \<longrightarrow>
      Option.bind (readFd (Inr data) (tc_inputBuffer c)) (\<lambda>(n, e, buf). msg buf (tc_context c)) = Some (es, b, x) | Inl e \<Rightarrow> True"
  proof (cases r)
    case (Inr d)
    then have "read_by (Polled revents r w) = d" using rb by simp
    then show ?thesis using assms(1) unfolding message_of_def by (simp add: Inr split: if_splits)
  qed simp
  show "r = Inr [] \<or> isl r \<longrightarrow> es = [] \<and> b = tc_inputBuffer c \<and> x = tc_context c"
  proof
    assume "r = Inr [] \<or> isl r"
    then have "read_by (Polled revents r w) = []" using rb by (cases r) auto
    then show "es = [] \<and> b = tc_inputBuffer c \<and> x = tc_context c" using assms(1) unfolding message_of_def by simp
  qed
qed

lemma polled_ok:
  assumes ok: "tcp_ok c" and adm: "admissible c (Polled revents r w)"
    and env: "context_only cc" "keeps_context I msg" "I (tc_context c)"
    and msg: "message_of msg (Polled revents r w) c = Some (es, b, x)"
  shows "\<exists>c'. on_event cc msg (Polled revents r w) c = Some c' \<and> moved_on es b x c c' \<and> (is_open c' \<longrightarrow> I x)"
proof -
  define hup where "hup = (revents AND ev_HUP \<noteq> 0 \<and> revents AND ev_IN = 0)"
  define rd where "rd = reads revents"
  define out where "out = (revents AND ev_OUT \<noteq> 0)"
  let ?c = "set_handling True c"
  have op: "is_open c" and w: "write_results_ok w" using ok adm by (auto simp: tcp_ok_def)
  have nomsg: "es = []" "b = tc_inputBuffer c" "x = tc_context c" if "\<not> rd" using that msg by (simp_all add: message_of_def rd_def)
  have "\<exists>c1 c2. (if hup then tcp_handleClose cc ?c else Some ?c) = Some c1 \<and>
      (if rd then tcp_handleRead cc msg w r c1 else Some c1) = Some c2 \<and> moved_on es b x c c2 \<and> (is_open c2 \<longrightarrow> I x)"
  proof (cases hup)
    case True
    then have nr: "\<not> rd" using adm by (simp add: hup_def rd_def)
    from handleClose_ok [of ?c, OF _ _ env(1)] ok op obtain c1 where "tcp_handleClose cc ?c = Some c1" "tcp_ok c1"
      "tc_state c1 = kDisconnected" "stream c1 = stream c" by auto
    then show ?thesis using True nr nomsg [OF nr] by (intro exI [of _ c1]) (simp add: moved_on_def is_open_def)
  next
    case nh: False
    show ?thesis
    proof (cases rd)
      case True
      have "\<exists>c'. tcp_handleRead cc msg w r ?c = Some c' \<and> moved_on es b x ?c c' \<and> (is_open c' \<longrightarrow> I x)"
        using handleRead_ok [where c = ?c, unfolded set_handling_simps, OF ok op env(1) w env(2,3) message_of_read [OF msg True [unfolded rd_def]]] .
      then show ?thesis using nh True by simp
    next
      case nr: False
      have "tc_state c = (if tc_state c = kConnected then kConnected else kDisconnecting)" using op by (auto simp: is_open_def)
      then show ?thesis using nh nr nomsg [OF nr] ok op env(3) by (simp add: moved_on_def)
    qed
  qed
  then obtain c1 c2 where s: "(if hup then tcp_handleClose cc ?c else Some ?c) = Some c1"
    "(if rd then tcp_handleRead cc msg w r c1 else Some c1) = Some c2" "moved_on es b x c c2" "is_open c2 \<longrightarrow> I x"
    by (elim exE conjE) (rule that)
  obtain c3 where c3: "(if out then tcp_handleWrite w c2 else Some c2) = Some c3" "moved_on es b x c c3" "tc_state c3 = tc_state c2"
  proof (cases out)
    case True
    from moved_on_write [OF s(3) w] obtain c3 where "tcp_handleWrite w c2 = Some c3" "moved_on es b x c c3" "tc_state c3 = tc_state c2"
      by (elim exE conjE) (rule that)
    then show thesis using True by (intro that [of c3]) simp_all
  next
    case False
    then show thesis using s(3) by (intro that [of c2]) simp_all
  qed
  have "on_event cc msg (Polled revents r w) c = Some (set_handling False c3)"
    unfolding on_event.simps handleEventWithGuard_def Let_def hup_def [symmetric] rd_def [symmetric] out_def [symmetric]
    using s(1,2) c3(1) by simp
  then show ?thesis using c3(2,3) s(4) by (intro exI [of _ "set_handling False c3"]) (simp add: is_open_def)
qed

lemma run_functors_ok:
  assumes "tcp_ok c" "list_all loop_only fs" "FConnectDestroyed \<in> set fs \<longrightarrow> \<not> is_open c"
  shows "\<exists>c'. run_functors cc w fs c = Some c' \<and> tcp_ok c' \<and> tc_state c' = tc_state c \<and> stream c' = stream c \<and>
    tc_inputBuffer c' = tc_inputBuffer c \<and> tc_context c' = tc_context c"
  using assms
proof (induction fs arbitrary: c)
  case (Cons f fs)
  have "\<exists>c1. run_functor cc w f c = Some c1 \<and> tcp_ok c1 \<and> tc_state c1 = tc_state c \<and> stream c1 = stream c \<and>
      tc_inputBuffer c1 = tc_inputBuffer c \<and> tc_context c1 = tc_context c"
    using Cons.prems
    by (cases f) (auto simp: run_functor_def loop_only_def connectDestroyed_def chn_remove_def assert_opt_def tcp_ok_def is_open_def stream_def
        isNoneEvent_def Let_def)
  then obtain c1 where c1: "run_functor cc w f c = Some c1" "tcp_ok c1" "tc_state c1 = tc_state c" "stream c1 = stream c"
    "tc_inputBuffer c1 = tc_inputBuffer c" "tc_context c1 = tc_context c" by (elim exE conjE) (rule that)
  have "FConnectDestroyed \<in> set fs \<longrightarrow> \<not> is_open c1" using Cons.prems(3) c1(3) by (simp add: is_open_def)
  from Cons.IH [OF c1(2) _ this] Cons.prems(2) c1 show ?case by simp
qed simp

lemma pending_ok:
  assumes "tcp_ok c" "message_of msg (Pending w) c = Some (es, b, x)"
  shows "\<exists>c'. on_event cc msg (Pending w) c = Some c' \<and> moved_on es b x c c' \<and> (is_open c' \<longrightarrow> is_open c)"
proof -
  let ?c = "c\<lparr>tc_functors := []\<rparr>"
  have es: "es = []" "b = tc_inputBuffer c" "x = tc_context c" using assms(2) by (simp_all add: message_of_def)
  have "tcp_ok ?c" "list_all loop_only (tc_functors c)" "FConnectDestroyed \<in> set (tc_functors c) \<longrightarrow> \<not> is_open ?c"
    using assms(1) by (auto simp: tcp_ok_def is_open_def)
  from run_functors_ok [OF this, of cc w] obtain c' where "run_functors cc w (tc_functors c) ?c = Some c'" "tcp_ok c'" "tc_state c' = tc_state c"
    "stream c' = stream c" "tc_inputBuffer c' = tc_inputBuffer c" "tc_context c' = tc_context c" by (auto simp: stream_def)
  then show ?thesis using es by (intro exI [of _ c']) (auto simp: doPendingFunctors_def moved_on_def is_open_def)
qed

text \<open>A run, with the bytes it has read and what the message callback has asked for.\<close>

inductive tcp_run ::
  "'a on_connection \<Rightarrow> 'a on_message \<Rightarrow> 'a TcpConnection \<Rightarrow> bytes \<Rightarrow> bytes conn_effect list \<Rightarrow> 'a TcpConnection \<Rightarrow> bool"
  for cc msg c0 where
  start: "tcp_run cc msg c0 [] [] c0"
| step: "tcp_run cc msg c0 rs es c \<Longrightarrow> admissible c ev \<Longrightarrow> message_of msg ev c = Some (fs, b, x) \<Longrightarrow>
    on_event cc msg ev c = Some c' \<Longrightarrow> tcp_run cc msg c0 (rs @ read_by ev) (es @ fs) c'"

definition run_ok :: "('a \<Rightarrow> bool) \<Rightarrow> bytes conn_effect list \<Rightarrow> 'a TcpConnection \<Rightarrow> bool" where
  "run_ok I es c \<longleftrightarrow> tcp_ok c \<and> (is_open c \<longrightarrow> I (tc_context c)) \<and> stream c = sent_before es \<and>
     (tc_state c = kConnected \<longrightarrow> Shutdown \<notin> set es) \<and> (tc_state c = kDisconnecting \<longrightarrow> Shutdown \<in> set es)"

lemma event_ok:
  assumes "run_ok I es c" "admissible c ev" "context_only cc" "keeps_context I msg" "message_of msg ev c = Some (fs, b, x)"
  shows "\<exists>c'. on_event cc msg ev c = Some c' \<and> moved_on fs b x c c' \<and> (is_open c' \<longrightarrow> I x)" "is_open c \<or> fs = []"
proof (atomize (full), cases ev)
  case (Polled revents r w)
  have ok: "tcp_ok c" and op: "is_open c" using assms(1,2) Polled by (auto simp: run_ok_def tcp_ok_def)
  then have "I (tc_context c)" using assms(1) by (simp add: run_ok_def)
  from polled_ok [OF ok assms(2) [unfolded Polled] assms(3,4) this assms(5) [unfolded Polled]] op
  show "(\<exists>c'. on_event cc msg ev c = Some c' \<and> moved_on fs b x c c' \<and> (is_open c' \<longrightarrow> I x)) \<and> (is_open c \<or> fs = [])" by (simp only: Polled) simp
next
  case (Pending w)
  have ok: "tcp_ok c" using assms(1) by (simp add: run_ok_def)
  have "x = tc_context c" "fs = []" using assms(5) Pending by (simp_all add: message_of_def)
  with pending_ok [OF ok assms(5) [unfolded Pending], of cc] assms(1)
  show "(\<exists>c'. on_event cc msg ev c = Some c' \<and> moved_on fs b x c c' \<and> (is_open c' \<longrightarrow> I x)) \<and> (is_open c \<or> fs = [])"
    by (auto simp: Pending run_ok_def)
qed

lemma run_ok_step:
  assumes "run_ok I es c" "moved_on fs b x c c'" "is_open c' \<longrightarrow> I x" "is_open c \<or> fs = []"
  shows "run_ok I (es @ fs) c'"
proof -
  have m: "tcp_ok c'" "stream c' = stream c @ (if tc_state c = kConnected then sent_before fs else [])"
    "is_open c' \<Longrightarrow> is_open c \<and> tc_context c' = x \<and> tc_state c' = (if tc_state c = kConnected \<and> Shutdown \<notin> set fs then kConnected else kDisconnecting)"
    using assms(2) by (auto simp: moved_on_def)
  have r: "stream c = sent_before es" "tc_state c = kConnected \<longrightarrow> Shutdown \<notin> set es" "tc_state c = kDisconnecting \<longrightarrow> Shutdown \<in> set es"
    using assms(1) by (simp_all add: run_ok_def)
  have "stream c' = sent_before (es @ fs)" using m(2) r assms(4) by (auto simp: sent_before_append is_open_def)
  moreover have "tc_state c' = kConnected \<longrightarrow> Shutdown \<notin> set (es @ fs)" "tc_state c' = kDisconnecting \<longrightarrow> Shutdown \<in> set (es @ fs)"
    using m(3) r by (auto simp: is_open_def split: if_splits)
  ultimately show ?thesis using m(1,3) assms(3) by (simp add: run_ok_def)
qed

lemma established_ok:
  assumes "context_only cc" "connectEstablished cc (newConnection fd wcb y) = Some c0" "I (tc_context c0)"
  shows "run_ok I [] c0" "tc_state c0 = kConnected" "content (tc_inputBuffer c0) = []"
proof -
  let ?c = "(newConnection fd wcb y)\<lparr>tc_state := kConnected, tc_channel := enableReading (chn_tie (new_Channel fd))\<rparr>"
  have c0: "c0 = call_connection cc ?c" using assms(2) by (simp add: connectEstablished_def newConnection_def new_TcpConnection_def assert_opt_def)
  obtain x where x: "c0 = ?c\<lparr>tc_calls := tc_calls ?c @ [OnConnection True], tc_context := x\<rparr>"
    using call_connection_fields [OF assms(1), of ?c] c0 by auto
  have "\<not> isWriting (chn_tie (new_Channel fd))" by (simp add: isWriting_def new_Channel_def chn_tie_def)
  then have "\<not> isWriting (tc_channel c0)" using x by simp
  then show "run_ok I [] c0" using x assms(3)
    by (simp add: run_ok_def tcp_ok_def is_open_def stream_def newConnection_def new_TcpConnection_def new_Buffer_inv)
  show "tc_state c0 = kConnected" "content (tc_inputBuffer c0) = []" using x by (simp_all add: newConnection_def new_TcpConnection_def)
qed

lemma tcp_run_ok:
  assumes "tcp_run cc msg c0 rs es c" "context_only cc" "keeps_context I msg" "run_ok I [] c0"
  shows "run_ok I es c"
  using assms(1)
proof induction
  case start
  then show ?case using assms(4) .
next
  case (step rs es c ev fs b x c')
  note e = event_ok [OF step.IH step.hyps(2) assms(2,3) step.hyps(3)]
  then have "moved_on fs b x c c'" "is_open c' \<longrightarrow> I x" using step.hyps(4) by auto
  then show ?case using run_ok_step [OF step.IH _ _ e(2)] by blast
qed

section \<open>The muCGI server on a connection\<close>

lemma onRequest_buffer:
  assumes "Buffer_inv inp" "onRequest backend ps inp = Some (es, inp')"
  shows "Buffer_inv inp'"
proof -
  obtain b where "(if 0 < readableBytes inp then retrieveAllAsString inp else Some ([], inp)) = Some (content inp, b)" "Buffer_inv b"
    by (rule post_data_total [OF assms(1)])
  then show ?thesis using assms(2) by (auto simp: onRequest_def Let_def bind_eq_Some_conv split: prod.splits)
qed

lemma mucgi_keeps: "keeps_context codec_inv (mucgi_message backend)"
  unfolding keeps_context_def mucgi_message_def
proof (intro allI impI)
  fix b x es b' x'
  assume inv: "Buffer_inv b" "codec_inv x" and m: "onMessage (onRequest backend) b x = Some (es, b', x')"
  obtain buf c1 where p: "parseRequest b x = Some (True, buf, c1)" "codec_inv c1" "Buffer_inv buf"
    using parseRequest_refines [OF inv(2,1)] by blast
  show "Buffer_inv b' \<and> codec_inv x'"
  proof (cases "gotRequest c1")
    case True
    then obtain fs inp where r: "onRequest backend (params c1) (stdin c1) = Some (fs, inp)" "b' = buf"
      "x' = c1\<lparr>stdin := retrieveAll inp, paramsStream := retrieveAll (paramsStream c1), params := Map.empty, gotRequest := False\<rparr>"
      using m p(1) by (auto simp: onMessage_def Let_def bind_eq_Some_conv)
    have "Buffer_inv inp" using onRequest_buffer [OF _ r(1)] p(2) by (simp add: codec_inv_def)
    then show ?thesis using p r by (simp add: codec_inv_def retrieveAll_inv)
  next
    case False
    then show ?thesis using m p by (simp add: onMessage_def)
  qed
qed

lemma established_codec:
  assumes "connectEstablished onConnection (newConnection fd wcb y) = Some c0"
  shows "tc_context c0 = new_FastCgiCodec"
  using assms by (auto simp: connectEstablished_def newConnection_def new_TcpConnection_def assert_opt_def call_connection_def onConnection_def)

text \<open>What the callback does with the part of a request that has arrived.\<close>

definition cgi_of :: "ParamMap \<Rightarrow> bytes \<Rightarrow> Cgicc option" where
  "cgi_of m body = new_Cgicc (fst (subscript ''QUERY_STRING'' m)) (case m ''HTTP_COOKIE'' of None \<Rightarrow> [] | Some v \<Rightarrow> v) body
     (case m ''CONTENT_TYPE'' of None \<Rightarrow> [] | Some v \<Rightarrow> v)"

definition reply :: "(ParamMap \<Rightarrow> ParamMap \<Rightarrow> bytes) \<Rightarrow> Cgicc \<Rightarrow> bool \<Rightarrow> bytes conn_effect list \<Rightarrow> bool" where
  "reply backend cgi kept es \<longleftrightarrow>
     (\<exists>h. es = Cb (response_bytes (backend (mu_qmap cgi) h)) # (if kept then [] else [Shutdown]))"

definition request_sent ::
  "nat \<Rightarrow> nat \<Rightarrow> bytes list \<Rightarrow> bytes list \<Rightarrow> (bytes \<times> bytes) list \<Rightarrow> Cgicc \<Rightarrow> (ParamMap \<Rightarrow> ParamMap \<Rightarrow> bytes) \<Rightarrow> bool" where
  "request_sent role flags ps ins kvs cgi backend \<longleftrightarrow> list_all chunk_ok ps \<and> list_all chunk_ok ins \<and> concat ps = enc_pairs kvs \<and>
     (\<forall>k v. (k, v) \<in> set kvs \<longrightarrow> length k < 2 ^ 31 \<and> length v < 2 ^ 31) \<and> role < 65536 \<and> flags < 256 \<and>
     cgi_of (map_of (rev kvs)) (concat ins) = Some cgi \<and> (\<forall>q h. length (backend q h) \<le> npos \<and> backend q h \<noteq> [])"

lemma request_callback:
  assumes "request_sent role flags ps ins kvs cgi backend" "Buffer_inv inp" "content inp = concat ins"
  shows "\<exists>inp' h. onRequest backend (map_of (rev kvs)) inp = Some ([response_bytes (backend (mu_qmap cgi) h)], inp') \<and> Buffer_inv inp'"
proof -
  have "cgi_of (map_of (rev kvs)) (content inp) = Some cgi" using assms(1,3) by (simp add: request_sent_def)
  then have "\<exists>inp' h text. onRequest backend (map_of (rev kvs)) inp = Some ([response_bytes text], inp') \<and> Buffer_inv inp' \<and>
      text = (if backend (mu_qmap cgi) h = [] then empty_result else backend (mu_qmap cgi) h)"
    unfolding cgi_of_def using assms(1) by (intro onRequest_eq [OF assms(2)]) (simp_all add: request_sent_def)
  then show ?thesis using assms(1) by (auto simp: request_sent_def)
qed

lemma message_of_request:
  assumes req: "request_sent role flags ps ins kvs cgi backend" and pq: "p @ d @ q = enc_request rid role flags ps ins"
    and inv: "codec_inv x" "Buffer_inv b" and rc: "receive p connection_init = (conn_of x, lft)" "content b = lft @ d"
    and m: "mucgi_message backend b x = Some (es, b', x')"
  shows "q \<noteq> [] \<Longrightarrow> es = [] \<and> receive (p @ d) connection_init = (conn_of x', content b')"
    "q = [] \<Longrightarrow> reply backend cgi (role = 1 \<and> flags = 1) es"
proof -
  let ?m = "map_of (rev kvs)"
  have r: "list_all chunk_ok ps" "list_all chunk_ok ins" "concat ps = enc_pairs kvs"
    "\<And>k v. (k, v) \<in> set kvs \<Longrightarrow> length k < 2 ^ 31 \<and> length v < 2 ^ 31" "role < 65536" "flags < 256"
    using req by (simp_all add: request_sent_def)
  obtain k left where kr: "receive (p @ d) connection_init = (k, left)" by fastforce
  then have rec: "receive (content b) (conn_of x) = (k, left)" using receive_append [OF rc(1), of d] rc(2) by simp
  have full: "k = \<lparr>got = True, keep = (role = 1 \<and> flags = 1), input = concat ins, pstream = [], pmap = ?m\<rparr>" if "q = []"
    using receive_enc_request [OF r, of rid "[]"] pq that kr by (simp add: receive_unfold [of "[]"] take_record_def)
  have part: "\<not> got k" if "q \<noteq> []" using receive_incomplete [OF _ that r(1,2) kr] pq by simp
  have cb: "callback_ok (onRequest backend) (pmap k) (input k)" if "got k"
  proof -
    have "q = []" using that part by blast
    then have k: "pmap k = ?m" "input k = concat ins" using full by simp_all
    show ?thesis unfolding callback_ok_def k using request_callback [OF req] by blast
  qed
  have oc: "\<exists>es buf' c'. onMessage (onRequest backend) b x = Some (es, buf', c') \<and> codec_inv c' \<and> Buffer_inv buf' \<and> content buf' = left \<and>
      (if got k then conn_of c' = connection_init\<lparr>keep := keep k\<rparr> \<and>
         (\<exists>b r b'. content b = input k \<and> Buffer_inv b \<and> onRequest backend (pmap k) b = Some (r, b') \<and>
            es = map Cb r @ (if keep k then [] else [Shutdown]))
       else conn_of c' = k \<and> es = [])"
    by (rule onMessage_cases [OF inv cb rec])
  have m': "onMessage (onRequest backend) b x = Some (es, b', x')" using m by (simp add: mucgi_message_def)
  show "es = [] \<and> receive (p @ d) connection_init = (conn_of x', content b')" if "q \<noteq> []"
    using oc m' part [OF that] kr by simp
  show "reply backend cgi (role = 1 \<and> flags = 1) es" if q0: "q = []"
  proof -
    obtain b1 fs b2 where f: "content b1 = concat ins" "Buffer_inv b1" "onRequest backend ?m b1 = Some (fs, b2)"
      "es = map Cb fs @ (if role = 1 \<and> flags = 1 then [] else [Shutdown])"
      using oc m' full [OF q0] by auto
    then obtain h where "fs = [response_bytes (backend (mu_qmap cgi) h)]" using request_callback [OF req f(2,1)] by auto
    then show ?thesis using f(4) by (auto simp: reply_def)
  qed
qed

lemma message_of_reads:
  assumes "message_of msg ev c = Some (fs, b, x)" "tcp_ok c"
  shows "read_by ev = [] \<Longrightarrow> fs = [] \<and> b = tc_inputBuffer c \<and> x = tc_context c"
    "read_by ev \<noteq> [] \<Longrightarrow> \<exists>b1. Buffer_inv b1 \<and> content b1 = content (tc_inputBuffer c) @ read_by ev \<and> msg b1 (tc_context c) = Some (fs, b, x)"
proof -
  show "fs = [] \<and> b = tc_inputBuffer c \<and> x = tc_context c" if "read_by ev = []"
    using assms(1) that by (simp add: message_of_def)
  show "\<exists>b1. Buffer_inv b1 \<and> content b1 = content (tc_inputBuffer c) @ read_by ev \<and> msg b1 (tc_context c) = Some (fs, b, x)" if "read_by ev \<noteq> []"
  proof -
    have "Buffer_inv (tc_inputBuffer c)" using assms(2) by (simp add: tcp_ok_def)
    then obtain b1 where "readFd (Inr (read_by ev)) (tc_inputBuffer c) = Some (int (length (read_by ev)), None, b1)" "Buffer_inv b1"
      "content b1 = content (tc_inputBuffer c) @ read_by ev" by (rule readFd_total)
    then show ?thesis using assms(1) that by (intro exI [of _ b1]) (simp add: message_of_def)
  qed
qed

text \<open>A run that has read a part \<open>rs\<close> of the request.\<close>

definition serving ::
  "bytes \<Rightarrow> (ParamMap \<Rightarrow> ParamMap \<Rightarrow> bytes) \<Rightarrow> Cgicc \<Rightarrow> bool \<Rightarrow> bytes \<Rightarrow> bytes conn_effect list \<Rightarrow> FastCgiCodec TcpConnection \<Rightarrow> bool" where
  "serving request backend cgi kept rs es c \<longleftrightarrow>
     (rs = request \<longrightarrow> reply backend cgi kept es) \<and>
     ((\<exists>q. q \<noteq> [] \<and> rs @ q = request) \<longrightarrow> es = [] \<and>
        (is_open c \<longrightarrow> receive rs connection_init = (conn_of (tc_context c), content (tc_inputBuffer c))))"

lemma serving_step:
  assumes req: "request_sent role flags ps ins kvs cgi backend" and request: "request = enc_request rid role flags ps ins"
    and sv: "serving request backend cgi (role = 1 \<and> flags = 1) rs es c" and pre: "\<exists>q. (rs @ read_by ev) @ q = request"
    and ok: "run_ok codec_inv es c" and msg: "message_of (mucgi_message backend) ev c = Some (fs, b, x)"
    and mv: "moved_on fs b x c c'" "is_open c \<or> read_by ev = []"
  shows "serving request backend cgi (role = 1 \<and> flags = 1) (rs @ read_by ev) (es @ fs) c'"
proof (cases "read_by ev = []")
  case True
  then have "fs = [] \<and> b = tc_inputBuffer c \<and> x = tc_context c" using message_of_reads(1) [OF msg] ok by (simp add: run_ok_def)
  then show ?thesis using sv mv(1) True by (auto simp: serving_def moved_on_def)
next
  case False
  obtain q where q: "(rs @ read_by ev) @ q = request" using pre by blast
  have t: "tcp_ok c" "is_open c" "codec_inv (tc_context c)" using ok mv(2) False by (simp_all add: run_ok_def)
  have es: "es = []" and rc: "receive rs connection_init = (conn_of (tc_context c), content (tc_inputBuffer c))"
    using sv q False t(2) by (auto simp: serving_def)
  obtain b1 where b1: "Buffer_inv b1" "content b1 = content (tc_inputBuffer c) @ read_by ev" "mucgi_message backend b1 (tc_context c) = Some (fs, b, x)"
    using message_of_reads(2) [OF msg t(1) False] by blast
  have pq: "rs @ read_by ev @ q = enc_request rid role flags ps ins" using q request by simp
  note m = message_of_request [OF req pq t(3) b1(1) rc b1(2,3)]
  show ?thesis unfolding serving_def es append_Nil
  proof (intro conjI impI)
    show "reply backend cgi (role = 1 \<and> flags = 1) fs" if "rs @ read_by ev = request" using m(2) that q by simp
    assume "\<exists>q. q \<noteq> [] \<and> (rs @ read_by ev) @ q = request"
    then have "q \<noteq> []" using q by auto
    note n = m(1) [OF this]
    show "fs = []" using n by simp
    show "receive (rs @ read_by ev) connection_init = (conn_of (tc_context c'), content (tc_inputBuffer c'))" if "is_open c'"
      using n that mv(1) by (simp add: moved_on_def)
  qed
qed

lemma tcp_run_serving:
  assumes req: "request_sent role flags ps ins kvs cgi backend" and request: "request = enc_request rid role flags ps ins"
    and run: "tcp_run onConnection (mucgi_message backend) c0 rs es c"
    and c0: "run_ok codec_inv [] c0" "serving request backend cgi (role = 1 \<and> flags = 1) [] [] c0"
    and pre: "\<exists>q. rs @ q = request"
  shows "serving request backend cgi (role = 1 \<and> flags = 1) rs es c"
  using run pre
proof induction
  case start
  show ?case by (rule c0(2))
next
  case (step rs es c ev fs b x c')
  have ok: "run_ok codec_inv es c" by (rule tcp_run_ok [OF step.hyps(1) onConnection_context mucgi_keeps c0(1)])
  note e = event_ok [OF ok step.hyps(2) onConnection_context mucgi_keeps step.hyps(3)]
  have mv: "moved_on fs b x c c'" using e(1) step.hyps(4) by auto
  have op: "is_open c \<or> read_by ev = []" using ok step.hyps(2) by (cases ev) (auto simp: run_ok_def tcp_ok_def)
  have "\<exists>q. rs @ q = request" using step.prems by auto
  then show ?case using serving_step [OF req request step.IH step.prems ok step.hyps(3) mv op] by blast
qed

lemma established_serving:
  assumes "connectEstablished onConnection (newConnection fd wcb y) = Some c0" "request \<noteq> []"
  shows "run_ok codec_inv [] c0" "serving request backend cgi kept [] [] c0"
proof -
  have x: "tc_context c0 = new_FastCgiCodec" by (rule established_codec [OF assms(1)])
  then have e: "run_ok codec_inv [] c0" "content (tc_inputBuffer c0) = []"
    using established_ok [OF onConnection_context assms(1), of codec_inv] by simp_all
  show "run_ok codec_inv [] c0" by (rule e(1))
  show "serving request backend cgi kept [] [] c0" using assms(2) e(2) x
    by (auto simp: serving_def receive_unfold [of "[]"] take_record_def)
qed

lemma enc_request_nonempty: "enc_request rid role flags ps ins \<noteq> []"
  by (simp add: enc_request_def enc_stream_def enc_record_def)

section \<open>Limits\<close>

text \<open>
  \<^verbatim>\<open>connectDestroyed\<close> expects a connection that is connected or closed. The destructor of the server calls
  it for every connection; one that is being shut down still waits for events and fails the assertion of
  \<^verbatim>\<open>Channel::remove\<close>.
\<close>

lemma connectDestroyed_fails:
  "tc_state c = kDisconnecting \<Longrightarrow> isReading (tc_channel c) \<Longrightarrow> connectDestroyed cc c = None"
  by (auto simp: connectDestroyed_def chn_remove_def assert_opt_def isNoneEvent_def isReading_def kNoneEvent_def)

text \<open>
  Data sent by another thread waits in the loop. When the loop's own thread shuts the connection down
  first, the writing half is closed before the data is written.
\<close>

lemma send_after_shutdown:
  assumes "tcp_ok c" "tc_state c = kConnected" "content (tc_outputBuffer c) = []" "tcp_send False w data c = Some c1"
  shows "tc_shutWrite (tcp_shutdown True c1) \<and> FSendInLoop data \<in> set (tc_functors (tcp_shutdown True c1))"
  using assms by (auto simp: tcp_send_def tcp_shutdown_def shutdownInLoop_def tcp_ok_def is_open_def Let_def)

text \<open>A hang-up reported with \<^verbatim>\<open>POLLRDHUP\<close> but without \<^verbatim>\<open>POLLIN\<close> would close a connection twice.\<close>

lemma hangup_closes_twice:
  assumes "tcp_ok c" "is_open c" "context_only cc"
  shows "on_event cc msg (Polled (ev_HUP OR ev_RDHUP) (Inr []) w) c = None"
proof -
  have bits: "(ev_HUP OR ev_RDHUP) AND ev_HUP \<noteq> 0" "(ev_HUP OR ev_RDHUP) AND ev_IN = 0" "reads (ev_HUP OR ev_RDHUP)"
    by (simp_all add: ev_HUP_def ev_RDHUP_def ev_IN_def ev_PRI_def)
  obtain c1 where c1: "tcp_handleClose cc (set_handling True c) = Some c1" "tcp_ok c1" "tc_state c1 = kDisconnected"
    using handleClose_ok [of "set_handling True c", OF _ _ assms(3)] assms(1,2) by auto
  have "Buffer_inv (tc_inputBuffer c1)" using c1(2) by (simp add: tcp_ok_def)
  then obtain b where "readFd (Inr []) (tc_inputBuffer c1) = Some (0, None, b)" using readFd_total [of "tc_inputBuffer c1" "[]"] by auto
  then have "tcp_handleRead cc msg w (Inr []) c1 = None" using c1(3) by (simp add: tcp_handleRead_def tcp_handleClose_def assert_opt_def)
  then show ?thesis using bits c1(1) by (simp add: handleEventWithGuard_def)
qed

text \<open>Runs exist: a connection reads data that the callback can handle.\<close>

lemma established_reads:
  assumes "context_only cc" "connectEstablished cc (newConnection fd wcb y) = Some c0"
  shows "isReading (tc_channel c0)" "\<not> isNoneEvent (tc_channel c0)"
proof -
  let ?c = "(newConnection fd wcb y)\<lparr>tc_state := kConnected, tc_channel := enableReading (chn_tie (new_Channel fd))\<rparr>"
  have "c0 = call_connection cc ?c" using assms(2) by (simp add: connectEstablished_def newConnection_def new_TcpConnection_def assert_opt_def)
  then have "tc_channel c0 = enableReading (chn_tie (new_Channel fd))" using call_connection_fields [OF assms(1), of ?c] by auto
  then show "isReading (tc_channel c0)" by simp
  then show "\<not> isNoneEvent (tc_channel c0)" by (auto simp: isNoneEvent_def isReading_def kNoneEvent_def)
qed

lemma one_read_run:
  assumes "context_only cc" "keeps_context I msg" "connectEstablished cc (newConnection fd wcb y) = Some c0" "run_ok I [] c0"
    and "write_results_ok w" "data \<noteq> []"
    and msg: "\<And>b. Buffer_inv b \<Longrightarrow> content b = content (tc_inputBuffer c0) @ data \<Longrightarrow> \<exists>es b' x. msg b (tc_context c0) = Some (es, b', x) \<and> P es"
  shows "\<exists>es c. P es \<and> tcp_run cc msg c0 data es c"
proof -
  let ?ev = "Polled ev_IN (Inr data) w"
  have bits: "reads ev_IN" "ev_IN AND ev_OUT = 0" "ev_IN AND ev_IN \<noteq> 0" by (simp_all add: ev_IN_def ev_PRI_def ev_RDHUP_def ev_OUT_def)
  have adm: "admissible c0 ?ev" using established_reads [OF assms(1,3)] bits assms(5) by simp
  have rb: "read_by ?ev = data" using bits by simp
  have "Buffer_inv (tc_inputBuffer c0)" using assms(4) by (simp add: run_ok_def tcp_ok_def)
  then obtain b where b: "readFd (Inr data) (tc_inputBuffer c0) = Some (int (length data), None, b)" "Buffer_inv b"
    "content b = content (tc_inputBuffer c0) @ data" by (rule readFd_total)
  obtain es b' x where m: "msg b (tc_context c0) = Some (es, b', x)" "P es" using msg [OF b(2,3)] by blast
  have mo: "message_of msg ?ev c0 = Some (es, b', x)" unfolding message_of_def rb using b(1) m(1) assms(6) by simp
  obtain c where "on_event cc msg ?ev c0 = Some c" using event_ok(1) [OF assms(4) adm assms(1,2) mo] by blast
  from tcp_run.step [OF tcp_run.start adm mo this] rb m(2) show ?thesis by (intro exI [of _ es] exI [of _ c]) simp
qed

text \<open>An example: a connection that returns what it reads, on a socket that takes a byte at a time.\<close>

definition echo :: "unit on_message" where
  "echo b x = Some ([Cb (content b)], retrieveAll b, x)"

definition byte_at_a_time :: sock_write where
  "byte_at_a_time k n = Inr (min 1 n)"

lemma echo_keeps: "keeps_context (\<lambda>_. True) echo"
  by (simp add: keeps_context_def echo_def retrieveAll_inv)

lemma byte_at_a_time_ok: "write_results_ok byte_at_a_time"
  by (simp add: write_results_ok_def byte_at_a_time_def)

lemma echo_established: "\<exists>c0. connectEstablished (\<lambda>c. c) (newConnection 5 False ()) = Some c0"
  by (simp add: connectEstablished_def newConnection_def new_TcpConnection_def assert_opt_def)

lemma id_context: "context_only (\<lambda>c. c)"
  by (simp add: context_only_def)

text \<open>A request of the muCGI server, read at once.\<close>

definition ex_kvs :: "(bytes \<times> bytes) list" where
  "ex_kvs = [(''QUERY_STRING'', enc_form [(''A'', ''1'')])]"

definition ex_cgi :: Cgicc where
  "ex_cgi = \<lparr>fFormData = map (\<lambda>p. new_FormEntry (fst p) (snd p)) [(''A'', ''1'')], fFormFiles = [], fCookies = []\<rparr>"

lemma ex_request: "request_sent 1 0 [enc_pairs ex_kvs] [] ex_kvs ex_cgi printRequest"
proof -
  have "length (enc_form [(''A'', ''1'')]) < npos" by (simp add: enc_form_pair_def unreserved_def npos_def)
  from new_Cgicc_query [OF this] have "cgi_of (map_of (rev ex_kvs)) [] = Some ex_cgi"
    by (simp add: cgi_of_def ex_kvs_def ex_cgi_def subscript_def)
  then show ?thesis
    by (simp add: request_sent_def ex_kvs_def enc_pairs_def enc_pair_def enc_len_def chunk_ok_def enc_form_pair_def unreserved_def npos_def
        printRequest_def)
qed

lemma request_run:
  assumes req: "request_sent role flags ps ins kvs cgi backend"
    and c0: "connectEstablished onConnection (newConnection fd wcb y) = Some c0"
  shows "\<exists>es c. tcp_run onConnection (mucgi_message backend) c0 (enc_request rid role flags ps ins) es c"
proof -
  let ?r = "enc_request rid role flags ps ins"
  have x: "tc_context c0 = new_FastCgiCodec" by (rule established_codec [OF c0])
  have e: "run_ok codec_inv [] c0" "content (tc_inputBuffer c0) = []" using established_ok [OF onConnection_context c0, of codec_inv] x by simp_all
  have r: "list_all chunk_ok ps" "list_all chunk_ok ins" "concat ps = enc_pairs kvs"
    "\<And>k v. (k, v) \<in> set kvs \<Longrightarrow> length k < 2 ^ 31 \<and> length v < 2 ^ 31" "role < 65536" "flags < 256"
    using req by (simp_all add: request_sent_def)
  have "\<exists>es b' x. mucgi_message backend b (tc_context c0) = Some (es, b', x) \<and> True" if b: "Buffer_inv b" "content b = content (tc_inputBuffer c0) @ ?r" for b
  proof -
    let ?k = "\<lparr>got = True, keep = (role = 1 \<and> flags = 1), input = concat ins, pstream = [], pmap = map_of (rev kvs)\<rparr>"
    have rec: "receive (content b) (conn_of new_FastCgiCodec) = (?k, [])"
      using receive_enc_request [OF r, of rid "[]"] b(2) e(2) by (simp add: receive_unfold [of "[]"] take_record_def)
    have cb: "callback_ok (onRequest backend) (pmap ?k) (input ?k)"
      unfolding callback_ok_def using request_callback [OF req] by simp blast
    show ?thesis unfolding x mucgi_message_def using onMessage_cases [OF new_codec(1) b(1) cb rec] by blast
  qed
  then have "\<exists>es c. True \<and> tcp_run onConnection (mucgi_message backend) c0 ?r es c"
    by (intro one_read_run [OF onConnection_context mucgi_keeps c0 e(1) byte_at_a_time_ok enc_request_nonempty, where P = "\<lambda>_. True"])
  then show ?thesis by simp
qed

section \<open>Properties\<close>





end
