(* ===== verification/Spec2Isabelle.thy ===== *)
theory Spec2Isabelle
  imports Cocgi_Server Fcgiapp_Request Os_Loop Os_Accept Libco_Timeout Libco_Stack Muduo_Tcp
begin

text \<open>
  A verification library of the FastCGI servers under \<^verbatim>\<open>src\<close>.

  \<^bold>\<open>The program.\<close> There are three implementations of a FastCGI application server, each with the libraries it
  is built on. A web server sends requests as FastCGI records; the application server decodes the records,
  decodes the form data they carry, calls a back end and sends records with the response.

    \<^item> muCGI (\<^verbatim>\<open>mucgi\<close>): one event loop. \<^verbatim>\<open>TcpConnection::handleRead\<close> reads into a \<^verbatim>\<open>Buffer\<close>,
      \<^verbatim>\<open>FastCgiCodec::onMessage\<close> parses records, \<^verbatim>\<open>onRequest\<close> decodes the request with \<^verbatim>\<open>Cgicc\<close>, calls the back
      end and sends what \<^verbatim>\<open>respond\<close> builds.
    \<^item> coCGI (\<^verbatim>\<open>cocgi\<close>): one coroutine per connection, taken from a pool, on the library libco
      (\<^verbatim>\<open>cocgi_lib/libco\<close>). Its codec reads the socket itself; it uses copies of \<^verbatim>\<open>Buffer\<close> and \<^verbatim>\<open>Cgicc\<close>.
    \<^item> the FastCGI development kit (\<^verbatim>\<open>fastcgi/fastcgi_lib\<close>): \<^verbatim>\<open>fcgiapp.cpp\<close> gives an application streams over
      one connection, \<^verbatim>\<open>os_unix.cpp\<close> the sockets and the asynchronous I/O below it.

  \<^bold>\<open>Conventions.\<close> A byte is a character, a string a list of bytes; integers whose width matters are words. A
  class or struct is a record of its members, an operation a function from the old state to the new one. A
  failed assertion, an access out of bounds, an exception, a call of \<^verbatim>\<open>exit\<close> and a loop that does not end are
  \<^term>\<open>None\<close>; loops that might not end are partial functions in the option monad, and theorems about them state
  that they return. There is no fuel in any definition. The results of system calls (\<^verbatim>\<open>read\<close>, \<^verbatim>\<open>write\<close>, \<^verbatim>\<open>select\<close>,
  \<^verbatim>\<open>accept\<close>, the clock, \<^verbatim>\<open>malloc\<close>) and the callbacks of the application are parameters; theorems hold for all
  results the named hypotheses allow. Bytes that go to a socket are part of the state.

  \<^bold>\<open>Shared theories.\<close>

    \<^item> \<open>FCGI_Prelude\<close>: bytes, words, the operations of \<^verbatim>\<open>std::string\<close> with their \<^verbatim>\<open>npos\<close>, character classes,
      collections of lemmas.
    \<^item> \<open>Byte_Order\<close>: the \<^verbatim>\<open>hton\<close> macros of \<^verbatim>\<open>cocgi_lib/type.h\<close> and the functions of \<^verbatim>\<open>muduo_net/Endian.h\<close>; both put
      the most significant byte first.
    \<^item> \<open>Fcgi_Wire\<close>: the wire format as a specification: records, name-value pairs, how a stream of bytes splits into
      records (locale \<open>framing\<close>) and the state of a connection after a stream of records (\<open>receive\<close>). The locale
      \<open>wire_codec\<close> says what a codec promises, whatever the pieces in which bytes arrive; both servers interpret it.

  \<^bold>\<open>muCGI.\<close>

    \<^item> \<open>Muduo_Buffer\<close>: \<^verbatim>\<open>muduo_net/Buffer.h\<close> and \<^verbatim>\<open>Buffer.cc\<close>, every member. The locale \<open>byte_queue\<close> is the contract its
      users rely on.
    \<^item> \<open>Mucgi_Codec\<close>: \<^verbatim>\<open>fastcgi.cpp\<close>. The parser refines \<open>receive\<close>, requests round trip, responses split into the
      records they should, the four-byte lengths do not overflow.
    \<^item> \<open>Cgicc_Utils\<close>, \<open>Cgicc_Form\<close>: \<^verbatim>\<open>cgicc_lib\<close>. URL coding, url-encoded and multipart forms and cookies round trip;
      malformed parts throw.
    \<^item> \<open>Mucgi_Main\<close>: \<^verbatim>\<open>onRequest\<close> of \<^verbatim>\<open>main.cpp\<close> and the sample page of \<^verbatim>\<open>backend.cpp\<close>; a query goes through the whole
      server.
    \<^item> \<open>Muduo_Tcp\<close>: \<^verbatim>\<open>Channel\<close>, \<^verbatim>\<open>TcpConnection\<close>, \<^verbatim>\<open>EventLoop::doPendingFunctors\<close> and \<^verbatim>\<open>onConnection\<close>. Whatever is sent
      is written in order, the writing half is shut down after the last byte, no assertion fails; a request that
      arrives in any pieces is answered once.

  \<^bold>\<open>coCGI.\<close>

    \<^item> \<open>Cocgi_Codec\<close>: \<^verbatim>\<open>cocgi_lib/fastcgi.cpp\<close>. The parser and the responses are those of muCGI; \<^verbatim>\<open>readData\<close> serves a
      request, its return codes and the end of its write loop.
    \<^item> \<open>Cocgi_Server\<close>: \<^verbatim>\<open>cocgi_lib/cocgi.cpp\<close>. The pool of tasks as a step relation: no two tasks share a descriptor, none
      is lost, a connection is served from accept to close; a full pool can make the accept routine spin.
    \<^item> \<open>Libco_Link\<close>, \<open>Libco_Timeout\<close>, \<open>Libco_Stack\<close>: \<^verbatim>\<open>libco/co_routine.cpp\<close>. The pointer lists refine lists; a round
      of the event loop processes exactly the items whose time has come; a coroutine on a shared stack finds its
      stack as it left it.

  \<^bold>\<open>The development kit.\<close>

    \<^item> \<open>Fcgiapp_Stream\<close>, \<open>Fcgiapp_Reader\<close>, \<open>Fcgiapp_Filling\<close>, \<open>Fcgiapp_Source\<close>, \<open>Fcgiapp_Request\<close>: \<^verbatim>\<open>fcgiapp.cpp\<close>. The
      writing streams (locale \<open>buffered_writer\<close>, for framed and raw output), the reading streams (locale
      \<open>byte_source\<close>, for the body of a management record and for a stream of the request), the life of a request.
      What is written is read back as records; a well-formed request is accepted with its environment and input;
      three flaws are shown by theorems.
    \<^item> \<open>Os_Async\<close>, \<open>Os_Loop\<close>: the asynchronous operations of \<^verbatim>\<open>os_unix.cpp\<close>. The locale \<open>os_invariant\<close> carries an
      invariant through the loop; ready operations are dispatched once and in order, the table is never left.
    \<^item> \<open>Os_Accept\<close>: sockets, signals and \<^verbatim>\<open>OS_Accept\<close>, which returns the first client it may serve.

  \<^bold>\<open>Bounds.\<close> Hypotheses on sizes are those of the formats and types: contents of records below \<open>2 ^ 16\<close> bytes, names and
  values below \<open>2 ^ 31\<close>, strings below \<^verbatim>\<open>npos\<close>, clocks below \<open>2 ^ 62\<close> milliseconds. The buffers of the streams have the
  sizes the program uses or any size above a header.

  \<^bold>\<open>Not modelled.\<close> The switch of registers (\<^verbatim>\<open>coctx\<close>, assembly), \<^verbatim>\<open>co_poll\<close>, the condition variables and the hooks of
  system calls in libco; the pollers, timers, sockets, threads, dates and files of muduo; the formatted output of
  \<^verbatim>\<open>FCGX_VFPrintF\<close> (printf formats left to the C library); \<^verbatim>\<open>fcgi_stdio\<close> and \<^verbatim>\<open>fcgio\<close>, which forward to the C and C++
  libraries; \<^verbatim>\<open>spawn-fcgi\<close>, nearly all system calls; \<^verbatim>\<open>fastcgi_server.cpp\<close>, a loop of threads; logging; the \<^verbatim>\<open>main\<close>
  functions. The copies of \<^verbatim>\<open>Buffer\<close> and \<^verbatim>\<open>Cgicc\<close> under \<^verbatim>\<open>cocgi_lib\<close> are represented by the models of the originals. In
  all models memory is released silently, logging is left out, and a thread runs alone between its calls.
\<close>

end
